(* ===== verification/Prelude.thy ===== *)
theory Prelude
  imports Main "HOL-Library.Word" "HOL-Library.Monad_Syntax"
begin

text \<open>
  Shared vocabulary of the development: the machine types of the kernel (x86-64, so
  \<open>usize\<close> is 64 bits wide), Rust's checked arithmetic, array accesses that may panic, and
  the generic lemmas the component theories use.

  A computation that may fail to return normally has type \<open>'a option\<close>: \<open>None\<close> stands for
  a panic (failed \<open>assert!\<close> or \<open>debug_assert!\<close>, overflow of a plain \<open>+\<close>, \<open>-\<close>, \<open>*\<close> or shift,
  an index out of range, \<open>unwrap\<close> of \<open>None\<close>, \<open>unreachable!\<close>), for a loop that never ends,
  or for undefined behaviour such as a read of uninitialised memory; the comment at the
  definition says which. The profile modelled is the checked one (debug assertions and
  overflow checks on). A Rust \<open>Option\<close> or \<open>Result\<close> that the code returns as a value is a
  further \<open>option\<close> or sum (\<open>Inl\<close> the error) inside.
\<close>

unbundle bit_operations_syntax

section \<open>Machine types\<close>

type_synonym u8 = "8 word"
type_synonym u16 = "16 word"
type_synonym u32 = "32 word"
type_synonym u64 = "64 word"
type_synonym usize = "64 word"
type_synonym i32 = "32 word" \<comment> \<open>read with \<open>sint\<close>\<close>
type_synonym i64 = "64 word" \<comment> \<open>read with \<open>sint\<close>\<close>

text \<open>Addresses of tasks, wait nodes and objects; a nullable raw pointer is an option.\<close>

type_synonym addr = nat
type_synonym ptr = "addr option"

lemma unat_u32_less: "unat (x :: u32) < 4294967296"
  using unsigned_less [of x] by simp

lemma unat_plus_one: "unat (c :: u32) < 2 ^ 32 - 2 \<Longrightarrow> unat (c + 1) = Suc (unat c)"
  by (simp add: unat_word_ariths)

lemma unat_minus_one32: "0 < unat (c :: u32) \<Longrightarrow> unat (c - 1) = unat c - 1"
  by (metis Suc_pred' unat_eq_zero unat_gt_0 unat_minus_one diff_Suc_1)

lemma unat_eq_one: "unat (c :: 'a::len word) = Suc 0 \<longleftrightarrow> c = 1"
  by (metis One_nat_def unat_1 word_unat_eq_iff)

lemma ucast_ucast_u32: "ucast (ucast (x :: u32) :: u64) = x"
  by (rule bit_word_eqI) (auto simp: bit_simps dest: bit_imp_le_length)

section \<open>Collections of facts\<close>

named_theorems checked_simps \<open>unfolding of checked arithmetic and array accesses\<close>
named_theorems wf_intros \<open>introduction rules of the well-formedness invariants\<close>
named_theorems abs_simps \<open>how operations act on the abstract values\<close>

section \<open>Panics\<close>

text \<open>\<open>assert!\<close> and \<open>debug_assert!\<close>: continue when the condition holds.\<close>

definition assert_that :: "bool \<Rightarrow> unit option" where
  "assert_that b = (if b then Some () else None)"

lemma assert_that_simps [simp]: "assert_that True = Some ()" "assert_that False = None"
  by (simp_all add: assert_that_def)

lemma assert_that_eq_Some [simp]: "assert_that b = Some u \<longleftrightarrow> b"
  by (simp add: assert_that_def)

lemma bind_assert [simp]: "(assert_that b \<bind> f) = Some y \<longleftrightarrow> b \<and> f () = Some y"
  by (simp add: assert_that_def)

text \<open>\<open>xs[i]\<close> and \<open>xs[i] = v\<close> on slices and vectors: out of range is a panic.\<close>

definition idx :: "'a list \<Rightarrow> nat \<Rightarrow> 'a option" where
  [checked_simps]: "idx xs i = (if i < length xs then Some (xs ! i) else None)"

definition upd :: "'a list \<Rightarrow> nat \<Rightarrow> 'a \<Rightarrow> 'a list option" where
  [checked_simps]: "upd xs i v = (if i < length xs then Some (xs[i := v]) else None)"

lemma idx_in [simp]: "i < length xs \<Longrightarrow> idx xs i = Some (xs ! i)"
  by (simp add: idx_def)

lemma upd_in [simp]: "i < length xs \<Longrightarrow> upd xs i v = Some (xs[i := v])"
  by (simp add: upd_def)

lemma idx_eq_Some: "idx xs i = Some x \<longleftrightarrow> i < length xs \<and> x = xs ! i"
  by (auto simp: idx_def)

lemma upd_eq_Some: "upd xs i v = Some ys \<longleftrightarrow> i < length xs \<and> ys = xs[i := v]"
  by (auto simp: upd_def)

section \<open>Checked arithmetic\<close>

definition add_chk :: "'a::len word \<Rightarrow> 'a word \<Rightarrow> 'a word option" where
  [checked_simps]: "add_chk a b = (if unat a + unat b < 2 ^ LENGTH('a) then Some (a + b) else None)"

definition sub_chk :: "'a::len word \<Rightarrow> 'a word \<Rightarrow> 'a word option" where
  [checked_simps]: "sub_chk a b = (if b \<le> a then Some (a - b) else None)"

definition shl_chk :: "'a::len word \<Rightarrow> nat \<Rightarrow> 'a word option" where
  [checked_simps]: "shl_chk x n = (if n < LENGTH('a) then Some (push_bit n x) else None)"

definition shr_chk :: "'a::len word \<Rightarrow> nat \<Rightarrow> 'a word option" where
  [checked_simps]: "shr_chk x n = (if n < LENGTH('a) then Some (drop_bit n x) else None)"

lemma add_chk_eq_Some:
  "add_chk a (b :: 'a::len word) = Some c \<longleftrightarrow> unat a + unat b < 2 ^ LENGTH('a) \<and> c = a + b"
  by (auto simp: add_chk_def)

lemma unat_add_chk: "add_chk a b = Some c \<Longrightarrow> unat c = unat a + unat b"
  by (auto simp: add_chk_eq_Some unat_word_ariths)

lemma unat_sub_chk: "sub_chk a b = Some c \<Longrightarrow> unat c = unat a - unat b"
  by (auto simp: sub_chk_def unat_sub split: if_splits)

text \<open>\<open>usize\<close> counters that never meet bit operations are kept as \<open>nat\<close> below \<open>2 ^ 64\<close>.\<close>

definition usize_add :: "nat \<Rightarrow> nat \<Rightarrow> nat option" where
  [checked_simps]: "usize_add a b = (if a + b < 2 ^ 64 then Some (a + b) else None)"

definition usize_sub :: "nat \<Rightarrow> nat \<Rightarrow> nat option" where
  [checked_simps]: "usize_sub a b = (if b \<le> a then Some (a - b) else None)"

lemma usize_add_eq_Some: "usize_add a b = Some c \<longleftrightarrow> a + b < 2 ^ 64 \<and> c = a + b"
  by (auto simp: usize_add_def)

lemma usize_sub_eq_Some: "usize_sub a b = Some c \<longleftrightarrow> b \<le> a \<and> c = a - b"
  by (auto simp: usize_sub_def)

section \<open>Counting zeros\<close>

text \<open>\<open>trailing_zeros\<close> and \<open>leading_zeros\<close> of the primitive integers; the width for 0.\<close>

definition trailing_zeros :: "'a::len word \<Rightarrow> nat" where
  "trailing_zeros x = length (takeWhile (\<lambda>i. \<not> bit x i) [0..<LENGTH('a)])"

definition leading_zeros :: "'a::len word \<Rightarrow> nat" where
  "leading_zeros x = length (takeWhile (\<lambda>i. \<not> bit x i) (rev [0..<LENGTH('a)]))"

lemma takeWhile_upt_length:
  assumes "k \<le> n" "\<forall>i < k. P i" "k < n \<Longrightarrow> \<not> P k"
  shows "length (takeWhile P [0..<n]) = k"
proof -
  have "[0..<n] = [0..<k] @ [k..<n]"
    using assms(1) by (metis le_add_diff_inverse plus_nat.add_0 upt_add_eq_append zero_le)
  moreover have "takeWhile P [k..<n] = []"
    using assms(3) by (cases "k < n") (simp_all add: upt_conv_Cons)
  moreover have "takeWhile P ([0..<k] @ [k..<n]) = [0..<k] @ takeWhile P [k..<n]"
    using assms(2) by (intro takeWhile_append2) auto
  ultimately show ?thesis by simp
qed

lemma trailing_zerosI:
  fixes x :: "'a::len word"
  assumes "k \<le> LENGTH('a)" "\<And>i. i < k \<Longrightarrow> \<not> bit x i" "k < LENGTH('a) \<Longrightarrow> bit x k"
  shows "trailing_zeros x = k"
  unfolding trailing_zeros_def by (rule takeWhile_upt_length) (use assms in auto)

lemma trailing_zeros_cases:
  fixes x :: "'a::len word"
  shows "trailing_zeros x \<le> LENGTH('a)"
    and "i < trailing_zeros x \<Longrightarrow> \<not> bit x i"
    and "x \<noteq> 0 \<Longrightarrow> trailing_zeros x < LENGTH('a) \<and> bit x (trailing_zeros x)"
proof -
  define k where "k = (LEAST k. k = LENGTH('a) \<or> bit x k)"
  have k: "k = LENGTH('a) \<or> bit x k"
    unfolding k_def by (rule LeastI [of _ "LENGTH('a)"]) simp
  have less: "\<not> bit x i" if "i < k" for i
    using not_less_Least [of i "\<lambda>k. k = LENGTH('a) \<or> bit x k"] that by (simp add: k_def)
  have le: "k \<le> LENGTH('a)"
    unfolding k_def by (rule Least_le) simp
  have eq: "trailing_zeros x = k"
    using le less k by (intro trailing_zerosI) auto
  show "trailing_zeros x \<le> LENGTH('a)" "i < trailing_zeros x \<Longrightarrow> \<not> bit x i"
    using le less eq by auto
  show "trailing_zeros x < LENGTH('a) \<and> bit x (trailing_zeros x)" if "x \<noteq> 0"
  proof -
    from that obtain j where "bit x j" by (auto simp: bit_eq_iff)
    with less have "k < LENGTH('a)" by (metis bit_imp_le_length le le_neq_implies_less)
    with k eq show ?thesis by auto
  qed
qed

lemma leading_zeros_highest:
  fixes x :: "'a::len word"
  assumes m: "bit x m" "\<And>i. m < i \<Longrightarrow> \<not> bit x i"
  shows "leading_zeros x = LENGTH('a) - 1 - m"
proof -
  have "m < LENGTH('a)" by (rule bit_imp_le_length [OF m(1)])
  then have "[0..<LENGTH('a)] = [0..<m] @ m # [Suc m..<LENGTH('a)]"
    by (metis upt_add_eq_append upt_conv_Cons add.left_neutral le_add_diff_inverse less_imp_le zero_le)
  then have "rev [0..<LENGTH('a)] = rev [Suc m..<LENGTH('a)] @ m # rev [0..<m]" by simp
  moreover have "takeWhile (\<lambda>i. \<not> bit x i) (rev [Suc m..<LENGTH('a)] @ m # rev [0..<m])
      = rev [Suc m..<LENGTH('a)]"
    using m by (subst takeWhile_append2) auto
  ultimately show ?thesis unfolding leading_zeros_def by simp
qed

lemma highest_bit:
  fixes x :: "'a::len word"
  assumes "x \<noteq> 0"
  obtains m where "bit x m" "\<And>i. m < i \<Longrightarrow> \<not> bit x i" "m < LENGTH('a)"
proof -
  have fin: "finite {i. bit x i}" by (rule finite_subset [of _ "{..<LENGTH('a)}"]) (auto dest: bit_imp_le_length)
  have ne: "{i. bit x i} \<noteq> {}" using assms by (auto simp: bit_eq_iff)
  let ?m = "Max {i. bit x i}"
  have "bit x ?m" using Max_in [OF fin ne] by simp
  moreover have "\<not> bit x i" if "?m < i" for i
  proof
    assume "bit x i"
    with Max_ge [OF fin, of i] have "i \<le> ?m" by simp
    with that show False by simp
  qed
  ultimately show ?thesis using that bit_imp_le_length by blast
qed

section \<open>Packed pairs of 32-bit words\<close>

text \<open>
  Task ids and handles are one \<open>u64\<close> each: the upper half is a generation, the lower half an
  index. \<open>((generation as u64) << 32) | (index as u64)\<close>, \<open>(raw & 0xFFFF_FFFF)\<close> and
  \<open>(raw >> 32) as u32\<close> are shared by the two.
\<close>

definition pack32 :: "u32 \<Rightarrow> u64 \<Rightarrow> u64" where
  "pack32 g i = push_bit 32 (ucast g) OR i"

definition low32 :: "u64 \<Rightarrow> u64" where
  "low32 x = x AND 0xFFFFFFFF"

definition high32 :: "u64 \<Rightarrow> u32" where
  "high32 x = ucast (drop_bit 32 x)"

lemma mask32_eq: "(0xFFFFFFFF :: u64) = mask 32"
  by (simp add: mask_eq_exp_minus_1)

lemma low32_pack32: "low32 (pack32 g (ucast (i :: u32))) = ucast i"
  unfolding low32_def pack32_def mask32_eq
  by (rule bit_word_eqI) (auto simp: bit_simps dest: bit_imp_le_length)

lemma high32_pack32: "high32 (pack32 g (ucast (i :: u32))) = g"
  unfolding high32_def pack32_def
  by (rule bit_word_eqI) (auto simp: bit_simps dest: bit_imp_le_length)

lemma pack32_high_low: "pack32 (high32 x) (low32 x) = x"
  unfolding high32_def low32_def pack32_def mask32_eq
  by (rule bit_word_eqI) (auto simp: bit_simps)

lemma unat_low32: "unat (low32 x) < 2 ^ 32"
proof -
  have "unat (low32 x) = take_bit 32 (unat x)"
    by (simp add: low32_def mask32_eq flip: take_bit_eq_mask) (rule unsigned_take_bit_eq)
  then show ?thesis
    by (metis take_bit_nat_less_exp)
qed

text \<open>A \<open>usize\<close> index below \<open>2 ^ 32\<close> is the zero extension of a \<open>u32\<close>.\<close>

lemma of_nat_eq_ucast32: "i < 2 ^ 32 \<Longrightarrow> (of_nat i :: u64) = ucast (of_nat i :: u32)"
  by (rule word_unat_eq_iff [THEN iffD2]) (simp add: unsigned_ucast_eq unat_of_nat take_bit_eq_mod)

lemma low32_pack32_nat:
  "i < 2 ^ 32 \<Longrightarrow> unat (low32 (pack32 g (of_nat i))) = i"
  by (simp add: of_nat_eq_ucast32 low32_pack32 unsigned_ucast_eq unat_of_nat take_bit_eq_mod)

lemma high32_pack32_nat: "i < 2 ^ 32 \<Longrightarrow> high32 (pack32 g (of_nat i)) = g"
  by (simp add: of_nat_eq_ucast32 high32_pack32)

section \<open>Lists\<close>

definition hd_opt :: "'a list \<Rightarrow> 'a option" where
  "hd_opt xs = (case xs of [] \<Rightarrow> None | x # _ \<Rightarrow> Some x)"

definition last_opt :: "'a list \<Rightarrow> 'a option" where
  "last_opt xs = (if xs = [] then None else Some (last xs))"

lemma hd_opt_simps [simp]:
  "hd_opt [] = None" "hd_opt (x # xs) = Some x" "hd_opt xs = None \<longleftrightarrow> xs = []"
  by (simp_all add: hd_opt_def split: list.split)

lemma last_opt_simps [simp]:
  "last_opt [] = None" "last_opt [x] = Some x" "last_opt (xs @ [x]) = Some x" "last_opt xs = None \<longleftrightarrow> xs = []"
  by (simp_all add: last_opt_def)

lemma hd_opt_Some: "hd_opt xs = Some x \<Longrightarrow> xs = x # tl xs"
  by (cases xs) auto

lemma last_opt_append: "last_opt (xs @ ys) = (if ys = [] then last_opt xs else last_opt ys)"
  by (simp add: last_opt_def)

lemma last_opt_Cons: "last_opt (x # xs) = (if xs = [] then Some x else last_opt xs)"
  by (simp add: last_opt_def)

lemma hd_opt_append: "hd_opt (xs @ ys) = (if xs = [] then hd_opt ys else hd_opt xs)"
  by (cases xs) auto

section \<open>Slots of ring buffers\<close>

text \<open>Positions less than a capacity apart have different slots.\<close>

lemma mod_neq_window: "i \<noteq> j \<Longrightarrow> i < j + c \<Longrightarrow> j < i + c \<Longrightarrow> (i :: nat) mod c \<noteq> j mod c"
proof (induction i j rule: linorder_wlog)
  case (le i j)
  show ?case
  proof
    assume "i mod c = j mod c"
    with le(1) have "c dvd j - i" by (metis mod_eq_dvd_iff_nat)
    with le show False by (auto dest!: dvd_imp_le)
  qed
qed metis

end
