(* ===== verification/Interfaces.thy ===== *)
theory Interfaces
  imports Prelude
begin

text \<open>
  The contracts between the components, as locales. Each locale fixes the operations a client
  calls and the abstraction the provider keeps, assumes the laws the provider promises, and
  proves once what every client needs. The theory of the providing component interprets it on
  the model's own definitions.
\<close>

section \<open>Generational identifiers\<close>

text \<open>
  A value made of an index and a generation: it can be taken apart again, so two of them are
  equal only when both halves are, and a slot that is reused under another generation has
  another identifier. Provided by task ids and by handles.
\<close>

locale generational_id =
  fixes mk :: "u32 \<Rightarrow> u32 \<Rightarrow> 'id"
    and index_of :: "'id \<Rightarrow> u32"
    and generation_of :: "'id \<Rightarrow> u32"
  assumes index_mk: "index_of (mk i g) = i"
    and generation_mk: "generation_of (mk i g) = g"
    and mk_split: "mk (index_of x) (generation_of x) = x"
begin

lemma mk_eq_iff: "mk i g = mk j h \<longleftrightarrow> i = j \<and> g = h"
  by (metis index_mk generation_mk)

lemma id_eqI: "index_of x = index_of y \<Longrightarrow> generation_of x = generation_of y \<Longrightarrow> x = y"
  by (metis mk_split)

lemma reuse_is_fresh:
  assumes "0 < k" "k < 2 ^ 32"
  shows "mk i (g + of_nat k) \<noteq> mk i g"
proof -
  have "(of_nat k :: u32) \<noteq> 0"
    using assms by (simp add: word_of_nat_eq_0_iff nat_dvd_not_less)
  then show ?thesis by (simp add: mk_eq_iff)
qed

end

section \<open>Reference counts\<close>

text \<open>
  A shared object with a count of its holders. \<open>cnt\<close> is the number of references the counter
  stands for (0 once the object is gone); \<open>inc\<close> takes one more, \<open>dec\<close> gives one back and says
  whether it was the last. Provided by object headers and by the boxes of the oneshot channel.
\<close>

text \<open>
  A history of clones (\<open>True\<close>) and drops (\<open>False\<close>), and the number of times it reported the
  last reference gone.
\<close>

fun rc_history ::
  "('s \<Rightarrow> 's option) \<Rightarrow> ('s \<Rightarrow> (bool \<times> 's) option) \<Rightarrow> bool list \<Rightarrow> 's \<Rightarrow> (nat \<times> 's) option"
where
  "rc_history inc dec [] s = Some (0, s)"
| "rc_history inc dec (True # es) s = do { s' \<leftarrow> inc s; rc_history inc dec es s' }"
| "rc_history inc dec (False # es) s =
     do { (final, s') \<leftarrow> dec s; (n, s'') \<leftarrow> rc_history inc dec es s';
          Some (of_bool final + n, s'') }"

locale ref_counted =
  fixes cnt :: "'s \<Rightarrow> nat"
    and inc :: "'s \<Rightarrow> 's option"
    and dec :: "'s \<Rightarrow> (bool \<times> 's) option"
  assumes inc_cnt: "inc s = Some s' \<Longrightarrow> 0 < cnt s \<and> cnt s' = Suc (cnt s)"
    and dec_cnt: "dec s = Some (final, s') \<Longrightarrow> cnt s = Suc (cnt s') \<and> (final \<longleftrightarrow> cnt s' = 0)"
begin

lemma rc_history_dead: "rc_history inc dec es s = Some (n, s') \<Longrightarrow> cnt s = 0 \<Longrightarrow> es = [] \<and> n = 0"
  by (cases es; cases "hd es")
    (auto simp: bind_eq_Some_conv dest: inc_cnt dec_cnt)

lemma rc_history_balance:
  assumes "rc_history inc dec es s = Some (n, s')" "0 < cnt s"
  shows "int (cnt s') = int (cnt s) + int (count_list es True) - int (count_list es False)
    \<and> n = of_bool (cnt s' = 0)"
  using assms
proof (induction es arbitrary: s n)
  case Nil
  then show ?case by simp
next
  case (Cons e es)
  show ?case
  proof (cases e)
    case True
    with Cons.prems obtain s1 where i: "inc s = Some s1" and h: "rc_history inc dec es s1 = Some (n, s')"
      by (auto simp: bind_eq_Some_conv)
    from inc_cnt [OF i] Cons.IH [OF h] True show ?thesis by simp
  next
    case False
    with Cons.prems obtain final s1 m where d: "dec s = Some (final, s1)"
      and h: "rc_history inc dec es s1 = Some (m, s')" and n: "n = of_bool final + m"
      by (auto simp: bind_eq_Some_conv split: prod.splits)
    show ?thesis
      using dec_cnt [OF d] rc_history_dead [OF h] Cons.IH [OF h] False n h
      by (cases "cnt s1 = 0") auto
  qed
qed

end

section \<open>Runs of operations\<close>

text \<open>A sequence of operations on a shared state, with their results; a panic ends the run.\<close>

fun run_ops :: "('op \<Rightarrow> 's \<Rightarrow> ('r \<times> 's) option) \<Rightarrow> 'op list \<Rightarrow> 's \<Rightarrow> ('r list \<times> 's) option" where
  "run_ops step [] s = Some ([], s)"
| "run_ops step (x # xs) s =
     do { (r, s') \<leftarrow> step x s; (rs, s'') \<leftarrow> run_ops step xs s'; Some (r # rs, s'') }"

lemma run_ops_Cons_Some:
  "run_ops step (x # xs) s = Some (rs, s'') \<longleftrightarrow>
     (\<exists>r s' rs'. step x s = Some (r, s') \<and> run_ops step xs s' = Some (rs', s'') \<and> rs = r # rs')"
  by (auto simp: bind_eq_Some_conv split: prod.splits)

lemma run_ops_snoc:
  "run_ops step xs s = Some (rs, s1) \<Longrightarrow> step x s1 = Some (r, s2) \<Longrightarrow>
    run_ops step (xs @ [x]) s = Some (rs @ [r], s2)"
  by (induction xs arbitrary: s rs) (auto simp: bind_eq_Some_conv split: prod.splits)

lemma run_ops_appendD:
  "run_ops step (xs @ ys) s = Some (rs, s') \<Longrightarrow> run_ops step xs s = Some (rs1, s1) \<Longrightarrow>
    \<exists>rs2. run_ops step ys s1 = Some (rs2, s')"
  by (induction xs arbitrary: s rs rs1) (auto simp: run_ops_Cons_Some simp del: run_ops.simps(2))

lemma run_ops_length: "run_ops step xs s = Some (rs, s') \<Longrightarrow> length rs = length xs"
  by (induction xs arbitrary: s rs) (auto simp: run_ops_Cons_Some simp del: run_ops.simps(2))

text \<open>
  An operation that never panics and keeps an invariant does so over any run; and an operation
  that simulates a specification step by step does so over any run, with the same results.
\<close>

lemma run_ops_invariant:
  assumes "I s" "\<And>x s. I s \<Longrightarrow> \<exists>r s'. step x s = Some (r, s') \<and> I s'"
  shows "\<exists>rs s'. run_ops step xs s = Some (rs, s') \<and> I s'"
  using assms(1)
proof (induction xs arbitrary: s)
  case (Cons x xs)
  from assms(2) [OF Cons.prems] obtain r s1 where s1: "step x s = Some (r, s1)" "I s1" by blast
  from Cons.IH [OF s1(2)] s1(1) show ?case by fastforce
qed simp

fun run_specs :: "('op \<Rightarrow> 'a \<Rightarrow> 'r \<times> 'a) \<Rightarrow> 'op list \<Rightarrow> 'a \<Rightarrow> 'r list \<times> 'a" where
  "run_specs spec [] a = ([], a)"
| "run_specs spec (x # xs) a =
     (let (r, a') = spec x a; (rs, a'') = run_specs spec xs a' in (r # rs, a''))"

lemma run_ops_simulates:
  assumes "rel s a"
    "\<And>x s a. rel s a \<Longrightarrow> \<exists>s'. step x s = Some (fst (spec x a), s') \<and> rel s' (snd (spec x a))"
  shows "\<exists>s'. run_ops step xs s = Some (fst (run_specs spec xs a), s') \<and> rel s' (snd (run_specs spec xs a))"
  using assms(1)
proof (induction xs arbitrary: s a)
  case (Cons x xs)
  from assms(2) [OF Cons.prems] obtain s1 where
    s1: "step x s = Some (fst (spec x a), s1)" "rel s1 (snd (spec x a))" by blast
  from Cons.IH [OF s1(2)] s1(1) show ?case by (auto simp: Let_def split: prod.splits)
qed simp

text \<open>The same for a specification that says nothing outside its contract.\<close>

lemma run_ops_refines:
  assumes "run_ops spec xs a = Some (rs, a')" "rel s a"
    "\<And>x s a r a'. rel s a \<Longrightarrow> spec x a = Some (r, a') \<Longrightarrow> \<exists>s'. step x s = Some (r, s') \<and> rel s' a'"
  shows "\<exists>s'. run_ops step xs s = Some (rs, s') \<and> rel s' a'"
  using assms(1,2)
proof (induction xs arbitrary: s a rs)
  case (Cons x xs)
  from Cons.prems(1) obtain r a1 rs1 where x: "spec x a = Some (r, a1)"
    "run_ops spec xs a1 = Some (rs1, a')" "rs = r # rs1" by (auto simp only: run_ops_Cons_Some)
  from assms(3) [OF Cons.prems(2) x(1)] obtain s1 where s1: "step x s = Some (r, s1)" "rel s1 a1" by blast
  from Cons.IH [OF x(2) s1(2)] s1(1) x(3) show ?case by auto
qed auto

section \<open>Interleavings\<close>

text \<open>
  Parties that share a state and take their accesses to it in any order, as a list of events; a
  panic or an undefined access of one of them ends the run. \<open>used s\<close> is what has been used up of a
  counter that must not wrap.
\<close>

fun event_run :: "('e \<Rightarrow> 's \<Rightarrow> 's option) \<Rightarrow> 'e list \<Rightarrow> 's \<Rightarrow> 's option" where
  "event_run step [] s = Some s"
| "event_run step (e # es) s = do { s' \<leftarrow> step e s; event_run step es s' }"

lemma event_run_append:
  "event_run step (xs @ ys) s = do { s' \<leftarrow> event_run step xs s; event_run step ys s' }"
  by (induction xs arbitrary: s) (auto split: bind_split)

locale event_system =
  fixes step :: "'e \<Rightarrow> 's \<Rightarrow> 's option"
    and inv :: "'s \<Rightarrow> bool"
    and used :: "'s \<Rightarrow> nat"
    and limit :: nat
  assumes step_inv: "inv s \<Longrightarrow> used s < limit \<Longrightarrow> \<exists>s'. step e s = Some s' \<and> inv s' \<and> used s' \<le> Suc (used s)"
begin

text \<open>No interleaving panics before the counter is used up, and each of them keeps the invariant.\<close>

lemma run_inv:
  "inv s \<Longrightarrow> used s + length es \<le> limit \<Longrightarrow> \<exists>s'. event_run step es s = Some s' \<and> inv s'"
proof (induction es arbitrary: s)
  case (Cons e es)
  then have "used s < limit" by simp
  from step_inv [OF Cons.prems(1) this, of e] obtain s1 where
    s1: "step e s = Some s1" "inv s1" "used s1 \<le> Suc (used s)" by blast
  with Cons.prems(2) Cons.IH [of s1] show ?case by simp
qed simp

end

text \<open>Where nothing is used up there is no bound on the length of the run.\<close>

locale unbounded_events =
  fixes step :: "'e \<Rightarrow> 's \<Rightarrow> 's option"
    and inv :: "'s \<Rightarrow> bool"
  assumes keeps: "inv s \<Longrightarrow> \<exists>s'. step e s = Some s' \<and> inv s'"
begin

lemma run_keeps: "inv s \<Longrightarrow> \<exists>s'. event_run step es s = Some s' \<and> inv s'"
proof (induction es arbitrary: s)
  case (Cons e es)
  from keeps [OF Cons.prems, of e] obtain s1 where "step e s = Some s1" "inv s1" by blast
  with Cons.IH show ?case by simp
qed simp

end

sublocale unbounded_events \<subseteq> event_system step inv "\<lambda>_. 0" limit
  by unfold_locales (simp add: keeps)

text \<open>
  Authority: the holders' capabilities are pairs of an object and an amount of authority, some
  operations grant one. Whoever keeps the contract that a step adds nothing that was not held
  or granted before never amplifies authority, over any run.
\<close>

locale authority =
  fixes step :: "'op \<Rightarrow> 's \<Rightarrow> ('r \<times> 's) option"
    and held :: "'s \<Rightarrow> ('o \<times> 'a::order) set"
    and granted :: "'op \<Rightarrow> ('o \<times> 'a) set"
  assumes step_lossy: "step x s = Some (r, s') \<Longrightarrow> (k, a) \<in> held s' \<Longrightarrow>
    \<exists>b. (k, b) \<in> held s \<union> granted x \<and> a \<le> b"
begin

lemma run_lossy:
  "run_ops step xs s = Some (rs, s') \<Longrightarrow> (k, a) \<in> held s' \<Longrightarrow>
    \<exists>b. (k, b) \<in> held s \<union> \<Union> (granted ` set xs) \<and> a \<le> b"
proof (induction xs arbitrary: s rs)
  case Nil
  then show ?case by auto
next
  case (Cons x xs)
  from Cons.prems(1) obtain r s1 rs1 where x: "step x s = Some (r, s1)"
    and xs: "run_ops step xs s1 = Some (rs1, s')"
    by (auto simp only: run_ops_Cons_Some)
  from Cons.IH [OF xs Cons.prems(2)] obtain b
    where b: "(k, b) \<in> held s1 \<union> \<Union> (granted ` set xs)" "a \<le> b" by blast
  show ?case
  proof (cases "(k, b) \<in> held s1")
    case True
    from step_lossy [OF x True] obtain c where "(k, c) \<in> held s \<union> granted x" "b \<le> c" by blast
    with b(2) show ?thesis by (auto intro: order_trans)
  next
    case False
    with b show ?thesis by auto
  qed
qed

end

section \<open>Bounded FIFO buffers\<close>

text \<open>
  A bounded buffer: \<open>put\<close> says whether it accepted the value, \<open>get\<close> returns one if there is one.
  The provider promises that they act on the queue of buffered values \<open>buffered s\<close>, under its
  invariant. Provided by the ring of the IPC channels and by the async channel.
\<close>

datatype 'a fifo_op = Put 'a | Get

datatype 'a fifo_res = Accepted bool | Got "'a option"

fun fifo_step ::
  "('a \<Rightarrow> 's \<Rightarrow> (bool \<times> 's) option) \<Rightarrow> ('s \<Rightarrow> ('a option \<times> 's) option) \<Rightarrow>
    'a fifo_op \<Rightarrow> 's \<Rightarrow> ('a fifo_res \<times> 's) option"
where
  "fifo_step put get (Put x) s = map_option (map_prod Accepted id) (put x s)"
| "fifo_step put get Get s = map_option (map_prod Got id) (get s)"

text \<open>The values a run put in, and those it got out.\<close>

fun fifo_in :: "'a fifo_op list \<Rightarrow> 'a fifo_res list \<Rightarrow> 'a list" where
  "fifo_in (Put x # xs) (Accepted True # rs) = x # fifo_in xs rs"
| "fifo_in (_ # xs) (_ # rs) = fifo_in xs rs"
| "fifo_in _ _ = []"

fun fifo_out :: "'a fifo_res list \<Rightarrow> 'a list" where
  "fifo_out (Got (Some x) # rs) = x # fifo_out rs"
| "fifo_out (_ # rs) = fifo_out rs"
| "fifo_out [] = []"

locale bounded_fifo =
  fixes inv :: "'s \<Rightarrow> bool"
    and buffered :: "'s \<Rightarrow> 'a list"
    and room :: "'s \<Rightarrow> nat"
    and put :: "'a \<Rightarrow> 's \<Rightarrow> (bool \<times> 's) option"
    and get :: "'s \<Rightarrow> ('a option \<times> 's) option"
  assumes bounded: "inv s \<Longrightarrow> length (buffered s) \<le> room s"
    and put_law: "inv s \<Longrightarrow> put x s = Some (b, s') \<Longrightarrow>
      inv s' \<and> room s' = room s \<and> b = (length (buffered s) < room s)
      \<and> buffered s' = (if b then buffered s @ [x] else buffered s)"
    and get_law: "inv s \<Longrightarrow> get s = Some (r, s') \<Longrightarrow>
      inv s' \<and> room s' = room s \<and> r = hd_opt (buffered s) \<and> buffered s' = tl (buffered s)"
begin

text \<open>Over any run: what was buffered and went in is what came out and is still buffered.\<close>

lemma fifo_history:
  "run_ops (fifo_step put get) xs s = Some (rs, s') \<Longrightarrow> inv s \<Longrightarrow>
    buffered s @ fifo_in xs rs = fifo_out rs @ buffered s' \<and> inv s' \<and> room s' = room s"
proof (induction xs arbitrary: s rs)
  case Nil
  then show ?case by auto
next
  case (Cons x xs)
  from Cons.prems(1) obtain r s1 rs1 where x: "fifo_step put get x s = Some (r, s1)"
    and xs: "run_ops (fifo_step put get) xs s1 = Some (rs1, s')" and rs: "rs = r # rs1"
    by (auto simp only: run_ops_Cons_Some)
  show ?case
  proof (cases x)
    case (Put v)
    with x obtain b where "put v s = Some (b, s1)" "r = Accepted b" by auto
    with put_law [OF Cons.prems(2), of v b s1] Cons.IH [OF xs] Put rs show ?thesis
      by (cases b) auto
  next
    case Get
    with x obtain y where "get s = Some (y, s1)" "r = Got y" by auto
    with get_law [OF Cons.prems(2), of y s1] Cons.IH [OF xs] Get rs show ?thesis
      by (cases "buffered s") auto
  qed
qed

lemma fifo_bounded:
  "run_ops (fifo_step put get) xs s = Some (rs, s') \<Longrightarrow> inv s \<Longrightarrow>
    length (buffered s @ fifo_in xs rs) \<le> length (fifo_out rs) + room s"
  using fifo_history [of xs s rs s'] bounded [of s'] by (metis add_le_cancel_left length_append)

end

section \<open>Queues of waiters\<close>

text \<open>
  A queue that wakes the first of its waiters at a time: \<open>holds s xs\<close> says that \<open>xs\<close> are waiting
  in this order, \<open>notify s x\<close> is what waking \<open>x\<close> does. Provided by the wait queue.
\<close>

text \<open>\<open>while woken < count { if !wake_one() { break; } woken += 1; }\<close>\<close>

fun wake_upto :: "('s \<Rightarrow> (bool \<times> 'e list) \<times> 's) \<Rightarrow> nat \<Rightarrow> 's \<Rightarrow> (nat \<times> 'e list) \<times> 's" where
  "wake_upto wake 0 s = ((0, []), s)"
| "wake_upto wake (Suc k) s =
     (let ((more, es), s') = wake s in
      if \<not> more then ((0, es), s')
      else (let ((n, es'), s'') = wake_upto wake k s' in ((Suc n, es @ es'), s'')))"

locale waiter_queue =
  fixes holds :: "'s \<Rightarrow> 'n list \<Rightarrow> bool"
    and notify :: "'s \<Rightarrow> 'n \<Rightarrow> 'e"
    and wake :: "'s \<Rightarrow> (bool \<times> 'e list) \<times> 's"
  assumes wake_none: "holds s [] \<Longrightarrow> wake s = ((False, []), s)"
    and wake_first: "holds s (x # xs) \<Longrightarrow> \<exists>s'. wake s = ((True, [notify s x]), s') \<and> holds s' xs
      \<and> (\<forall>y \<in> set xs. notify s' y = notify s y)"
begin

text \<open>Waking up to \<open>k\<close> wakes the first \<open>k\<close> waiters, in order, and leaves the others.\<close>

lemma wake_upto_prefix:
  "holds s xs \<Longrightarrow> \<exists>s'. wake_upto wake k s = ((min k (length xs), map (notify s) (take k xs)), s')
    \<and> holds s' (drop k xs)"
proof (induction k arbitrary: s xs)
  case 0
  then show ?case by simp
next
  case (Suc k)
  show ?case
  proof (cases xs)
    case Nil
    with Suc.prems wake_none show ?thesis by auto
  next
    case (Cons x ys)
    with wake_first [of s x ys] Suc.prems obtain s1 where
      s1: "wake s = ((True, [notify s x]), s1)" "holds s1 ys"
      "\<forall>y \<in> set ys. notify s1 y = notify s y" by blast
    from Suc.IH [OF s1(2)] obtain s2 where
      "wake_upto wake k s1 = ((min k (length ys), map (notify s1) (take k ys)), s2)"
      "holds s2 (drop k ys)" by blast
    moreover have "map (notify s1) (take k ys) = map (notify s) (take k ys)"
      using s1(3) by (auto dest: in_set_takeD)
    ultimately show ?thesis using s1(1) Cons by simp
  qed
qed

end

section \<open>Work-stealing deques\<close>

text \<open>
  A stack for its owner, whose oldest elements others take in batches: \<open>steal n\<close> takes the first
  \<open>batch n\<close> of them. \<open>room\<close> is how many more pushes the counters allow. Provided by the deque of
  the executor.
\<close>

fun push_each :: "('a \<Rightarrow> 'd \<Rightarrow> 'd option) \<Rightarrow> 'a list \<Rightarrow> 'd \<Rightarrow> 'd option" where
  "push_each push [] d = Some d"
| "push_each push (x # xs) d = do { d' \<leftarrow> push x d; push_each push xs d' }"

locale work_deque =
  fixes ok :: "'d \<Rightarrow> bool"
    and contents :: "'d \<Rightarrow> 'a list"
    and room :: "'d \<Rightarrow> nat"
    and batch :: "nat \<Rightarrow> nat"
    and push :: "'a \<Rightarrow> 'd \<Rightarrow> 'd option"
    and pop :: "'d \<Rightarrow> ('a option \<times> 'd) option"
    and steal :: "nat \<Rightarrow> 'd \<Rightarrow> ('a list \<times> 'd) option"
  assumes push_last: "ok d \<Longrightarrow> 0 < room d \<Longrightarrow>
      \<exists>d'. push x d = Some d' \<and> ok d' \<and> contents d' = contents d @ [x] \<and> room d = Suc (room d')"
    and pop_last: "ok d \<Longrightarrow> 0 < room d \<Longrightarrow>
      \<exists>d'. pop d = Some (last_opt (contents d), d') \<and> ok d' \<and> contents d' = butlast (contents d)
        \<and> room d \<le> room d'"
    and steal_first: "ok d \<Longrightarrow>
      \<exists>d'. steal n d = Some (take (batch n) (contents d), d') \<and> ok d'
        \<and> contents d' = drop (batch n) (contents d) \<and> room d' = room d"
begin

lemma push_each_last:
  "ok d \<Longrightarrow> length xs \<le> room d \<Longrightarrow>
    \<exists>d'. push_each push xs d = Some d' \<and> ok d' \<and> contents d' = contents d @ xs
      \<and> room d = room d' + length xs"
proof (induction xs arbitrary: d)
  case (Cons x xs)
  then have "0 < room d" by simp
  from push_last [OF Cons.prems(1) this] obtain d1 where
    d1: "push x d = Some d1" "ok d1" "contents d1 = contents d @ [x]" "room d = Suc (room d1)" by blast
  with Cons.IH [of d1] Cons.prems(2) show ?case by fastforce
qed simp

text \<open>What the owner pushed last it gets back first.\<close>

lemma push_pop:
  assumes "ok d" "1 < room d"
  shows "\<exists>d1 d2. push x d = Some d1 \<and> pop d1 = Some (Some x, d2) \<and> ok d2 \<and> contents d2 = contents d"
proof -
  from push_last [of d x] assms obtain d1 where
    d1: "push x d = Some d1" "ok d1" "contents d1 = contents d @ [x]" "0 < room d1" by fastforce
  with pop_last [of d1] show ?thesis by (auto simp: last_opt_def)
qed

text \<open>A batch that one deque loses and another one gets: nothing is lost, the order is kept.\<close>

lemma steal_moves:
  assumes "ok v" "ok w" "batch n \<le> room w"
  shows "\<exists>xs v' w'. steal n v = Some (xs, v') \<and> push_each push xs w = Some w' \<and> ok v' \<and> ok w'
    \<and> contents w' = contents w @ xs \<and> xs @ contents v' = contents v
    \<and> room v' = room v \<and> room w \<le> room w' + batch n"
proof -
  from steal_first [OF assms(1)] obtain v' where
    v: "steal n v = Some (take (batch n) (contents v), v')" "ok v'"
    "contents v' = drop (batch n) (contents v)" "room v' = room v" by blast
  have "length (take (batch n) (contents v)) \<le> room w" using assms(3) by simp
  from push_each_last [OF assms(2) this] v show ?thesis by fastforce
qed

end

end
