(* ===== verification/Rights.thy ===== *)
theory Rights
  imports Prelude
begin

text \<open>
  Capability rights, \<open>src/object/rights.rs\<close>: a newtype over a \<open>u32\<close> bit set with the
  intersection, union, difference and downgrade operations and the textual form. The lattice
  instance states what the operations mean: containment is the order, \<open>intersection\<close> its
  infimum, \<open>union\<close> its supremum.
\<close>

datatype rights = Rights (rights_raw: u32)

section \<open>Operations\<close>

definition Rights_READ :: rights where "Rights_READ = Rights (push_bit 0 1)"
definition Rights_WRITE :: rights where "Rights_WRITE = Rights (push_bit 1 1)"
definition Rights_MAP :: rights where "Rights_MAP = Rights (push_bit 2 1)"
definition Rights_EXECUTE :: rights where "Rights_EXECUTE = Rights (push_bit 3 1)"
definition Rights_DUPLICATE :: rights where "Rights_DUPLICATE = Rights (push_bit 4 1)"
definition Rights_TRANSFER :: rights where "Rights_TRANSFER = Rights (push_bit 5 1)"
definition Rights_DESTROY :: rights where "Rights_DESTROY = Rights (push_bit 6 1)"
definition Rights_INSPECT :: rights where "Rights_INSPECT = Rights (push_bit 7 1)"
definition Rights_SIGNAL :: rights where "Rights_SIGNAL = Rights (push_bit 8 1)"
definition Rights_SIGNAL_PEER :: rights where "Rights_SIGNAL_PEER = Rights (push_bit 9 1)"
definition Rights_ENUMERATE :: rights where "Rights_ENUMERATE = Rights (push_bit 10 1)"
definition Rights_MODIFY :: rights where "Rights_MODIFY = Rights (push_bit 11 1)"
definition Rights_SUSPEND :: rights where "Rights_SUSPEND = Rights (push_bit 12 1)"
definition Rights_WAIT :: rights where "Rights_WAIT = Rights (push_bit 13 1)"
definition Rights_ALL :: rights where "Rights_ALL = Rights (push_bit 14 1 - 1)"

lemmas Rights_consts =
  Rights_READ_def Rights_WRITE_def Rights_MAP_def Rights_EXECUTE_def Rights_DUPLICATE_def
  Rights_TRANSFER_def Rights_DESTROY_def Rights_INSPECT_def Rights_SIGNAL_def
  Rights_SIGNAL_PEER_def Rights_ENUMERATE_def Rights_MODIFY_def Rights_SUSPEND_def
  Rights_WAIT_def Rights_ALL_def

definition Rights_from_bits :: "u32 \<Rightarrow> rights" where
  "Rights_from_bits b = Rights b"

definition Rights_bits :: "rights \<Rightarrow> u32" where
  "Rights_bits r = rights_raw r"

definition Rights_contains :: "rights \<Rightarrow> rights \<Rightarrow> bool" where
  "Rights_contains r other \<longleftrightarrow> rights_raw r AND rights_raw other = rights_raw other"

definition Rights_intersects :: "rights \<Rightarrow> rights \<Rightarrow> bool" where
  "Rights_intersects r other \<longleftrightarrow> rights_raw r AND rights_raw other \<noteq> 0"

definition Rights_intersection :: "rights \<Rightarrow> rights \<Rightarrow> rights" where
  "Rights_intersection r other = Rights (rights_raw r AND rights_raw other)"

definition Rights_union :: "rights \<Rightarrow> rights \<Rightarrow> rights" where
  "Rights_union r other = Rights (rights_raw r OR rights_raw other)"

definition Rights_difference :: "rights \<Rightarrow> rights \<Rightarrow> rights" where
  "Rights_difference r other = Rights (rights_raw r AND NOT (rights_raw other))"

definition Rights_downgrade :: "rights \<Rightarrow> rights \<Rightarrow> rights" where
  "Rights_downgrade r allowed = Rights_intersection r allowed"

definition Rights_is_empty :: "rights \<Rightarrow> bool" where
  "Rights_is_empty r \<longleftrightarrow> rights_raw r = 0"

text \<open>The operator traits: \<open>|\<close>, \<open>&\<close> and \<open>|=\<close> (which returns the updated left operand).\<close>

definition Rights_bitor :: "rights \<Rightarrow> rights \<Rightarrow> rights" where
  "Rights_bitor r rhs = Rights (rights_raw r OR rights_raw rhs)"

definition Rights_bitand :: "rights \<Rightarrow> rights \<Rightarrow> rights" where
  "Rights_bitand r rhs = Rights (rights_raw r AND rights_raw rhs)"

definition Rights_bitor_assign :: "rights \<Rightarrow> rights \<Rightarrow> rights" where
  "Rights_bitor_assign r rhs = Rights (rights_raw r OR rights_raw rhs)"

section \<open>Textual form\<close>

text \<open>The invocations of the \<open>flag!\<close> macro, in order.\<close>

definition Rights_flags :: "(string \<times> rights) list" where
  "Rights_flags =
    [(''READ'', Rights_READ), (''WRITE'', Rights_WRITE), (''MAP'', Rights_MAP),
     (''EXECUTE'', Rights_EXECUTE), (''DUPLICATE'', Rights_DUPLICATE),
     (''TRANSFER'', Rights_TRANSFER), (''DESTROY'', Rights_DESTROY),
     (''INSPECT'', Rights_INSPECT), (''SIGNAL'', Rights_SIGNAL),
     (''SIGNAL_PEER'', Rights_SIGNAL_PEER), (''ENUMERATE'', Rights_ENUMERATE),
     (''MODIFY'', Rights_MODIFY), (''SUSPEND'', Rights_SUSPEND), (''WAIT'', Rights_WAIT)]"

text \<open>The macro body, run for each flag: the state is the flag \<open>first\<close> and the text so far.\<close>

fun Rights_fmt_flags :: "rights \<Rightarrow> (string \<times> rights) list \<Rightarrow> bool \<times> string \<Rightarrow> bool \<times> string" where
  "Rights_fmt_flags r [] st = st"
| "Rights_fmt_flags r ((name, val) # fs) (first, out) =
     (if Rights_contains r val
      then Rights_fmt_flags r fs (False, (if first then out else out @ '' | '') @ name)
      else Rights_fmt_flags r fs (first, out))"

definition Rights_fmt :: "rights \<Rightarrow> string" where
  "Rights_fmt r =
     (let (first, out) = Rights_fmt_flags r Rights_flags (True, [])
      in if first then out @ ''(none)'' else out)"

section \<open>The lattice of rights\<close>

lemma rights_eq_iff: "r = s \<longleftrightarrow> (\<forall>n < 32. bit (rights_raw r) n = bit (rights_raw s) n)"
  by (cases r; cases s) (auto intro: bit_word_eqI)

lemma Rights_contains_iff:
  "Rights_contains r s \<longleftrightarrow> (\<forall>n < 32. bit (rights_raw s) n \<longrightarrow> bit (rights_raw r) n)"
  by (auto simp: Rights_contains_def bit_eq_iff bit_simps dest: bit_imp_le_length)

instantiation rights :: "{distrib_lattice, bounded_lattice}"
begin

definition less_eq_rights :: "rights \<Rightarrow> rights \<Rightarrow> bool" where
  "s \<le> r \<longleftrightarrow> Rights_contains r s"

definition less_rights :: "rights \<Rightarrow> rights \<Rightarrow> bool" where
  "(s :: rights) < r \<longleftrightarrow> s \<le> r \<and> \<not> r \<le> s"

definition inf_rights :: "rights \<Rightarrow> rights \<Rightarrow> rights" where
  "inf_rights = Rights_intersection"

definition sup_rights :: "rights \<Rightarrow> rights \<Rightarrow> rights" where
  "sup_rights = Rights_union"

definition bot_rights :: rights where
  "bot_rights = Rights 0"

definition top_rights :: rights where
  "top_rights = Rights (- 1)"

instance
  by standard
    (auto simp: less_eq_rights_def less_rights_def inf_rights_def sup_rights_def bot_rights_def
      top_rights_def Rights_intersection_def Rights_union_def Rights_contains_iff rights_eq_iff
      bit_simps)

end

lemma Rights_downgrade_inf [simp]: "Rights_downgrade r a = inf r a"
  by (simp add: Rights_downgrade_def inf_rights_def)

lemma Rights_contains_le: "Rights_contains r s \<longleftrightarrow> s \<le> r"
  by (simp add: less_eq_rights_def)

section \<open>Properties\<close>

text \<open>
  The textual form is the names of exactly the known rights held, in declaration order and
  joined by \<open>" | "\<close>.
\<close>

definition Rights_names :: "rights \<Rightarrow> string list" where
  "Rights_names r = map fst (filter (\<lambda>(_, f). f \<le> r) Rights_flags)"

fun join :: "string \<Rightarrow> string list \<Rightarrow> string" where
  "join sep [] = []"
| "join sep [x] = x"
| "join sep (x # y # xs) = x @ sep @ join sep (y # xs)"

lemma join_Cons: "join sep (x # xs) = x @ (if xs = [] then [] else sep @ join sep xs)"
  by (cases xs) auto

lemma Rights_fmt_flags_rest:
  "Rights_fmt_flags r fs (False, out) =
     (False, out @ concat (map (\<lambda>n. '' | '' @ n) (map fst (filter (\<lambda>(_, f). f \<le> r) fs))))"
  by (induction fs arbitrary: out) (auto simp: Rights_contains_le)

lemma join_concat: "join sep (x # xs) = x @ concat (map (\<lambda>n. sep @ n) xs)"
  by (induction xs arbitrary: x) (auto simp: join_Cons)

lemma Rights_fmt_flags_first:
  "Rights_fmt_flags r fs (True, []) =
     (filter (\<lambda>(_, f). f \<le> r) fs = [], join '' | '' (map fst (filter (\<lambda>(_, f). f \<le> r) fs)))"
  by (induction fs)
    (auto simp: Rights_contains_le Rights_fmt_flags_rest join_concat comp_def simp del: join.simps(3))

theorem Rights_fmt_names:
  "Rights_fmt r = (if Rights_names r = [] then ''(none)'' else join '' | '' (Rights_names r))"
  by (simp add: Rights_fmt_def Rights_fmt_flags_first Rights_names_def)

theorem Rights_difference_bits:
  "inf (Rights_difference r s) s = bot \<and> sup (Rights_difference r s) (inf r s) = r
   \<and> Rights_contains r (Rights_difference r s)"
  by (auto simp: Rights_difference_def inf_rights_def sup_rights_def bot_rights_def
      Rights_intersection_def Rights_union_def Rights_contains_iff rights_eq_iff bit_simps)

text \<open>The known rights are pairwise disjoint and together are \<open>ALL\<close>.\<close>

lemma Rights_flags_disjoint:
  "i < 14 \<Longrightarrow> j < 14 \<Longrightarrow> i \<noteq> j \<Longrightarrow> inf (Rights (push_bit i 1)) (Rights (push_bit j 1)) = bot"
  by (auto simp: inf_rights_def bot_rights_def Rights_intersection_def rights_eq_iff bit_simps)

lemma Rights_ALL_flags: "Rights_ALL = foldr sup (map snd Rights_flags) bot"
  by (simp add: Rights_flags_def Rights_consts sup_rights_def bot_rights_def Rights_union_def
      mask_eq_exp_minus_1 [symmetric])

end
