(* ===== verification/KernelObject.thy ===== *)
theory KernelObject
  imports Interfaces Rights
begin

text \<open>
  Kernel objects, \<open>src/object/kernel_object.rs\<close>: the header with its intrusive reference
  count and signals, and \<open>KoRef\<close>, the counted pointer that handles hold. The objects live in
  a store from addresses to headers; \<open>KoRef\<close> operations read and write it. The destruction
  callback \<open>on_destroy\<close> of an object is recorded in \<open>os_destroyed\<close> (the trait's default body
  is empty and no object of the repository overrides it). Downcasting is not modelled.
\<close>

datatype object_type_id = ObjectTypeId u32

definition TYPE_TASK :: object_type_id where "TYPE_TASK = ObjectTypeId 1"
definition TYPE_CHANNEL :: object_type_id where "TYPE_CHANNEL = ObjectTypeId 2"
definition TYPE_VMO :: object_type_id where "TYPE_VMO = ObjectTypeId 3"
definition TYPE_EVENT :: object_type_id where "TYPE_EVENT = ObjectTypeId 4"
definition TYPE_PORT :: object_type_id where "TYPE_PORT = ObjectTypeId 5"
definition TYPE_INTERRUPT :: object_type_id where "TYPE_INTERRUPT = ObjectTypeId 6"
definition TYPE_PROCESS :: object_type_id where "TYPE_PROCESS = ObjectTypeId 7"
definition TYPE_THREAD :: object_type_id where "TYPE_THREAD = ObjectTypeId 8"
definition TYPE_HANDLE_TABLE :: object_type_id where "TYPE_HANDLE_TABLE = ObjectTypeId 9"

section \<open>The object header\<close>

record object_header =
  oh_refcount :: u32
  oh_type_id :: object_type_id
  oh_max_rights :: rights
  oh_signals :: u32

definition ObjectHeader_new :: "object_type_id \<Rightarrow> rights \<Rightarrow> object_header" where
  "ObjectHeader_new type_id max_rights =
     \<lparr>oh_refcount = 1, oh_type_id = type_id, oh_max_rights = max_rights, oh_signals = 0\<rparr>"

text \<open>\<open>fetch_add\<close> and \<open>fetch_sub\<close> wrap; the debug assertions look at the old count.\<close>

definition ObjectHeader_add_ref :: "object_header \<Rightarrow> object_header option" where
  "ObjectHeader_add_ref h =
     (let old = oh_refcount h; h' = h\<lparr>oh_refcount := old + 1\<rparr> in
      do { assert_that (old > 0);
           assert_that (old < - 1 - 1);
           Some h' })"

definition ObjectHeader_release :: "object_header \<Rightarrow> (u32 \<times> object_header) option" where
  "ObjectHeader_release h =
     (let old = oh_refcount h; h' = h\<lparr>oh_refcount := old - 1\<rparr> in
      do { assert_that (old > 0);
           Some (old, h') })"

definition ObjectHeader_refcount :: "object_header \<Rightarrow> u32" where
  "ObjectHeader_refcount h = oh_refcount h"

definition ObjectHeader_type_id :: "object_header \<Rightarrow> object_type_id" where
  "ObjectHeader_type_id h = oh_type_id h"

definition ObjectHeader_max_rights :: "object_header \<Rightarrow> rights" where
  "ObjectHeader_max_rights h = oh_max_rights h"

definition ObjectHeader_set_signal :: "u32 \<Rightarrow> object_header \<Rightarrow> object_header" where
  "ObjectHeader_set_signal signal h = h\<lparr>oh_signals := oh_signals h OR signal\<rparr>"

definition ObjectHeader_clear_signal :: "u32 \<Rightarrow> object_header \<Rightarrow> object_header" where
  "ObjectHeader_clear_signal signal h = h\<lparr>oh_signals := oh_signals h AND NOT signal\<rparr>"

definition ObjectHeader_signals :: "object_header \<Rightarrow> u32" where
  "ObjectHeader_signals h = oh_signals h"

section \<open>Counted pointers\<close>

record object_store =
  os_objs :: "addr \<Rightarrow> object_header"
  os_destroyed :: "addr list" \<comment> \<open>the calls of \<open>on_destroy\<close>, oldest first\<close>

datatype ko_ref = KoRef (ko_ptr: addr)

definition KoRef_header :: "ko_ref \<Rightarrow> object_store \<Rightarrow> object_header" where
  "KoRef_header r st = os_objs st (ko_ptr r)"

definition KoRef_type_id :: "ko_ref \<Rightarrow> object_store \<Rightarrow> object_type_id" where
  "KoRef_type_id r st = ObjectHeader_type_id (KoRef_header r st)"

definition KoRef_new :: "addr \<Rightarrow> object_store \<Rightarrow> (ko_ref \<times> object_store) option" where
  "KoRef_new obj st =
     do { h \<leftarrow> ObjectHeader_add_ref (os_objs st obj);
          Some (KoRef obj, st\<lparr>os_objs := (os_objs st)(obj := h)\<rparr>) }"

definition KoRef_clone :: "ko_ref \<Rightarrow> object_store \<Rightarrow> (ko_ref \<times> object_store) option" where
  "KoRef_clone r st =
     do { h \<leftarrow> ObjectHeader_add_ref (KoRef_header r st);
          Some (KoRef (ko_ptr r), st\<lparr>os_objs := (os_objs st)(ko_ptr r := h)\<rparr>) }"

definition KoRef_drop :: "ko_ref \<Rightarrow> object_store \<Rightarrow> object_store option" where
  "KoRef_drop r st =
     do { (old, h) \<leftarrow> ObjectHeader_release (KoRef_header r st);
          let st' = st\<lparr>os_objs := (os_objs st)(ko_ptr r := h)\<rparr>;
          Some (if old = 1 then st'\<lparr>os_destroyed := os_destroyed st' @ [ko_ptr r]\<rparr> else st') }"

definition refs :: "object_store \<Rightarrow> addr \<Rightarrow> nat" where
  "refs st ob = unat (oh_refcount (os_objs st ob))"

section \<open>The header is a reference count\<close>

lemma unat_max_u32: "unat (- 1 - 1 :: u32) = 2 ^ 32 - 2"
  by simp

lemma ObjectHeader_add_ref_Some:
  "ObjectHeader_add_ref h = Some h' \<longleftrightarrow>
     0 < unat (oh_refcount h) \<and> unat (oh_refcount h) < 2 ^ 32 - 2
     \<and> h' = h\<lparr>oh_refcount := oh_refcount h + 1\<rparr>"
  by (auto simp: ObjectHeader_add_ref_def Let_def word_less_nat_alt)

lemma ObjectHeader_release_Some:
  "ObjectHeader_release h = Some (old, h') \<longleftrightarrow>
     0 < unat (oh_refcount h) \<and> old = oh_refcount h \<and> h' = h\<lparr>oh_refcount := oh_refcount h - 1\<rparr>"
  by (auto simp: ObjectHeader_release_def Let_def word_less_nat_alt)


definition KoRef_final :: "ko_ref \<Rightarrow> object_store \<Rightarrow> bool" where
  "KoRef_final r st \<longleftrightarrow> oh_refcount (KoRef_header r st) = 1"

lemma KoRef_clone_Some:
  "KoRef_clone r st = Some (r', st') \<longleftrightarrow>
     0 < refs st (ko_ptr r) \<and> refs st (ko_ptr r) < 2 ^ 32 - 2 \<and> r' = r
     \<and> st' = st\<lparr>os_objs := (os_objs st)(ko_ptr r :=
          (os_objs st (ko_ptr r))\<lparr>oh_refcount := oh_refcount (os_objs st (ko_ptr r)) + 1\<rparr>)\<rparr>"
  by (cases r) (auto simp: KoRef_clone_def KoRef_header_def refs_def ObjectHeader_add_ref_Some
      bind_eq_Some_conv)

lemma KoRef_drop_Some:
  "KoRef_drop r st = Some st' \<longleftrightarrow>
     0 < refs st (ko_ptr r)
     \<and> st' = st\<lparr>os_objs := (os_objs st)(ko_ptr r :=
          (os_objs st (ko_ptr r))\<lparr>oh_refcount := oh_refcount (os_objs st (ko_ptr r)) - 1\<rparr>),
        os_destroyed := os_destroyed st @ (if refs st (ko_ptr r) = 1 then [ko_ptr r] else [])\<rparr>"
  by (auto simp: KoRef_drop_def KoRef_header_def refs_def ObjectHeader_release_Some
      bind_eq_Some_conv unat_eq_one Let_def split: prod.splits)

lemma refs_clone:
  "KoRef_clone r st = Some (r', st') \<Longrightarrow>
     refs st' ob = refs st ob + (if ob = ko_ptr r then 1 else 0)
     \<and> os_destroyed st' = os_destroyed st \<and> 0 < refs st (ko_ptr r) \<and> r' = r"
  by (auto simp: KoRef_clone_Some refs_def unat_plus_one)

lemma refs_drop:
  "KoRef_drop r st = Some st' \<Longrightarrow>
     refs st ob = refs st' ob + (if ob = ko_ptr r then 1 else 0)
     \<and> os_destroyed st' =
         os_destroyed st @ (if refs st' (ko_ptr r) = 0 then [ko_ptr r] else [])"
  by (auto simp: KoRef_drop_Some refs_def unat_minus_one32)

definition KoRef_dec :: "ko_ref \<Rightarrow> object_store \<Rightarrow> (bool \<times> object_store) option" where
  "KoRef_dec r st =
     do { st' \<leftarrow> KoRef_drop r st;
          Some (length (os_destroyed st') = Suc (length (os_destroyed st)), st') }"

interpretation koref: ref_counted
  "\<lambda>st. refs st (ko_ptr r)" "\<lambda>st. map_option snd (KoRef_clone r st)" "KoRef_dec r"
  for r
proof unfold_locales
  fix s s'
  assume "map_option snd (KoRef_clone r s) = Some s'"
  then show "0 < refs s (ko_ptr r) \<and> refs s' (ko_ptr r) = Suc (refs s (ko_ptr r))"
    using refs_clone by fastforce
next
  fix s final s'
  assume "KoRef_dec r s = Some (final, s')"
  then show "refs s (ko_ptr r) = Suc (refs s' (ko_ptr r)) \<and> (final \<longleftrightarrow> refs s' (ko_ptr r) = 0)"
    by (auto simp: KoRef_dec_def bind_eq_Some_conv split: if_splits
        dest: refs_drop [where ob = "ko_ptr r"])
qed

section \<open>Properties\<close>

text \<open>
  C35: over any history of clones (\<open>True\<close>) and drops (\<open>False\<close>) of references to an object, the
  count is the balance and \<open>on_destroy\<close> ran once if and only if the balance is zero.
\<close>

theorem KoRef_destroyed_once:
  assumes "rc_history (\<lambda>st. map_option snd (KoRef_clone r st)) (KoRef_dec r) es st = Some (n, st')"
    and "0 < refs st (ko_ptr r)"
  shows "int (refs st' (ko_ptr r)) =
      int (refs st (ko_ptr r)) + int (count_list es True) - int (count_list es False)
    \<and> n = of_bool (refs st' (ko_ptr r) = 0)"
  by (rule koref.rc_history_balance [OF assms])

theorem KoRef_destroyed_once_witness:
  "refs (snd (the (rc_history (\<lambda>st. map_option snd (KoRef_clone (KoRef 7) st)) (KoRef_dec (KoRef 7))
      [True, False, False]
      \<lparr>os_objs = (\<lambda>_. ObjectHeader_new TYPE_TASK Rights_ALL), os_destroyed = []\<rparr>))) 7 = 0"
proof -
  let ?st = "\<lparr>os_objs = (\<lambda>_. ObjectHeader_new TYPE_TASK Rights_ALL), os_destroyed = []\<rparr>"
  let ?h = "rc_history (\<lambda>st. map_option snd (KoRef_clone (KoRef 7) st)) (KoRef_dec (KoRef 7))
      [True, False, False] ?st"
  have "\<exists>n st'. ?h = Some (n, st')"
    by (simp add: KoRef_clone_def KoRef_dec_def KoRef_drop_def KoRef_header_def Let_def
        ObjectHeader_add_ref_def ObjectHeader_release_def ObjectHeader_new_def word_less_nat_alt)
  then obtain n st' where h: "?h = Some (n, st')" by blast
  moreover have "0 < refs ?st (ko_ptr (KoRef 7))"
    by (simp add: refs_def ObjectHeader_new_def)
  ultimately have "int (refs st' (ko_ptr (KoRef 7))) = 0"
    using KoRef_destroyed_once [OF h] by (simp add: refs_def ObjectHeader_new_def)
  with h show ?thesis by simp
qed

end
