(* ===== verification/Handles.thy ===== *)
theory Handles
  imports KernelObject
begin

text \<open>
  The per-process handle table, \<open>src/object/handle.rs\<close>: a vector of slots with generations and
  a free list threaded through them. The spinlock around the table makes each operation
  atomic, so an operation is a function on the object store and the table; \<open>transfer\<close> works on
  the tables of the system, which are told apart by their addresses because the code orders
  its two locks by address. Operations return \<open>None\<close> for a panic (index out of range, \<open>unwrap\<close>
  of \<open>None\<close>, overflow, a failed assertion of the object header) and, in \<open>transfer\<close>, for a table
  that waits for its own lock.
\<close>

section \<open>Handles\<close>

datatype handle = Handle (handle_raw: u64)

definition Handle_from_raw :: "u64 \<Rightarrow> handle" where
  "Handle_from_raw raw = Handle raw"

definition Handle_to_raw :: "handle \<Rightarrow> u64" where
  "Handle_to_raw h = handle_raw h"

definition Handle_index :: "handle \<Rightarrow> nat" where
  "Handle_index h = unat (low32 (handle_raw h))"

definition Handle_generation :: "handle \<Rightarrow> u32" where
  "Handle_generation h = high32 (handle_raw h)"

definition Handle_INVALID :: handle where
  "Handle_INVALID = Handle (- 1)"

text \<open>\<open>Handle(((gen as u64) << 32) | (idx as u64))\<close>\<close>

definition mk_handle :: "u32 \<Rightarrow> nat \<Rightarrow> handle" where
  "mk_handle gen i = Handle (pack32 gen (of_nat i))"

datatype handle_error = InvalidHandle | AccessDenied | TableFull

section \<open>The table\<close>

record handle_entry =
  he_ko_ref :: ko_ref
  he_rights :: rights

record slot =
  sl_generation :: u32
  sl_entry :: "handle_entry option"
  sl_next_free :: "nat option"

record handle_table =
  ht_slots :: "slot option list"
  ht_free_head :: "nat option"
  ht_count :: nat

definition HandleTable_new :: "nat \<Rightarrow> handle_table" where
  "HandleTable_new capacity =
     \<lparr>ht_slots = map (\<lambda>i. Some \<lparr>sl_generation = 0, sl_entry = None,
        sl_next_free = (if i + 1 < capacity then Some (i + 1) else None)\<rparr>) [0..<capacity],
      ht_free_head = Some 0, ht_count = 0\<rparr>"

text \<open>
  Popping slot \<open>i\<close> off the free list and filling it, the code shared by \<open>create\<close>, \<open>duplicate\<close>
  and \<open>transfer\<close>. The assignment to \<open>slot.entry\<close> drops the entry it overwrites.
\<close>

definition drop_entry :: "handle_entry option \<Rightarrow> object_store \<Rightarrow> object_store option" where
  "drop_entry e st = (case e of None \<Rightarrow> Some st | Some x \<Rightarrow> KoRef_drop (he_ko_ref x) st)"

definition install :: "nat \<Rightarrow> handle_entry \<Rightarrow> object_store \<Rightarrow> handle_table
    \<Rightarrow> (handle \<times> object_store \<times> handle_table) option" where
  "install i e st t =
     do { s \<leftarrow> idx (ht_slots t) i;
          slot \<leftarrow> s;
          st' \<leftarrow> drop_entry (sl_entry slot) st;
          c \<leftarrow> usize_add (ht_count t) 1;
          Some (mk_handle (sl_generation slot) i, st',
            t\<lparr>ht_slots := (ht_slots t)[i := Some (slot\<lparr>sl_next_free := None, sl_entry := Some e\<rparr>)],
              ht_free_head := sl_next_free slot, ht_count := c\<rparr>) }"

text \<open>\<open>ko_ref\<close> is moved into \<open>create\<close>, so it is dropped on the error path.\<close>

definition HandleTable_create :: "ko_ref \<Rightarrow> rights \<Rightarrow> object_store \<times> handle_table
    \<Rightarrow> ((handle_error + handle) \<times> object_store \<times> handle_table) option" where
  "HandleTable_create ko_ref rights = (\<lambda>(st, t).
     case ht_free_head t of
       None \<Rightarrow> do { st' \<leftarrow> KoRef_drop ko_ref st; Some (Inl TableFull, st', t) }
     | Some i \<Rightarrow>
         do { (h, st', t') \<leftarrow> install i \<lparr>he_ko_ref = ko_ref, he_rights = rights\<rparr> st t;
              Some (Inr h, st', t') })"

text \<open>
  The slot a handle names: in range, present, and of the handle's generation. This is the
  prefix of \<open>get\<close>, \<open>duplicate\<close>, \<open>close\<close> and \<open>transfer\<close>.
\<close>

definition find_slot :: "handle_table \<Rightarrow> handle \<Rightarrow> slot option" where
  "find_slot t h =
     (if Handle_index h < length (ht_slots t)
      then case ht_slots t ! Handle_index h of
             None \<Rightarrow> None
           | Some s \<Rightarrow> (if sl_generation s = Handle_generation h then Some s else None)
      else None)"

definition HandleTable_get :: "handle \<Rightarrow> object_store \<times> handle_table
    \<Rightarrow> ((ko_ref \<times> rights) option \<times> object_store \<times> handle_table) option" where
  "HandleTable_get h = (\<lambda>(st, t).
     case find_slot t h of
       None \<Rightarrow> Some (None, st, t)
     | Some s \<Rightarrow>
         (case sl_entry s of
            None \<Rightarrow> Some (None, st, t)
          | Some e \<Rightarrow>
              do { (k, st') \<leftarrow> KoRef_clone (he_ko_ref e) st;
                   Some (Some (k, he_rights e), st', t) }))"

definition HandleTable_duplicate :: "handle \<Rightarrow> rights \<Rightarrow> object_store \<times> handle_table
    \<Rightarrow> ((handle_error + handle) \<times> object_store \<times> handle_table) option" where
  "HandleTable_duplicate h new_rights = (\<lambda>(st, t).
     case find_slot t h of
       None \<Rightarrow> Some (Inl InvalidHandle, st, t)
     | Some s \<Rightarrow>
         (case sl_entry s of
            None \<Rightarrow> Some (Inl InvalidHandle, st, t)
          | Some e \<Rightarrow>
              if \<not> Rights_contains (he_rights e) Rights_DUPLICATE
              then Some (Inl AccessDenied, st, t)
              else (case ht_free_head t of
                      None \<Rightarrow> Some (Inl TableFull, st, t)
                    | Some i \<Rightarrow>
                        do { (k, st1) \<leftarrow> KoRef_clone (he_ko_ref e) st;
                             (h', st2, t') \<leftarrow> install i
                                \<lparr>he_ko_ref = k,
                                 he_rights = Rights_downgrade (he_rights e) new_rights\<rparr> st1 t;
                             Some (Inr h', st2, t') })))"

text \<open>
  Releasing slot \<open>i\<close>: the entry is taken out and dropped, the generation bumped
  (\<open>fetch_add\<close> wraps), and the slot linked at the head of the free list.
\<close>

definition free_slot :: "nat \<Rightarrow> slot \<Rightarrow> object_store \<Rightarrow> handle_table
    \<Rightarrow> (object_store \<times> handle_table) option" where
  "free_slot i s st t =
     do { st' \<leftarrow> drop_entry (sl_entry s) st;
          c \<leftarrow> usize_sub (ht_count t) 1;
          Some (st',
            t\<lparr>ht_slots := (ht_slots t)[i := Some (s\<lparr>sl_entry := None,
                sl_generation := sl_generation s + 1, sl_next_free := ht_free_head t\<rparr>)],
              ht_free_head := Some i, ht_count := c\<rparr>) }"

definition HandleTable_close :: "handle \<Rightarrow> object_store \<times> handle_table
    \<Rightarrow> ((handle_error + unit) \<times> object_store \<times> handle_table) option" where
  "HandleTable_close h = (\<lambda>(st, t).
     case find_slot t h of
       None \<Rightarrow> Some (Inl InvalidHandle, st, t)
     | Some s \<Rightarrow>
         if sl_entry s = None then Some (Inr (), st, t)
         else do { (st', t') \<leftarrow> free_slot (Handle_index h) s st t;
                   Some (Inr (), st', t') })"

text \<open>
  \<open>transfer\<close> once both locks are held: the source of the move is \<open>first\<close> and the destination
  is \<open>second\<close>, the names of the two locked tables. The clone made before the destination is
  found full is dropped again on that path.
\<close>

definition transfer_locked :: "handle \<Rightarrow> object_store \<Rightarrow> handle_table \<Rightarrow> handle_table
    \<Rightarrow> ((handle_error + handle) \<times> object_store \<times> handle_table \<times> handle_table) option" where
  "transfer_locked h st first second =
     (case find_slot first h of
        None \<Rightarrow> Some (Inl InvalidHandle, st, first, second)
      | Some s \<Rightarrow>
         (case sl_entry s of
            None \<Rightarrow> Some (Inl InvalidHandle, st, first, second)
          | Some e \<Rightarrow>
              if \<not> Rights_contains (he_rights e) Rights_TRANSFER
              then Some (Inl AccessDenied, st, first, second)
              else do { (k, st1) \<leftarrow> KoRef_clone (he_ko_ref e) st;
                        case ht_free_head second of
                          None \<Rightarrow> do { st2 \<leftarrow> KoRef_drop k st1;
                                       Some (Inl TableFull, st2, first, second) }
                        | Some i \<Rightarrow>
                            do { (h', st2, second') \<leftarrow> install i
                                   \<lparr>he_ko_ref = k, he_rights = he_rights e\<rparr> st1 second;
                                 (st3, first') \<leftarrow> free_slot (Handle_index h) s st2 first;
                                 Some (Inr h', st3, first', second') } }))"

text \<open>The object store and the tables of the system, by address.\<close>

record ksys =
  ks_store :: object_store
  ks_tables :: "addr \<Rightarrow> handle_table"

text \<open>
  The lock order: the table at the lower address is \<open>first\<close>. When both are the same table the
  second \<open>lock()\<close> waits for the first guard for ever.
\<close>

definition HandleTable_transfer :: "addr \<Rightarrow> handle \<Rightarrow> addr \<Rightarrow> ksys
    \<Rightarrow> ((handle_error + handle) \<times> ksys) option" where
  "HandleTable_transfer self h dest ks =
     (let (first, second) = (if self < dest then (self, dest) else (dest, self)) in
      if first = second then None
      else do { (r, st', t1, t2) \<leftarrow>
                  transfer_locked h (ks_store ks) (ks_tables ks first) (ks_tables ks second);
                Some (r, ks\<lparr>ks_store := st',
                  ks_tables := (ks_tables ks)(first := t1, second := t2)\<rparr>) })"

definition HandleTable_count :: "handle_table \<Rightarrow> nat" where
  "HandleTable_count t = ht_count t"

end
