(* ===== verification/HandleTables.thy ===== *)
theory HandleTables
  imports Handles
begin

text \<open>
  Correctness of the handle table: the invariant of its free list, and the refinement of its
  operations to a finite map from handles to entries. A handle is a generational identifier,
  so a slot that is reused answers to a new handle only.
\<close>

section \<open>Handles are generational identifiers\<close>

lemma Handle_index_less: "Handle_index h < 2 ^ 32"
  unfolding Handle_index_def by (rule unat_low32)

lemma mk_handle_index [simp]: "i < 2 ^ 32 \<Longrightarrow> Handle_index (mk_handle g i) = i"
  by (simp add: Handle_index_def mk_handle_def low32_pack32_nat)

lemma mk_handle_generation [simp]: "i < 2 ^ 32 \<Longrightarrow> Handle_generation (mk_handle g i) = g"
  by (simp add: Handle_generation_def mk_handle_def high32_pack32_nat)

interpretation handle: generational_id
  "\<lambda>i g. mk_handle g (unat i)" "\<lambda>h. of_nat (Handle_index h)" "Handle_generation"
proof unfold_locales
  fix i g :: u32 and h :: handle
  have i: "unat i < 2 ^ 32"
    using unsigned_less [of i] by simp
  show "of_nat (Handle_index (mk_handle g (unat i))) = i"
    by (subst mk_handle_index [OF i]) simp
  show "Handle_generation (mk_handle g (unat i)) = g"
    by (rule mk_handle_generation [OF i])
  have "unat (of_nat (Handle_index h) :: u32) = Handle_index h"
    using Handle_index_less [of h] by (simp add: unat_of_nat)
  then show "mk_handle (Handle_generation h) (unat (of_nat (Handle_index h) :: u32)) = h"
    by (simp add: mk_handle_def Handle_index_def Handle_generation_def pack32_high_low)
qed

lemma handle_eqI:
  "Handle_index h = Handle_index h' \<Longrightarrow> Handle_generation h = Handle_generation h' \<Longrightarrow> h = h'"
  by (rule handle.id_eqI) simp_all

section \<open>The free list\<close>

definition entry_at :: "slot option list \<Rightarrow> nat \<Rightarrow> handle_entry option" where
  "entry_at ss i = (case ss ! i of None \<Rightarrow> None | Some s \<Rightarrow> sl_entry s)"

fun free_path :: "slot option list \<Rightarrow> nat option \<Rightarrow> nat list \<Rightarrow> bool" where
  "free_path ss p [] \<longleftrightarrow> p = None"
| "free_path ss p (i # js) \<longleftrightarrow>
     p = Some i \<and> i < length ss \<and>
     (case ss ! i of None \<Rightarrow> False | Some s \<Rightarrow> free_path ss (sl_next_free s) js)"

lemma free_path_update [simp]:
  "i \<notin> set js \<Longrightarrow> free_path (ss[i := x]) p js = free_path ss p js"
  by (induction js arbitrary: p) (auto simp: nth_list_update split: option.splits)

text \<open>
  The invariant, with the free list \<open>fs\<close> as a witness: every slot is there, the slots without
  an entry are exactly those of the free list, and \<open>count\<close> is the number of the others.
\<close>

definition wf_free :: "handle_table \<Rightarrow> nat list \<Rightarrow> bool" where
  "wf_free t fs \<longleftrightarrow>
     None \<notin> set (ht_slots t) \<and> length (ht_slots t) \<le> 2 ^ 32
     \<and> free_path (ht_slots t) (ht_free_head t) fs \<and> distinct fs
     \<and> (\<forall>i < length (ht_slots t). i \<in> set fs \<longleftrightarrow> entry_at (ht_slots t) i = None)
     \<and> ht_count t + length fs = length (ht_slots t)"

lemma wf_freeI:
  assumes "None \<notin> set (ht_slots t)" and "length (ht_slots t) \<le> 2 ^ 32"
    and "free_path (ht_slots t) (ht_free_head t) fs" and "distinct fs"
    and "\<And>i. i < length (ht_slots t) \<Longrightarrow> i \<in> set fs \<longleftrightarrow> entry_at (ht_slots t) i = None"
    and "ht_count t + length fs = length (ht_slots t)"
  shows "wf_free t fs"
  using assms by (simp add: wf_free_def)

lemma wf_freeD:
  assumes "wf_free t fs"
  shows "None \<notin> set (ht_slots t)" and "length (ht_slots t) \<le> 2 ^ 32"
    and "free_path (ht_slots t) (ht_free_head t) fs" and "distinct fs"
    and "\<And>i. i < length (ht_slots t) \<Longrightarrow> i \<in> set fs \<longleftrightarrow> entry_at (ht_slots t) i = None"
    and "ht_count t + length fs = length (ht_slots t)"
  using assms by (simp_all add: wf_free_def)

definition wf_table :: "handle_table \<Rightarrow> bool" where
  "wf_table t \<longleftrightarrow> (\<exists>fs. wf_free t fs)"

definition ht_abs :: "handle_table \<Rightarrow> handle \<Rightarrow> handle_entry option" where
  "ht_abs t h = (case find_slot t h of None \<Rightarrow> None | Some s \<Rightarrow> sl_entry s)"

lemma free_path_head:
  "free_path ss (Some i) fs \<Longrightarrow>
     \<exists>s js. fs = i # js \<and> i < length ss \<and> ss ! i = Some s \<and> free_path ss (sl_next_free s) js"
  by (cases fs) (auto split: option.splits)

lemma None_update: "None \<notin> set ss \<Longrightarrow> None \<notin> set (ss[i := Some x])"
  by (auto dest: set_update_subset_insert [THEN subsetD])

lemma entry_at_update:
  "i < length ss \<Longrightarrow> entry_at (ss[i := Some s]) j = (if j = i then sl_entry s else entry_at ss j)"
  by (simp add: entry_at_def nth_list_update)

lemma ht_abs_update:
  assumes "i < length (ht_slots t)"
  shows "ht_abs (t\<lparr>ht_slots := (ht_slots t)[i := Some s], ht_free_head := f, ht_count := c\<rparr>) h =
    (if Handle_index h = i then if sl_generation s = Handle_generation h then sl_entry s else None
     else ht_abs t h)"
  using assms by (auto simp: ht_abs_def find_slot_def nth_list_update)

lemma find_slot_Some:
  "find_slot t h = Some s \<longleftrightarrow>
     Handle_index h < length (ht_slots t) \<and> ht_slots t ! Handle_index h = Some s
     \<and> sl_generation s = Handle_generation h"
  by (auto simp: find_slot_def split: option.splits if_splits)

text \<open>Installing an entry in a free slot of a well-formed table is an insertion.\<close>

lemma install_wf:
  assumes wf: "wf_free t fs" and head: "ht_free_head t = Some i"
  obtains g t' where "install i e st t = Some (mk_handle g i, st, t')"
    and "wf_free t' (tl fs)" and "ht_abs t' = (ht_abs t)(mk_handle g i \<mapsto> e)"
    and "ht_abs t (mk_handle g i) = None"
proof -
  note w = wf_freeD [OF wf]
  obtain s js where fs: "fs = i # js" and i: "i < length (ht_slots t)"
    and s: "ht_slots t ! i = Some s" and js: "free_path (ht_slots t) (sl_next_free s) js"
    using free_path_head w(3) [unfolded head] by blast
  have small: "i < 2 ^ 32" using w(2) i by simp
  have empty: "sl_entry s = None" using w(5) [OF i] fs s by (simp add: entry_at_def)
  have i_js: "i \<notin> set js" "distinct js" using w(4) fs by simp_all
  let ?s = "s\<lparr>sl_next_free := None, sl_entry := Some e\<rparr>"
  let ?t = "t\<lparr>ht_slots := (ht_slots t)[i := Some ?s], ht_free_head := sl_next_free s,
      ht_count := ht_count t + 1\<rparr>"
  have "ht_count t + 1 < 2 ^ 64" using w(2,6) fs by simp
  then have "install i e st t = Some (mk_handle (sl_generation s) i, st, ?t)"
    using i s empty by (simp add: install_def drop_entry_def usize_add_def)
  moreover have "wf_free ?t js"
  proof (rule wf_freeI)
    fix j assume "j < length (ht_slots ?t)"
    then show "j \<in> set js \<longleftrightarrow> entry_at (ht_slots ?t) j = None"
      using w(5) [of j] fs i i_js by (auto simp: entry_at_update)
  qed (use w i js i_js fs in \<open>simp_all add: None_update\<close>)
  moreover have "ht_abs ?t = (ht_abs t)(mk_handle (sl_generation s) i \<mapsto> e)"
  proof
    fix h
    let ?h = "mk_handle (sl_generation s) i"
    have "ht_abs t h = None" if "Handle_index h = i"
      using that i s empty by (simp add: ht_abs_def find_slot_def)
    moreover have "h = ?h \<longleftrightarrow> Handle_index h = i \<and> Handle_generation h = sl_generation s"
      using small handle_eqI [of h ?h] by auto
    ultimately show "ht_abs ?t h = ((ht_abs t)(?h \<mapsto> e)) h"
      by (simp add: ht_abs_update [OF i])
  qed
  moreover have "ht_abs t (mk_handle (sl_generation s) i) = None"
    using small i s empty by (simp add: ht_abs_def find_slot_def)
  ultimately show ?thesis using that fs by simp
qed

text \<open>Freeing the slot of a live handle is a deletion.\<close>

lemma free_path_bound: "free_path ss p js \<Longrightarrow> set js \<subseteq> {..<length ss}"
  by (induction js arbitrary: p) (auto split: option.splits)

lemma free_slot_wf:
  assumes wf: "wf_free t fs" and s: "find_slot t h = Some s" and e: "sl_entry s = Some e"
    and st: "KoRef_drop (he_ko_ref e) st = Some st'"
  obtains t' where "free_slot (Handle_index h) s st t = Some (st', t')"
    and "wf_free t' (Handle_index h # fs)" and "ht_abs t' = (ht_abs t)(h := None)"
proof -
  note w = wf_freeD [OF wf]
  let ?i = "Handle_index h"
  let ?s = "s\<lparr>sl_entry := None, sl_generation := sl_generation s + 1,
      sl_next_free := ht_free_head t\<rparr>"
  let ?t = "t\<lparr>ht_slots := (ht_slots t)[?i := Some ?s], ht_free_head := Some ?i,
      ht_count := ht_count t - 1\<rparr>"
  have i: "?i < length (ht_slots t)" and si: "ht_slots t ! ?i = Some s"
    and g: "sl_generation s = Handle_generation h"
    using s by (auto simp: find_slot_Some)
  have i_fs: "?i \<notin> set fs" using w(5) [OF i] si e by (simp add: entry_at_def)
  have "set fs \<subseteq> {..<length (ht_slots t)} - {?i}"
    using free_path_bound [OF w(3)] i_fs by blast
  then have "length fs \<le> length (ht_slots t) - 1"
    using i card_mono [of "{..<length (ht_slots t)} - {?i}" "set fs"]
    by (simp add: distinct_card [OF w(4)])
  then have pos: "1 \<le> ht_count t" using w(6) i by linarith
  then have "free_slot ?i s st t = Some (st', ?t)"
    using e st by (simp add: free_slot_def drop_entry_def usize_sub_def)
  moreover have "wf_free ?t (?i # fs)"
  proof (rule wf_freeI)
    fix j assume "j < length (ht_slots ?t)"
    then show "j \<in> set (?i # fs) \<longleftrightarrow> entry_at (ht_slots ?t) j = None"
      using w(5) [of j] i by (simp add: entry_at_update)
  qed (use w i i_fs pos in \<open>simp_all add: None_update\<close>)
  moreover have "ht_abs ?t = (ht_abs t)(h := None)"
  proof
    fix h'
    have "ht_abs t h' = None" if "Handle_index h' = ?i" "h' \<noteq> h"
      using that i si g handle_eqI [of h' h] by (auto simp: ht_abs_def find_slot_def)
    then show "ht_abs ?t h' = ((ht_abs t)(h := None)) h'"
      by (simp add: ht_abs_update [OF i])
  qed
  ultimately show ?thesis using that by blast
qed

section \<open>The operations on well-formed tables\<close>

definition ht_full :: "handle_table \<Rightarrow> bool" where
  "ht_full t \<longleftrightarrow> ht_count t = length (ht_slots t)"

lemma wf_free_head: "wf_free t fs \<Longrightarrow> ht_free_head t = hd_opt fs"
  by (cases fs) (auto simp: wf_free_def)

lemma wf_free_full: "wf_free t fs \<Longrightarrow> ht_full t \<longleftrightarrow> ht_free_head t = None"
  by (cases fs) (auto simp: ht_full_def wf_free_def)

lemma ht_abs_None_cases:
  "ht_abs t h = None \<longleftrightarrow> find_slot t h = None \<or> (\<exists>s. find_slot t h = Some s \<and> sl_entry s = None)"
  by (auto simp: ht_abs_def split: option.splits)

lemma ht_abs_Some_cases:
  "ht_abs t h = Some e \<longleftrightarrow> (\<exists>s. find_slot t h = Some s \<and> sl_entry s = Some e)"
  by (auto simp: ht_abs_def split: option.splits)

lemma install_wf_table:
  assumes "wf_table t" and "ht_free_head t = Some i"
  shows "\<exists>h t'. install i e st t = Some (h, st, t') \<and> wf_table t'
    \<and> ht_abs t h = None \<and> ht_abs t' = (ht_abs t)(h \<mapsto> e)"
proof -
  obtain fs where "wf_free t fs" using assms(1) by (auto simp: wf_table_def)
  from install_wf [OF this assms(2), of e st] show ?thesis
    by (metis wf_table_def)
qed

lemma free_slot_wf_table:
  assumes "wf_table t" and "find_slot t h = Some s" and "sl_entry s = Some e"
    and "KoRef_drop (he_ko_ref e) st = Some st'"
  shows "\<exists>t'. free_slot (Handle_index h) s st t = Some (st', t') \<and> wf_table t'
    \<and> ht_abs t' = (ht_abs t)(h := None)"
proof -
  obtain fs where "wf_free t fs" using assms(1) by (auto simp: wf_table_def)
  from free_slot_wf [OF this assms(2-4)] show ?thesis
    by (metis wf_table_def)
qed

lemma free_path_upt:
  assumes "\<And>j. j < n \<Longrightarrow> ss ! j = Some \<lparr>sl_generation = 0, sl_entry = None,
      sl_next_free = (if j + 1 < n then Some (j + 1) else None)\<rparr>"
    and "length ss = n" and "k < n"
  shows "free_path ss (Some k) [k..<n]"
  using assms(3)
proof (induction "n - k" arbitrary: k)
  case 0
  then show ?case by simp
next
  case (Suc m)
  then show ?case
    using assms(1,2) by (cases "Suc k < n") (auto simp: upt_conv_Cons)
qed

lemma HandleTable_new_wf_free:
  assumes "0 < n" and "n \<le> 2 ^ 32"
  shows "wf_free (HandleTable_new n) [0..<n]"
proof (rule wf_freeI)
  show "free_path (ht_slots (HandleTable_new n)) (ht_free_head (HandleTable_new n)) [0..<n]"
    using free_path_upt [of n _ 0] assms by (simp add: HandleTable_new_def)
qed (use assms in \<open>auto simp: HandleTable_new_def entry_at_def\<close>)

text \<open>
  C25: on a well-formed table \<open>create\<close> never panics on the table: a full table gives
  \<open>TableFull\<close> and drops the reference, any other table gives a handle that named nothing
  before and names the new entry now, with every other handle unchanged.
\<close>

theorem HandleTable_create_inserts:
  assumes "wf_table t"
  shows "if ht_full t
    then HandleTable_create k r (st, t) =
      map_option (\<lambda>st'. (Inl TableFull, st', t)) (KoRef_drop k st)
    else \<exists>h t'. HandleTable_create k r (st, t) = Some (Inr h, st, t') \<and> wf_table t'
      \<and> ht_abs t h = None \<and> ht_abs t' = (ht_abs t)(h \<mapsto> \<lparr>he_ko_ref = k, he_rights = r\<rparr>)"
proof (cases "ht_free_head t")
  case None
  then have "ht_full t" using assms wf_free_full by (auto simp: wf_table_def)
  with None show ?thesis
    by (cases "KoRef_drop k st") (auto simp: HandleTable_create_def)
next
  case (Some i)
  then have "\<not> ht_full t" using assms wf_free_full by (auto simp: wf_table_def)
  with install_wf_table [OF assms Some, of "\<lparr>he_ko_ref = k, he_rights = r\<rparr>" st] Some
  show ?thesis by (auto simp: HandleTable_create_def)
qed

text \<open>
  C26: \<open>duplicate\<close> on a well-formed table. A handle that names nothing is invalid, one without
  the \<open>DUPLICATE\<close> right is refused, a full table is reported; otherwise the new handle names
  the same object with the rights of the source cut down to those asked for, and the object
  counts one more reference. The error paths change nothing.
\<close>

theorem HandleTable_duplicate_downgrades:
  assumes wf: "wf_table t"
    and live: "\<And>e. ht_abs t h = Some e \<Longrightarrow> 0 < refs st (ko_ptr (he_ko_ref e))
      \<and> refs st (ko_ptr (he_ko_ref e)) < 2 ^ 32 - 2"
  shows "case ht_abs t h of
      None \<Rightarrow> HandleTable_duplicate h new (st, t) = Some (Inl InvalidHandle, st, t)
    | Some e \<Rightarrow>
        if \<not> Rights_DUPLICATE \<le> he_rights e
        then HandleTable_duplicate h new (st, t) = Some (Inl AccessDenied, st, t)
        else if ht_full t
        then HandleTable_duplicate h new (st, t) = Some (Inl TableFull, st, t)
        else \<exists>h' st' t'. HandleTable_duplicate h new (st, t) = Some (Inr h', st', t')
          \<and> wf_table t' \<and> ht_abs t h' = None
          \<and> ht_abs t' = (ht_abs t)(h' \<mapsto>
              \<lparr>he_ko_ref = he_ko_ref e, he_rights = inf (he_rights e) new\<rparr>)
          \<and> refs st' (ko_ptr (he_ko_ref e)) = Suc (refs st (ko_ptr (he_ko_ref e)))"
proof (cases "ht_abs t h")
  case None
  then show ?thesis
    using iffD1 [OF ht_abs_None_cases None] by (auto simp: HandleTable_duplicate_def)
next
  case (Some e)
  then obtain s where s: "find_slot t h = Some s" "sl_entry s = Some e"
    by (auto simp: ht_abs_Some_cases)
  have full: "ht_full t \<longleftrightarrow> ht_free_head t = None"
    using wf wf_free_full by (auto simp: wf_table_def)
  obtain st' where st': "KoRef_clone (he_ko_ref e) st = Some (he_ko_ref e, st')"
    using live [OF Some] by (simp add: KoRef_clone_Some)
  let ?e = "\<lparr>he_ko_ref = he_ko_ref e, he_rights = inf (he_rights e) new\<rparr>"
  show ?thesis
  proof (cases "ht_free_head t")
    case None
    then show ?thesis
      using Some s full by (simp add: HandleTable_duplicate_def Rights_contains_le)
  next
    case i: (Some i)
    from install_wf_table [OF wf i, of ?e st'] refs_clone [OF st'] Some s st' full i
    show ?thesis
      by (auto simp: HandleTable_duplicate_def Rights_contains_le)
  qed
qed

text \<open>
  \<open>close\<close> on a well-formed table. A live handle is removed from the map, gives its
  reference back, and the object is destroyed exactly when that was the last one; a handle of
  the current generation whose slot is empty is reported as closed although nothing happens;
  any other handle is invalid.
\<close>

theorem HandleTable_close_removes:
  assumes wf: "wf_table t"
    and live: "\<And>e. ht_abs t h = Some e \<Longrightarrow> 0 < refs st (ko_ptr (he_ko_ref e))"
  shows "case ht_abs t h of
      None \<Rightarrow> HandleTable_close h (st, t) =
        Some (if find_slot t h = None then Inl InvalidHandle else Inr (), st, t)
    | Some e \<Rightarrow> \<exists>st' t'. HandleTable_close h (st, t) = Some (Inr (), st', t')
        \<and> wf_table t' \<and> ht_abs t' = (ht_abs t)(h := None)
        \<and> Suc (refs st' (ko_ptr (he_ko_ref e))) = refs st (ko_ptr (he_ko_ref e))
        \<and> os_destroyed st' = os_destroyed st @
            (if refs st' (ko_ptr (he_ko_ref e)) = 0 then [ko_ptr (he_ko_ref e)] else [])"
proof (cases "ht_abs t h")
  case None
  then show ?thesis
    using iffD1 [OF ht_abs_None_cases None] by (auto simp: HandleTable_close_def)
next
  case (Some e)
  then obtain s where s: "find_slot t h = Some s" "sl_entry s = Some e"
    by (auto simp: ht_abs_Some_cases)
  obtain st' where st': "KoRef_drop (he_ko_ref e) st = Some st'"
    using live [OF Some] by (simp add: KoRef_drop_Some)
  obtain t' where t': "free_slot (Handle_index h) s st t = Some (st', t')" "wf_table t'"
    "ht_abs t' = (ht_abs t)(h := None)"
    using free_slot_wf_table [OF wf s st'] by blast
  then have "HandleTable_close h (st, t) = Some (Inr (), st', t')"
    using s by (simp add: HandleTable_close_def)
  with t'(2,3) Some refs_drop [OF st', of "ko_ptr (he_ko_ref e)"]
  show ?thesis by (simp split del: if_split)
qed

text \<open>
  C27: \<open>transfer\<close> with both locks held. The entry moves with its rights unchanged from the
  table locked first to the one locked second, the source handle dies, and the number of
  references does not change; each error leaves tables and references as they were.
\<close>

theorem transfer_locked_moves:
  assumes wf1: "wf_table t1" and wf2: "wf_table t2"
    and live: "\<And>e. ht_abs t1 h = Some e \<Longrightarrow> 0 < refs st (ko_ptr (he_ko_ref e))
      \<and> refs st (ko_ptr (he_ko_ref e)) < 2 ^ 32 - 2"
  shows "case ht_abs t1 h of
      None \<Rightarrow> transfer_locked h st t1 t2 = Some (Inl InvalidHandle, st, t1, t2)
    | Some e \<Rightarrow>
        if \<not> Rights_TRANSFER \<le> he_rights e
        then transfer_locked h st t1 t2 = Some (Inl AccessDenied, st, t1, t2)
        else \<exists>res st' t1' t2'. transfer_locked h st t1 t2 = Some (res, st', t1', t2')
          \<and> (\<forall>ob. refs st' ob = refs st ob) \<and> os_destroyed st' = os_destroyed st
          \<and> (case res of
               Inl er \<Rightarrow> er = TableFull \<and> ht_full t2 \<and> t1' = t1 \<and> t2' = t2
             | Inr h' \<Rightarrow> \<not> ht_full t2 \<and> wf_table t1' \<and> wf_table t2' \<and> ht_abs t2 h' = None
                 \<and> ht_abs t1' = (ht_abs t1)(h := None) \<and> ht_abs t2' = (ht_abs t2)(h' \<mapsto> e))"
proof (cases "ht_abs t1 h")
  case None
  then show ?thesis
    using iffD1 [OF ht_abs_None_cases None] by (auto simp: transfer_locked_def)
next
  case (Some e)
  let ?k = "he_ko_ref e"
  obtain s where s: "find_slot t1 h = Some s" "sl_entry s = Some e"
    using Some by (auto simp: ht_abs_Some_cases)
  have full: "ht_full t2 \<longleftrightarrow> ht_free_head t2 = None"
    using wf2 wf_free_full by (auto simp: wf_table_def)
  obtain st1 where st1: "KoRef_clone ?k st = Some (?k, st1)"
    using live [OF Some] by (simp add: KoRef_clone_Some)
  note r1 = refs_clone [OF st1]
  obtain st2 where st2: "KoRef_drop ?k st1 = Some st2"
    using r1 [of "ko_ptr ?k"] by (simp add: KoRef_drop_Some)
  have r2: "refs st2 ob = refs st ob" "os_destroyed st2 = os_destroyed st" for ob
    using r1 [of ob] r1 [of "ko_ptr ?k"] refs_drop [OF st2, of ob]
      refs_drop [OF st2, of "ko_ptr ?k"] by (auto split: if_splits)
  show ?thesis
  proof (cases "ht_free_head t2")
    case None
    then show ?thesis
      using Some s st1 st2 r2 full by (auto simp: transfer_locked_def Rights_contains_le)
  next
    case i: (Some i)
    obtain h' t2' where t2': "install i e st1 t2 = Some (h', st1, t2')" "wf_table t2'"
      "ht_abs t2 h' = None" "ht_abs t2' = (ht_abs t2)(h' \<mapsto> e)"
      using install_wf_table [OF wf2 i, of e st1] by blast
    obtain t1' where t1': "free_slot (Handle_index h) s st1 t1 = Some (st2, t1')" "wf_table t1'"
      "ht_abs t1' = (ht_abs t1)(h := None)"
      using free_slot_wf_table [OF wf1 s st2] by blast
    have e: "\<lparr>he_ko_ref = ?k, he_rights = he_rights e\<rparr> = e" by simp
    have "transfer_locked h st t1 t2 =
      (if Rights_TRANSFER \<le> he_rights e then Some (Inr h', st2, t1', t2')
       else Some (Inl AccessDenied, st, t1, t2))"
      using s i st1 t1'(1) t2'(1) by (simp add: transfer_locked_def Rights_contains_le e)
    then show ?thesis using Some r2 full i t1' t2' by simp
  qed
qed

section \<open>Witnesses\<close>

text \<open>A store of fresh objects and a table of two slots, the first of which holds object 7.\<close>

definition demo_store :: object_store where
  "demo_store = \<lparr>os_objs = (\<lambda>_. ObjectHeader_new TYPE_TASK Rights_ALL), os_destroyed = []\<rparr>"

definition demo_table :: handle_table where
  "demo_table =
     \<lparr>ht_slots =
        [Some \<lparr>sl_generation = 0, sl_entry = Some \<lparr>he_ko_ref = KoRef 7, he_rights = Rights_ALL\<rparr>,
               sl_next_free = None\<rparr>,
         Some \<lparr>sl_generation = 0, sl_entry = None, sl_next_free = None\<rparr>],
      ht_free_head = Some 1, ht_count = 1\<rparr>"

definition demo_handle :: handle where
  "demo_handle = Handle 0"

lemma demo_table_wf: "wf_table demo_table"
proof -
  have "wf_free demo_table [1]"
    by (rule wf_freeI) (auto simp: demo_table_def entry_at_def less_Suc_eq)
  then show ?thesis by (auto simp: wf_table_def)
qed

lemma demo_abs:
  "ht_abs demo_table demo_handle = Some \<lparr>he_ko_ref = KoRef 7, he_rights = Rights_ALL\<rparr>"
  by (simp add: ht_abs_def find_slot_def demo_table_def demo_handle_def Handle_index_def
      Handle_generation_def low32_def high32_def)

lemma demo_refs: "refs demo_store ob = 1"
  by (simp add: refs_def demo_store_def ObjectHeader_new_def)

lemma demo_not_full: "\<not> ht_full demo_table"
  by (simp add: ht_full_def demo_table_def)

lemma ALL_DUPLICATE: "Rights_DUPLICATE \<le> Rights_ALL"
  by (simp add: less_eq_rights_def Rights_contains_def Rights_consts)

lemma ALL_TRANSFER: "Rights_TRANSFER \<le> Rights_ALL"
  by (simp add: less_eq_rights_def Rights_contains_def Rights_consts)

theorem HandleTable_create_inserts_witness:
  "\<exists>h t'. HandleTable_create (KoRef 9) Rights_READ (demo_store, demo_table) =
    Some (Inr h, demo_store, t') \<and> ht_abs t' h = Some \<lparr>he_ko_ref = KoRef 9, he_rights = Rights_READ\<rparr>"
  using HandleTable_create_inserts [OF demo_table_wf, of "KoRef 9" Rights_READ demo_store] demo_not_full
  by auto

theorem HandleTable_duplicate_downgrades_witness:
  "\<exists>h' st' t'. HandleTable_duplicate demo_handle Rights_READ (demo_store, demo_table) =
    Some (Inr h', st', t') \<and> refs st' 7 = 2"
  using HandleTable_duplicate_downgrades [OF demo_table_wf, of demo_handle demo_store Rights_READ]
  by (auto simp: demo_abs demo_refs demo_not_full ALL_DUPLICATE)

theorem HandleTable_close_removes_witness:
  "\<exists>st' t'. HandleTable_close demo_handle (demo_store, demo_table) = Some (Inr (), st', t')
    \<and> os_destroyed st' = [7] \<and> ht_abs t' demo_handle = None"
  using HandleTable_close_removes [OF demo_table_wf, of demo_handle demo_store]
  by (auto simp: demo_abs demo_refs) (simp add: demo_store_def)

theorem transfer_locked_moves_witness:
  "\<exists>h' st' t1 t2. transfer_locked demo_handle demo_store demo_table (HandleTable_new 1) =
    Some (Inr h', st', t1, t2) \<and> ht_abs t1 demo_handle = None"
proof -
  have new: "wf_table (HandleTable_new 1)" "\<not> ht_full (HandleTable_new 1)"
    using HandleTable_new_wf_free [of 1]
    by (auto simp: wf_table_def ht_full_def) (simp add: HandleTable_new_def)
  have "\<exists>res st' t1' t2'. transfer_locked demo_handle demo_store demo_table (HandleTable_new 1) =
      Some (res, st', t1', t2') \<and> (\<exists>h'. res = Inr h') \<and> ht_abs t1' demo_handle = None"
    using transfer_locked_moves [OF demo_table_wf new(1), of demo_handle demo_store] new(2)
    by (simp add: demo_abs demo_refs ALL_TRANSFER) (fastforce split: sum.splits)
  then show ?thesis by blast
qed

end
