(* ===== verification/Capabilities.thy ===== *)
theory Capabilities
  imports HandleTables
begin

text \<open>
  The handle tables of all processes over one object store: sequences of the table operations,
  and the properties that span them. Rights are never amplified, every entry stands for one
  counted reference, and a closed handle stays dead.
\<close>

section \<open>Operations of the system\<close>

datatype kop =
    KCreate addr ko_ref rights
  | KGet addr handle
  | KDuplicate addr handle rights
  | KClose addr handle
  | KTransfer addr handle addr

datatype kres =
    RHandle "handle_error + handle"
  | RGet "(ko_ref \<times> rights) option"
  | RUnit "handle_error + unit"

definition on_table :: "addr
    \<Rightarrow> (object_store \<times> handle_table \<Rightarrow> ('r \<times> object_store \<times> handle_table) option)
    \<Rightarrow> ('r \<Rightarrow> kres) \<Rightarrow> ksys \<Rightarrow> (kres \<times> ksys) option" where
  "on_table a f res ks =
     do { (r, st', t') \<leftarrow> f (ks_store ks, ks_tables ks a);
          Some (res r, ks\<lparr>ks_store := st', ks_tables := (ks_tables ks)(a := t')\<rparr>) }"

fun kstep :: "kop \<Rightarrow> ksys \<Rightarrow> (kres \<times> ksys) option" where
  "kstep (KCreate a k r) ks = on_table a (HandleTable_create k r) RHandle ks"
| "kstep (KGet a h) ks = on_table a (HandleTable_get h) RGet ks"
| "kstep (KDuplicate a h r) ks = on_table a (HandleTable_duplicate h r) RHandle ks"
| "kstep (KClose a h) ks = on_table a (HandleTable_close h) RUnit ks"
| "kstep (KTransfer a h b) ks =
     do { (r, ks') \<leftarrow> HandleTable_transfer a h b ks; Some (RHandle r, ks') }"

lemma on_table_Some:
  "on_table a f res ks = Some (r, ks') \<longleftrightarrow>
     (\<exists>x st' t'. f (ks_store ks, ks_tables ks a) = Some (x, st', t') \<and> r = res x
        \<and> ks' = ks\<lparr>ks_store := st', ks_tables := (ks_tables ks)(a := t')\<rparr>)"
  by (auto simp: on_table_def bind_eq_Some_conv split: prod.splits)

text \<open>The table updates the operations are made of, as inversion rules.\<close>

lemma install_Some:
  "install i e st t = Some (h, st', t') \<longleftrightarrow>
     (\<exists>s. i < length (ht_slots t) \<and> ht_slots t ! i = Some s
        \<and> drop_entry (sl_entry s) st = Some st' \<and> ht_count t + 1 < 2 ^ 64
        \<and> h = mk_handle (sl_generation s) i
        \<and> t' = t\<lparr>ht_slots := (ht_slots t)[i := Some (s\<lparr>sl_next_free := None, sl_entry := Some e\<rparr>)],
            ht_free_head := sl_next_free s, ht_count := ht_count t + 1\<rparr>)"
  by (auto simp: install_def bind_eq_Some_conv idx_eq_Some usize_add_eq_Some)

lemma free_slot_Some:
  "free_slot i s st t = Some (st', t') \<longleftrightarrow>
     drop_entry (sl_entry s) st = Some st' \<and> 1 \<le> ht_count t
     \<and> t' = t\<lparr>ht_slots := (ht_slots t)[i := Some (s\<lparr>sl_entry := None,
            sl_generation := sl_generation s + 1, sl_next_free := ht_free_head t\<rparr>)],
          ht_free_head := Some i, ht_count := ht_count t - 1\<rparr>"
  by (auto simp: free_slot_def bind_eq_Some_conv usize_sub_eq_Some)

lemma create_cases:
  assumes "HandleTable_create k r (st, t) = Some (res, st', t')"
  obtains "res = Inl TableFull" "KoRef_drop k st = Some st'" "t' = t"
  | i h where "res = Inr h" "install i \<lparr>he_ko_ref = k, he_rights = r\<rparr> st t = Some (h, st', t')"
  using assms
  by (auto simp: HandleTable_create_def bind_eq_Some_conv split: option.splits prod.splits)

lemma get_cases:
  assumes "HandleTable_get h (st, t) = Some (res, st', t')"
  obtains "res = None" "st' = st" "t' = t"
  | s e where "res = Some (he_ko_ref e, he_rights e)" "find_slot t h = Some s"
      "sl_entry s = Some e" "KoRef_clone (he_ko_ref e) st = Some (he_ko_ref e, st')" "t' = t"
  using assms
  by (auto simp: HandleTable_get_def bind_eq_Some_conv split: option.splits prod.splits)
    (metis refs_clone)

lemma duplicate_cases:
  assumes "HandleTable_duplicate h new (st, t) = Some (res, st', t')"
  obtains er where "res = Inl er" "st' = st" "t' = t"
  | s e i h' st1 where "res = Inr h'" "find_slot t h = Some s" "sl_entry s = Some e"
      "Rights_DUPLICATE \<le> he_rights e"
      "KoRef_clone (he_ko_ref e) st = Some (he_ko_ref e, st1)"
      "install i \<lparr>he_ko_ref = he_ko_ref e, he_rights = inf (he_rights e) new\<rparr> st1 t
         = Some (h', st', t')"
  using assms
  by (auto simp: HandleTable_duplicate_def bind_eq_Some_conv Rights_contains_le
      split: option.splits prod.splits if_splits) (metis refs_clone)

lemma close_cases:
  assumes "HandleTable_close h (st, t) = Some (res, st', t')"
  obtains "find_slot t h = None \<or> ht_abs t h = None" "st' = st" "t' = t"
  | s e where "res = Inr ()" "find_slot t h = Some s" "sl_entry s = Some e"
      "free_slot (Handle_index h) s st t = Some (st', t')"
  using assms
  by (auto simp: HandleTable_close_def bind_eq_Some_conv ht_abs_def
      split: option.splits prod.splits if_splits)

lemma transfer_locked_cases:
  assumes "transfer_locked h st t1 t2 = Some (res, st', t1', t2')"
  obtains er where "res = Inl er" "st' = st" "t1' = t1" "t2' = t2"
  | e st1 where "res = Inl TableFull"
      "KoRef_clone (he_ko_ref (e :: handle_entry)) st = Some (he_ko_ref e, st1)"
      "KoRef_drop (he_ko_ref e) st1 = Some st'" "t1' = t1" "t2' = t2"
  | s e i h' st1 st2 where "res = Inr h'" "find_slot t1 h = Some s" "sl_entry s = Some e"
      "Rights_TRANSFER \<le> he_rights e"
      "KoRef_clone (he_ko_ref e) st = Some (he_ko_ref e, st1)"
      "install i e st1 t2 = Some (h', st2, t2')"
      "free_slot (Handle_index h) s st2 t1 = Some (st', t1')"
proof (cases "ht_abs t1 h")
  case None
  then show ?thesis
    using assms that(1) iffD1 [OF ht_abs_None_cases None] by (auto simp: transfer_locked_def)
next
  case (Some e)
  then obtain s where s: "find_slot t1 h = Some s" "sl_entry s = Some e"
    by (auto simp: ht_abs_Some_cases)
  have eta: "\<lparr>he_ko_ref = he_ko_ref e, he_rights = he_rights e\<rparr> = e" by simp
  show ?thesis
  proof (cases "Rights_TRANSFER \<le> he_rights e")
    case False
    then show ?thesis
      using assms s that(1) by (auto simp: transfer_locked_def Rights_contains_le)
  next
    case True
    with assms s obtain k st1 where k: "KoRef_clone (he_ko_ref e) st = Some (k, st1)"
      by (auto simp: transfer_locked_def Rights_contains_le bind_eq_Some_conv)
    then have "k = he_ko_ref e" by (metis refs_clone)
    with k True assms s that(2) [of e st1] that(3) eta show ?thesis
      by (cases "ht_free_head t2")
        (auto simp: transfer_locked_def Rights_contains_le bind_eq_Some_conv)
  qed
qed

lemma transfer_Some:
  assumes "HandleTable_transfer self h dest ks = Some (res, ks')"
  obtains a b st' t1 t2 where "a \<noteq> b" "{a, b} = {self, dest}"
    "transfer_locked h (ks_store ks) (ks_tables ks a) (ks_tables ks b) = Some (res, st', t1, t2)"
    "ks' = ks\<lparr>ks_store := st', ks_tables := (ks_tables ks)(a := t1, b := t2)\<rparr>"
  using assms that [of self dest] that [of dest self]
  by (cases "self < dest")
    (auto simp: HandleTable_transfer_def bind_eq_Some_conv Let_def insert_commute
      split: if_splits prod.splits)

lemma kstep_cases:
  assumes "kstep op ks = Some (r, ks')"
  obtains
    a k rt x st' t' where "op = KCreate a k rt" "r = RHandle x"
      "HandleTable_create k rt (ks_store ks, ks_tables ks a) = Some (x, st', t')"
      "ks' = ks\<lparr>ks_store := st', ks_tables := (ks_tables ks)(a := t')\<rparr>"
  | a h x st' t' where "op = KGet a h" "r = RGet x"
      "HandleTable_get h (ks_store ks, ks_tables ks a) = Some (x, st', t')"
      "ks' = ks\<lparr>ks_store := st', ks_tables := (ks_tables ks)(a := t')\<rparr>"
  | a h rt x st' t' where "op = KDuplicate a h rt" "r = RHandle x"
      "HandleTable_duplicate h rt (ks_store ks, ks_tables ks a) = Some (x, st', t')"
      "ks' = ks\<lparr>ks_store := st', ks_tables := (ks_tables ks)(a := t')\<rparr>"
  | a h x st' t' where "op = KClose a h" "r = RUnit x"
      "HandleTable_close h (ks_store ks, ks_tables ks a) = Some (x, st', t')"
      "ks' = ks\<lparr>ks_store := st', ks_tables := (ks_tables ks)(a := t')\<rparr>"
  | a h b x c d st' t1 t2 where "op = KTransfer a h b" "r = RHandle x" "c \<noteq> d" "{c, d} = {a, b}"
      "transfer_locked h (ks_store ks) (ks_tables ks c) (ks_tables ks d) = Some (x, st', t1, t2)"
      "ks' = ks\<lparr>ks_store := st', ks_tables := (ks_tables ks)(c := t1, d := t2)\<rparr>"
proof (cases op)
  case (KTransfer a h b)
  with assms obtain x where "HandleTable_transfer a h b ks = Some (x, ks')" "r = RHandle x"
    by (auto simp: bind_eq_Some_conv)
  then show ?thesis using transfer_Some that(5) KTransfer by metis
qed (use assms that(1-4) in \<open>auto simp: on_table_Some\<close>)

section \<open>Rights are never amplified\<close>

definition table_caps :: "handle_table \<Rightarrow> (addr \<times> rights) set" where
  "table_caps t = {(ko_ptr (he_ko_ref e), he_rights e) | e s.
     Some s \<in> set (ht_slots t) \<and> sl_entry s = Some e}"

definition caps :: "ksys \<Rightarrow> (addr \<times> rights) set" where
  "caps ks = (\<Union>a. table_caps (ks_tables ks a))"

fun kgranted :: "kop \<Rightarrow> (addr \<times> rights) set" where
  "kgranted (KCreate a k r) = {(ko_ptr k, r)}"
| "kgranted _ = {}"

lemma table_caps_update:
  "table_caps (t\<lparr>ht_slots := (ht_slots t)[i := Some s], ht_free_head := f, ht_count := c\<rparr>) \<subseteq>
     table_caps t \<union> {(ko_ptr (he_ko_ref e), he_rights e) | e. sl_entry s = Some e}"
  by (auto simp: table_caps_def dest: set_update_subset_insert [THEN subsetD])

lemma table_caps_install:
  "install i e st t = Some (h, st', t') \<Longrightarrow>
     table_caps t' \<subseteq> table_caps t \<union> {(ko_ptr (he_ko_ref e), he_rights e)}"
  by (auto simp: install_Some dest!: table_caps_update [THEN subsetD])

lemma table_caps_free: "free_slot i s st t = Some (st', t') \<Longrightarrow> table_caps t' \<subseteq> table_caps t"
  by (auto simp: free_slot_Some dest!: table_caps_update [THEN subsetD])

lemma find_slot_caps:
  "find_slot t h = Some s \<Longrightarrow> sl_entry s = Some e \<Longrightarrow>
     (ko_ptr (he_ko_ref e), he_rights e) \<in> table_caps t"
  by (force simp: table_caps_def find_slot_Some in_set_conv_nth)

definition caps_le :: "(addr \<times> rights) set \<Rightarrow> (addr \<times> rights) set \<Rightarrow> bool" where
  "caps_le X Y \<longleftrightarrow> (\<forall>k r. (k, r) \<in> X \<longrightarrow> (\<exists>q. (k, q) \<in> Y \<and> r \<le> q))"

lemma caps_le_subset: "X \<subseteq> Y \<Longrightarrow> caps_le X Y"
  by (auto simp: caps_le_def)

lemma caps_le_insert:
  "X \<subseteq> Z \<union> {(k, r)} \<Longrightarrow> Z \<subseteq> Y \<Longrightarrow> (k, q) \<in> Y \<Longrightarrow> r \<le> q \<Longrightarrow> caps_le X Y"
  unfolding caps_le_def by blast

lemma create_caps:
  "HandleTable_create k r (st, t) = Some (x, st', t') \<Longrightarrow>
     caps_le (table_caps t') (table_caps t \<union> {(ko_ptr k, r)})"
  by (erule create_cases) (auto dest!: table_caps_install intro!: caps_le_subset)

lemma get_caps: "HandleTable_get h (st, t) = Some (x, st', t') \<Longrightarrow> t' = t"
  by (erule get_cases) auto

lemma duplicate_caps:
  "HandleTable_duplicate h new (st, t) = Some (x, st', t') \<Longrightarrow>
     caps_le (table_caps t') (table_caps t)"
proof (erule duplicate_cases)
  fix s e i h' st1
  assume "find_slot t h = Some s" "sl_entry s = Some e"
    and i: "install i \<lparr>he_ko_ref = he_ko_ref e, he_rights = inf (he_rights e) new\<rparr> st1 t
         = Some (h', st', t')"
  then show ?thesis
    by (intro caps_le_insert [OF table_caps_install [OF i]])
      (auto intro: find_slot_caps [where e = e])
qed (auto intro: caps_le_subset)

lemma close_caps: "HandleTable_close h (st, t) = Some (x, st', t') \<Longrightarrow> table_caps t' \<subseteq> table_caps t"
  by (erule close_cases) (auto dest: table_caps_free)

lemma transfer_locked_caps:
  "transfer_locked h st t1 t2 = Some (x, st', t1', t2') \<Longrightarrow>
     table_caps t1' \<union> table_caps t2' \<subseteq> table_caps t1 \<union> table_caps t2"
proof (erule transfer_locked_cases)
  fix s e i h' st1 st2
  assume f: "find_slot t1 h = Some s" "sl_entry s = Some e"
    and i: "install i e st1 t2 = Some (h', st2, t2')"
    and d: "free_slot (Handle_index h) s st2 t1 = Some (st', t1')"
  from find_slot_caps [OF f] table_caps_install [OF i] table_caps_free [OF d]
  show ?thesis by blast
qed auto

lemma caps_upd:
  assumes "ks' = ks\<lparr>ks_store := st', ks_tables := (ks_tables ks)(a := t')\<rparr>"
    and "caps_le (table_caps t') (table_caps (ks_tables ks a) \<union> G)"
  shows "caps_le (caps ks') (caps ks \<union> G)"
  using assms by (fastforce simp: caps_def caps_le_def split: if_splits)

lemma caps_upd2:
  assumes "ks' = ks\<lparr>ks_store := st', ks_tables := (ks_tables ks)(c := t1, d := t2)\<rparr>"
    and "table_caps t1 \<union> table_caps t2 \<subseteq> table_caps (ks_tables ks c) \<union> table_caps (ks_tables ks d)"
  shows "caps ks' \<subseteq> caps ks"
  using assms by (fastforce simp: caps_def split: if_splits)

lemma kstep_caps:
  assumes "kstep op ks = Some (r, ks')"
  shows "caps_le (caps ks') (caps ks \<union> kgranted op)"
  using assms
proof (cases rule: kstep_cases)
  case (1 a k rt x st' t')
  then show ?thesis using caps_upd [OF 1(4) create_caps [OF 1(3)]] by simp
next
  case (2 a h x st' t')
  then show ?thesis using caps_upd [OF 2(4), of "{}"] get_caps [OF 2(3)] by (simp add: caps_le_subset)
next
  case (3 a h rt x st' t')
  then show ?thesis using caps_upd [OF 3(4), of "{}"] duplicate_caps [OF 3(3)] by simp
next
  case (4 a h x st' t')
  then show ?thesis
    using caps_upd [OF 4(4), of "{}"] close_caps [OF 4(3)] by (simp add: caps_le_subset)
next
  case (5 a h b x c d st' t1 t2)
  then show ?thesis
    using caps_upd2 [OF 5(6)] transfer_locked_caps [OF 5(5)] by (simp add: caps_le_subset)
qed

interpretation kcaps: authority kstep caps kgranted
  by unfold_locales (use kstep_caps in \<open>fastforce simp: caps_le_def\<close>)

text \<open>
  C1: capability safety. Over any run of table operations by all processes, whatever handle
  exists afterwards carries at most the rights of a handle to the same object that existed
  before or of a \<open>create\<close> in the run: duplication and transfer never amplify rights.
\<close>

theorem rights_never_amplified:
  assumes "run_ops kstep ops ks = Some (rs, ks')" and "(k, r) \<in> caps ks'"
  shows "\<exists>q. (k, q) \<in> caps ks \<union> \<Union> (kgranted ` set ops) \<and> r \<le> q"
  by (rule kcaps.run_lossy [OF assms])

section \<open>Every entry is one counted reference\<close>

definition slot_ref :: "slot option \<Rightarrow> addr option" where
  "slot_ref x = (case x of None \<Rightarrow> None
     | Some s \<Rightarrow> map_option (\<lambda>e. ko_ptr (he_ko_ref e)) (sl_entry s))"

definition entries :: "handle_table \<Rightarrow> addr \<Rightarrow> nat" where
  "entries t k = length (filter (\<lambda>x. slot_ref x = Some k) (ht_slots t))"

text \<open>The references to \<open>k\<close> that no table entry accounts for: those the callers hold.\<close>

definition outside :: "addr set \<Rightarrow> ksys \<Rightarrow> addr \<Rightarrow> int" where
  "outside A ks k = int (refs (ks_store ks) k) - (\<Sum>a\<in>A. int (entries (ks_tables ks a) k))"

text \<open>
  What an operation does to them: \<open>create\<close> takes the reference it is given, \<open>get\<close> returns a
  new one.
\<close>

fun handed :: "kop \<Rightarrow> kres \<Rightarrow> addr \<Rightarrow> int" where
  "handed (KCreate a r rt) _ k = - of_bool (ko_ptr r = k)"
| "handed (KGet a h) (RGet (Some (r, rt))) k = of_bool (ko_ptr r = k)"
| "handed _ _ _ = 0"

fun tables_of :: "kop \<Rightarrow> addr set" where
  "tables_of (KCreate a _ _) = {a}"
| "tables_of (KGet a _) = {a}"
| "tables_of (KDuplicate a _ _) = {a}"
| "tables_of (KClose a _) = {a}"
| "tables_of (KTransfer a _ b) = {a, b}"

lemma filter_update:
  "i < length xs \<Longrightarrow>
     length (filter P (xs[i := x])) + of_bool (P (xs ! i)) = length (filter P xs) + of_bool (P x)"
proof (induction xs arbitrary: i)
  case (Cons y ys)
  then show ?case using Cons.IH [of "i - 1"] by (cases i) auto
qed simp

lemma entries_update:
  assumes "i < length (ht_slots t)"
  shows "int (entries (t\<lparr>ht_slots := (ht_slots t)[i := Some s], ht_free_head := f, ht_count := c\<rparr>) k)
    = int (entries t k) + of_bool (slot_ref (Some s) = Some k)
      - of_bool (slot_ref (ht_slots t ! i) = Some k)"
  using filter_update [OF assms, of "\<lambda>x. slot_ref x = Some k" "Some s"]
  by (auto simp: entries_def of_bool_def split: if_splits)

lemma refs_drop_entry:
  "drop_entry e st = Some st' \<Longrightarrow>
     int (refs st' k) = int (refs st k) - of_bool (map_option (\<lambda>e. ko_ptr (he_ko_ref e)) e = Some k)"
  by (auto simp: drop_entry_def split: option.splits dest!: refs_drop [where ob = k])

lemma install_balance:
  assumes "install i e st t = Some (h, st', t')"
  shows "int (refs st' k) - int (entries t' k) =
    int (refs st k) - int (entries t k) - of_bool (ko_ptr (he_ko_ref e) = k)"
proof -
  from assms obtain s where i: "i < length (ht_slots t)" and s: "ht_slots t ! i = Some s"
    and d: "drop_entry (sl_entry s) st = Some st'"
    and t': "t' = t\<lparr>ht_slots := (ht_slots t)[i := Some (s\<lparr>sl_next_free := None, sl_entry := Some e\<rparr>)],
            ht_free_head := sl_next_free s, ht_count := ht_count t + 1\<rparr>"
    by (auto simp: install_Some)
  show ?thesis
    unfolding t' entries_update [OF i] refs_drop_entry [OF d] s by (simp add: slot_ref_def)
qed

lemma free_slot_balance:
  assumes "free_slot i s st t = Some (st', t')" and "i < length (ht_slots t)"
    and "ht_slots t ! i = Some s"
  shows "int (refs st' k) - int (entries t' k) = int (refs st k) - int (entries t k)"
proof -
  from assms(1) have d: "drop_entry (sl_entry s) st = Some st'"
    and t': "t' = t\<lparr>ht_slots := (ht_slots t)[i := Some (s\<lparr>sl_entry := None,
            sl_generation := sl_generation s + 1, sl_next_free := ht_free_head t\<rparr>)],
          ht_free_head := Some i, ht_count := ht_count t - 1\<rparr>"
    by (auto simp: free_slot_Some)
  show ?thesis
    unfolding t' entries_update [OF assms(2)] refs_drop_entry [OF d] assms(3)
    by (simp add: slot_ref_def)
qed

lemma clone_balance:
  "KoRef_clone r st = Some (r, st') \<Longrightarrow> int (refs st' k) = int (refs st k) + of_bool (ko_ptr r = k)"
  by (auto dest!: refs_clone [where ob = k])

lemma drop_balance:
  "KoRef_drop r st = Some st' \<Longrightarrow> int (refs st' k) = int (refs st k) - of_bool (ko_ptr r = k)"
  by (auto dest!: refs_drop [where ob = k])

lemma create_balance:
  "HandleTable_create r rt (st, t) = Some (x, st', t') \<Longrightarrow>
     int (refs st' k) - int (entries t' k) =
     int (refs st k) - int (entries t k) - of_bool (ko_ptr r = k)"
  by (erule create_cases) (auto dest: install_balance [where k = k] drop_balance [where k = k])

lemma get_balance:
  "HandleTable_get h (st, t) = Some (x, st', t') \<Longrightarrow>
     int (refs st' k) - int (entries t' k) =
     int (refs st k) - int (entries t k) + handed (KGet a h) (RGet x) k"
  by (erule get_cases) (auto dest: clone_balance [where k = k])

lemma duplicate_balance:
  "HandleTable_duplicate h new (st, t) = Some (x, st', t') \<Longrightarrow>
     int (refs st' k) - int (entries t' k) = int (refs st k) - int (entries t k)"
  by (erule duplicate_cases)
    (auto dest!: install_balance [where k = k] clone_balance [where k = k])

lemma close_balance:
  "HandleTable_close h (st, t) = Some (x, st', t') \<Longrightarrow>
     int (refs st' k) - int (entries t' k) = int (refs st k) - int (entries t k)"
  by (erule close_cases) (auto simp: find_slot_Some dest!: free_slot_balance [where k = k])

lemma transfer_locked_balance:
  "transfer_locked h st t1 t2 = Some (x, st', t1', t2') \<Longrightarrow>
     int (refs st' k) - int (entries t1' k) - int (entries t2' k) =
     int (refs st k) - int (entries t1 k) - int (entries t2 k)"
  by (erule transfer_locked_cases)
    (auto simp: find_slot_Some dest!: free_slot_balance [where k = k]
      install_balance [where k = k] clone_balance [where k = k] drop_balance [where k = k])

lemma sum_upd:
  assumes "finite A" "a \<in> A"
  shows "(\<Sum>x\<in>A. int (f ((g(a := y)) x))) = (\<Sum>x\<in>A. int (f (g x))) - int (f (g a)) + int (f y)"
proof -
  have "(\<Sum>x\<in>A - {a}. int (f ((g(a := y)) x))) = (\<Sum>x\<in>A - {a}. int (f (g x)))"
    by (rule sum.cong) auto
  then show ?thesis
    using assms by (simp add: sum.remove [of A a])
qed

lemma outside_upd:
  assumes "finite A" "a \<in> A"
    and "ks' = ks\<lparr>ks_store := st', ks_tables := (ks_tables ks)(a := t')\<rparr>"
    and "int (refs st' k) - int (entries t' k) =
      int (refs (ks_store ks) k) - int (entries (ks_tables ks a) k) + d"
  shows "outside A ks' k = outside A ks k + d"
  using assms(4) sum_upd [OF assms(1,2), of "\<lambda>t. entries t k" "ks_tables ks" t']
  by (simp add: outside_def assms(3))

lemma outside_upd2:
  assumes "finite A" "c \<in> A" "d \<in> A" "c \<noteq> d"
    and "ks' = ks\<lparr>ks_store := st', ks_tables := (ks_tables ks)(c := t1, d := t2)\<rparr>"
    and "int (refs st' k) - int (entries t1 k) - int (entries t2 k) =
      int (refs (ks_store ks) k) - int (entries (ks_tables ks c) k) - int (entries (ks_tables ks d) k)"
  shows "outside A ks' k = outside A ks k"
  using assms(4,6) sum_upd [OF assms(1,2), of "\<lambda>t. entries t k" "ks_tables ks" t1]
    sum_upd [OF assms(1,3), of "\<lambda>t. entries t k" "(ks_tables ks)(c := t1)" t2]
  by (simp add: outside_def assms(5))

lemma kstep_balance:
  assumes "kstep op ks = Some (r, ks')" and A: "finite A" "tables_of op \<subseteq> A"
  shows "outside A ks' k = outside A ks k + handed op r k"
  using assms(1)
proof (cases rule: kstep_cases)
  case (1 a kr rt x st' t')
  then show ?thesis using A create_balance [OF 1(3), of k] outside_upd [OF _ _ 1(4)] by simp
next
  case (2 a h x st' t')
  then show ?thesis using A get_balance [OF 2(3), of k a] outside_upd [OF _ _ 2(4)] by simp
next
  case (3 a h rt x st' t')
  then show ?thesis
    using A duplicate_balance [OF 3(3), of k] outside_upd [OF _ _ 3(4), of A k 0] by simp
next
  case (4 a h x st' t')
  then show ?thesis
    using A close_balance [OF 4(3), of k] outside_upd [OF _ _ 4(4), of A k 0] by simp
next
  case (5 a h b x c d st' t1 t2)
  from 5(1,4) A have "c \<in> A" "d \<in> A" by auto
  then show ?thesis
    using 5(1,2) outside_upd2 [OF A(1) _ _ 5(3,6) transfer_locked_balance [OF 5(5)]] by simp
qed

text \<open>
  C13: reference accounting. Over any run, error paths included, every table entry stands for
  exactly one counted reference of its object: the references outside the tables change only
  by the ones given to \<open>create\<close> and the ones returned by \<open>get\<close>.
\<close>

theorem entries_are_references:
  assumes "run_ops kstep ops ks = Some (rs, ks')" and "finite A" "\<Union> (tables_of ` set ops) \<subseteq> A"
  shows "outside A ks' k = outside A ks k + (\<Sum>(op, r)\<leftarrow>zip ops rs. handed op r k)"
  using assms
proof (induction ops arbitrary: ks rs)
  case Nil
  then show ?case by simp
next
  case (Cons op ops)
  from Cons.prems(1) obtain r ks1 rs1 where "kstep op ks = Some (r, ks1)"
    and "run_ops kstep ops ks1 = Some (rs1, ks')" and "rs = r # rs1"
    by (auto simp only: run_ops_Cons_Some)
  with Cons.IH [of ks1 rs1] kstep_balance [of op ks r ks1 A k] Cons.prems(2,3)
  show ?case by simp
qed

section \<open>Closed handles stay dead\<close>

text \<open>Within \<open>d\<close> bumps: the slots of \<open>t\<close> are still there, their generations at most \<open>d\<close> later.\<close>

definition evolves :: "nat \<Rightarrow> handle_table \<Rightarrow> handle_table \<Rightarrow> bool" where
  "evolves d t t' \<longleftrightarrow> length (ht_slots t') = length (ht_slots t) \<and>
     (\<forall>i s. i < length (ht_slots t) \<longrightarrow> ht_slots t ! i = Some s \<longrightarrow>
       (\<exists>s' j. ht_slots t' ! i = Some s' \<and> j \<le> d \<and> sl_generation s' = sl_generation s + of_nat j))"

lemma evolves_refl: "evolves d t t"
  by (auto simp: evolves_def intro!: exI [of _ 0])

lemma evolves_trans:
  assumes "evolves d t t'" and "evolves d' t' t''"
  shows "evolves (d + d') t t''"
  unfolding evolves_def
proof (intro conjI allI impI)
  show "length (ht_slots t'') = length (ht_slots t)" using assms by (simp add: evolves_def)
  fix i s
  assume "i < length (ht_slots t)" "ht_slots t ! i = Some s"
  with assms(1) obtain s' j where "i < length (ht_slots t')" "ht_slots t' ! i = Some s'" "j \<le> d"
    "sl_generation s' = sl_generation s + of_nat j"
    unfolding evolves_def by metis
  moreover from this assms(2) obtain s'' j' where "ht_slots t'' ! i = Some s''" "j' \<le> d'"
    "sl_generation s'' = sl_generation s' + of_nat j'"
    unfolding evolves_def by metis
  ultimately show "\<exists>s'' j. ht_slots t'' ! i = Some s'' \<and> j \<le> d + d'
      \<and> sl_generation s'' = sl_generation s + of_nat j"
    by (intro exI [of _ s''] exI [of _ "j + j'"]) (simp add: add_ac)
qed

lemma evolves_update:
  assumes "i < length (ht_slots t)" "ht_slots t ! i = Some s"
    and "sl_generation s' = sl_generation s + of_nat j" "j \<le> d"
  shows "evolves d t (t\<lparr>ht_slots := (ht_slots t)[i := Some s'], ht_free_head := f, ht_count := c\<rparr>)"
  unfolding evolves_def
proof (intro conjI allI impI)
  fix i' s1
  assume "i' < length (ht_slots t)" "ht_slots t ! i' = Some s1"
  with assms show "\<exists>s'' j. ht_slots (t\<lparr>ht_slots := (ht_slots t)[i := Some s'], ht_free_head := f,
      ht_count := c\<rparr>) ! i' = Some s'' \<and> j \<le> d \<and> sl_generation s'' = sl_generation s1 + of_nat j"
    by (cases "i' = i") (auto intro: exI [of _ j] exI [of _ 0])
qed simp

lemma evolves_install: "install i e st t = Some (h, st', t') \<Longrightarrow> evolves d t t'"
  by (auto simp: install_Some intro!: evolves_update [where j = 0])

lemma evolves_free:
  "free_slot (Handle_index h) s st t = Some (st', t') \<Longrightarrow> find_slot t h = Some s \<Longrightarrow> evolves (Suc 0) t t'"
  by (auto simp: free_slot_Some find_slot_Some intro!: evolves_update [where j = 1])

lemma evolves_create: "HandleTable_create k r (st, t) = Some (x, st', t') \<Longrightarrow> evolves (Suc 0) t t'"
  by (erule create_cases) (auto intro: evolves_refl evolves_install)

lemma evolves_duplicate: "HandleTable_duplicate h r (st, t) = Some (x, st', t') \<Longrightarrow> evolves (Suc 0) t t'"
  by (erule duplicate_cases) (auto intro: evolves_refl evolves_install)

lemma evolves_close: "HandleTable_close h (st, t) = Some (x, st', t') \<Longrightarrow> evolves (Suc 0) t t'"
  by (erule close_cases) (auto intro: evolves_refl evolves_free)

lemma evolves_transfer:
  "transfer_locked h st t1 t2 = Some (x, st', t1', t2') \<Longrightarrow> evolves (Suc 0) t1 t1' \<and> evolves (Suc 0) t2 t2'"
  by (erule transfer_locked_cases) (auto intro: evolves_refl evolves_install evolves_free)

lemma evolves_kstep:
  assumes "kstep op ks = Some (r, ks')"
  shows "evolves (Suc 0) (ks_tables ks a) (ks_tables ks' a)"
  using assms
  by (cases rule: kstep_cases)
    (auto simp: evolves_refl dest: evolves_create get_caps evolves_duplicate evolves_close
      evolves_transfer)

lemma evolves_run:
  "run_ops kstep ops ks = Some (rs, ks') \<Longrightarrow>
     evolves (length ops) (ks_tables ks a) (ks_tables ks' a)"
proof (induction ops arbitrary: ks rs)
  case Nil
  then show ?case by (simp add: evolves_refl)
next
  case (Cons op ops)
  then show ?case
    using evolves_trans [OF evolves_kstep, of op ks] by (fastforce simp: run_ops_Cons_Some
        simp del: run_ops.simps(2))
qed

text \<open>
  C12: use after close is detected. Once a live handle of table \<open>a\<close> has been closed, \<open>get\<close> on it
  returns nothing after any further run of operations, as long as fewer than \<open>2 ^ 32 - 1\<close> of
  them happen (the generation of a slot is 32 bits wide and wraps).
\<close>

theorem closed_handle_stays_dead:
  assumes live: "ht_abs (ks_tables ks a) h \<noteq> None"
    and close: "kstep (KClose a h) ks = Some (RUnit (Inr ()), ks1)"
    and run: "run_ops kstep ops ks1 = Some (rs, ks2)"
    and few: "length ops < 2 ^ 32 - 1"
  shows "kstep (KGet a h) ks2 = Some (RGet None, ks2)"
proof -
  obtain st' t' where c: "HandleTable_close h (ks_store ks, ks_tables ks a) = Some (Inr (), st', t')"
    and ks1: "ks_tables ks1 a = t'"
    using close by (auto simp: on_table_Some)
  from c live obtain s where s: "find_slot (ks_tables ks a) h = Some s"
    and f: "free_slot (Handle_index h) s (ks_store ks) (ks_tables ks a) = Some (st', t')"
    by (auto elim!: close_cases simp: ht_abs_def)
  have i: "Handle_index h < length (ht_slots t')" and
    g: "\<exists>s1. ht_slots t' ! Handle_index h = Some s1 \<and> sl_generation s1 = Handle_generation h + 1"
    using s f by (auto simp: find_slot_Some free_slot_Some)
  obtain s2 j where s2: "ht_slots (ks_tables ks2 a) ! Handle_index h = Some s2"
    and j: "j \<le> length ops" "sl_generation s2 = Handle_generation h + 1 + of_nat j"
    using evolves_run [OF run, of a] i g unfolding ks1 evolves_def by metis
  have "(of_nat (Suc j) :: u32) \<noteq> 0"
    using j(1) few by (subst word_of_nat_eq_0_iff) (auto dest: nat_dvd_not_less [rotated 1] dvd_imp_le)
  then have "sl_generation s2 \<noteq> Handle_generation h"
    unfolding j(2) by (simp add: add.assoc)
  with s2 have "find_slot (ks_tables ks2 a) h = None"
    by (simp add: find_slot_def)
  then show ?thesis
    by (simp add: on_table_def HandleTable_get_def)
qed

section \<open>Corners of the interface\<close>

text \<open>
  a new table of \<open>n\<close> slots is well-formed and holds no handle, for every \<open>n\<close> from 1 to
  \<open>2 ^ 32\<close>; the table of capacity 0 starts with a free list that points at slot 0, so \<open>create\<close>
  on it panics instead of reporting \<open>TableFull\<close>.
\<close>

theorem HandleTable_new_empty:
  "if n = 0 then HandleTable_create k r (st, HandleTable_new n) = None
   else n \<le> 2 ^ 32 \<longrightarrow> wf_table (HandleTable_new n) \<and> ht_abs (HandleTable_new n) = Map.empty
     \<and> \<not> ht_full (HandleTable_new n)"
proof (cases "n = 0")
  case True
  then show ?thesis
    by (simp add: HandleTable_create_def HandleTable_new_def install_def idx_def)
next
  case False
  then show ?thesis
    using HandleTable_new_wf_free [of n]
    by (auto simp: wf_table_def ht_full_def HandleTable_new_def ht_abs_def find_slot_def
        split: if_splits)
qed

text \<open>
  \<open>transfer\<close> does not know which table it was called on. Its result is the same with the
  two tables exchanged, so when the destination has the lower address the handle is looked up
  in the destination: a live handle of the calling table that names nothing there is invalid.
\<close>

theorem transfer_ignores_direction:
  assumes "self \<noteq> dest"
  shows "HandleTable_transfer self h dest ks = HandleTable_transfer dest h self ks
    \<and> (ht_abs (ks_tables ks (min self dest)) h = None \<longrightarrow>
        HandleTable_transfer self h dest ks = Some (Inl InvalidHandle, ks))"
proof -
  have "transfer_locked h st t1 t2 = Some (Inl InvalidHandle, st, t1, t2)" if "ht_abs t1 h = None"
    for st t1 t2
    using iffD1 [OF ht_abs_None_cases that] by (auto simp: transfer_locked_def)
  with assms show ?thesis
    by (auto simp: HandleTable_transfer_def min_def)
qed

section \<open>Witnesses\<close>

definition demo_sys :: ksys where
  "demo_sys = \<lparr>ks_store = demo_store, ks_tables = (\<lambda>_. HandleTable_new 1)(3 := demo_table)\<rparr>"

lemmas demo_eval =
  on_table_def HandleTable_create_def HandleTable_duplicate_def HandleTable_close_def
  HandleTable_get_def find_slot_def install_def free_slot_def drop_entry_def idx_def
  usize_add_def usize_sub_def KoRef_clone_def KoRef_drop_def KoRef_header_def
  ObjectHeader_add_ref_def ObjectHeader_release_def ObjectHeader_new_def Let_def
  demo_sys_def demo_store_def demo_table_def demo_handle_def Handle_index_def
  Handle_generation_def low32_def high32_def mk_handle_def pack32_def word_less_nat_alt
  Rights_contains_def Rights_consts Rights_downgrade_def Rights_intersection_def

lemma demo_run:
  "run_ops kstep [KDuplicate 3 demo_handle Rights_READ] demo_sys =
     Some ([RHandle (Inr (Handle 1))],
       \<lparr>ks_store = demo_store\<lparr>os_objs := (os_objs demo_store)(7 :=
            (os_objs demo_store 7)\<lparr>oh_refcount := 2\<rparr>)\<rparr>,
        ks_tables = (ks_tables demo_sys)(3 := demo_table\<lparr>ht_slots := (ht_slots demo_table)
            [1 := Some \<lparr>sl_generation = 0,
              sl_entry = Some \<lparr>he_ko_ref = KoRef 7, he_rights = Rights_READ\<rparr>,
              sl_next_free = None\<rparr>], ht_free_head := None, ht_count := 1 + 1\<rparr>)\<rparr>)"
  by (simp add: demo_eval inf_rights_def)

theorem rights_never_amplified_witness:
  "\<exists>rs ks' q. run_ops kstep [KDuplicate 3 demo_handle Rights_READ] demo_sys = Some (rs, ks')
    \<and> (7, Rights_READ) \<in> caps ks' \<and> (7, q) \<in> caps demo_sys \<and> Rights_READ \<le> q"
proof -
  have "(7, Rights_READ) \<in> caps \<lparr>ks_store = demo_store\<lparr>os_objs := (os_objs demo_store)(7 :=
            (os_objs demo_store 7)\<lparr>oh_refcount := 2\<rparr>)\<rparr>,
        ks_tables = (ks_tables demo_sys)(3 := demo_table\<lparr>ht_slots := (ht_slots demo_table)
            [1 := Some \<lparr>sl_generation = 0,
              sl_entry = Some \<lparr>he_ko_ref = KoRef 7, he_rights = Rights_READ\<rparr>,
              sl_next_free = None\<rparr>], ht_free_head := None, ht_count := 1 + 1\<rparr>)\<rparr>"
    by (auto simp: caps_def table_caps_def demo_table_def
        intro!: exI [of _ 3] exI [of _ "\<lparr>he_ko_ref = KoRef 7, he_rights = Rights_READ\<rparr>"])
  from rights_never_amplified [OF demo_run this] demo_run this show ?thesis by auto
qed

theorem entries_are_references_witness:
  "\<exists>ks'. run_ops kstep [KDuplicate 3 demo_handle Rights_READ] demo_sys =
      Some ([RHandle (Inr (Handle 1))], ks') \<and> outside {3} ks' 7 = outside {3} demo_sys 7"
  using entries_are_references [OF demo_run, of "{3}" 7] demo_run by auto

theorem closed_handle_stays_dead_witness:
  "\<exists>ks1 rs ks2. kstep (KClose 3 demo_handle) demo_sys = Some (RUnit (Inr ()), ks1)
    \<and> run_ops kstep [KCreate 3 (KoRef 9) Rights_ALL] ks1 = Some (rs, ks2)
    \<and> kstep (KGet 3 demo_handle) ks2 = Some (RGet None, ks2)"
proof -
  have "\<exists>ks1. kstep (KClose 3 demo_handle) demo_sys = Some (RUnit (Inr ()), ks1)
      \<and> (\<exists>rs ks2. run_ops kstep [KCreate 3 (KoRef 9) Rights_ALL] ks1 = Some (rs, ks2))"
    by (simp add: demo_eval)
  then obtain ks1 rs ks2 where c: "kstep (KClose 3 demo_handle) demo_sys = Some (RUnit (Inr ()), ks1)"
    and r: "run_ops kstep [KCreate 3 (KoRef 9) Rights_ALL] ks1 = Some (rs, ks2)" by blast
  have "ht_abs (ks_tables demo_sys 3) demo_handle \<noteq> None"
    by (simp add: demo_sys_def demo_abs)
  from closed_handle_stays_dead [OF this c r] c r show ?thesis by auto
qed

theorem HandleTable_new_empty_witness:
  "wf_table (HandleTable_new 4) \<and> HandleTable_create (KoRef 0) Rights_ALL (demo_store, HandleTable_new 0) = None"
  using HandleTable_new_empty [of 4] HandleTable_new_empty [of 0 "KoRef 0" Rights_ALL demo_store]
  by simp

theorem transfer_ignores_direction_witness:
  "ht_abs (ks_tables demo_sys 3) demo_handle \<noteq> None
   \<and> HandleTable_transfer 3 demo_handle 0 demo_sys = Some (Inl InvalidHandle, demo_sys)"
proof -
  have "ht_abs (ks_tables demo_sys 0) demo_handle = None"
    by (simp add: demo_sys_def ht_abs_def find_slot_def HandleTable_new_def)
  then show ?thesis
    using transfer_ignores_direction [of 3 0 demo_handle demo_sys, THEN conjunct2] demo_abs
    by (simp add: demo_sys_def)
qed

end
