(* ===== verification/TableSafety.thy ===== *)
theory TableSafety
  imports Capabilities "HOL-Library.Multiset"
begin

text \<open>
  Memory safety of \<open>src/object/handle.rs\<close> over \<open>src/object/kernel_object.rs\<close>: the invariant of all
  handle tables together with the object store, and that callers which own the references they
  give away never make a table operation panic, nor an object die that a handle still names.
\<close>

section \<open>The object store\<close>

text \<open>An object is destroyed at most once, and what is destroyed has no references left.\<close>

definition store_ok :: "object_store \<Rightarrow> bool" where
  "store_ok st \<longleftrightarrow> distinct (os_destroyed st) \<and> (\<forall>k \<in> set (os_destroyed st). refs st k = 0)"

text \<open>A change of the store that keeps it so and adds at most \<open>n\<close> references to an object.\<close>

definition store_moves :: "nat \<Rightarrow> object_store \<Rightarrow> object_store \<Rightarrow> bool" where
  "store_moves n st st' \<longleftrightarrow> (store_ok st \<longrightarrow> store_ok st') \<and> (\<forall>k. refs st' k \<le> refs st k + n)"

lemma store_moves_refl: "store_moves n st st"
  by (simp add: store_moves_def)

lemma store_moves_trans:
  assumes "store_moves m st st'" "store_moves n st' st''" "m + n \<le> l"
  shows "store_moves l st st''"
proof -
  have "refs st'' k \<le> refs st k + l" for k
    using assms(3) spec [OF conjunct2 [OF assms(1) [unfolded store_moves_def]], of k]
      spec [OF conjunct2 [OF assms(2) [unfolded store_moves_def]], of k] by linarith
  with assms(1,2) show ?thesis by (simp add: store_moves_def)
qed

lemma store_moves_clone: "KoRef_clone r st = Some (r', st') \<Longrightarrow> store_moves (Suc 0) st st'"
proof -
  assume c: "KoRef_clone r st = Some (r', st')"
  note f = refs_clone [OF c]
  have "refs st' k \<le> refs st k + 1" "refs st k = 0 \<Longrightarrow> refs st' k = 0" for k
    using f [of k] by (auto split: if_splits)
  with f show ?thesis by (auto simp: store_moves_def store_ok_def)
qed

lemma store_moves_drop: "KoRef_drop r st = Some st' \<Longrightarrow> store_moves 0 st st'"
proof -
  assume d: "KoRef_drop r st = Some st'"
  note f = refs_drop [OF d]
  have "ko_ptr r \<notin> set (os_destroyed st)" if "store_ok st"
    using f [of "ko_ptr r"] that by (auto simp: store_ok_def)
  moreover have "refs st' k \<le> refs st k" "refs st k = 0 \<Longrightarrow> refs st' k = 0" for k using f [of k] by simp_all
  ultimately show ?thesis
    using f [of "ko_ptr r"] unfolding store_moves_def store_ok_def by (auto split: if_splits)
qed

lemma store_moves_drop_entry: "drop_entry e st = Some st' \<Longrightarrow> store_moves 0 st st'"
  by (auto simp: drop_entry_def store_moves_refl split: option.splits intro: store_moves_drop)

lemma store_moves_install: "install i e st t = Some (h, st', t') \<Longrightarrow> store_moves 0 st st'"
  by (auto simp: install_Some intro: store_moves_drop_entry)

lemma store_moves_free: "free_slot i s st t = Some (st', t') \<Longrightarrow> store_moves 0 st st'"
  by (auto simp: free_slot_Some intro: store_moves_drop_entry)

lemmas store_moves_parts = store_moves_clone store_moves_drop store_moves_install store_moves_free
  store_moves_refl

lemma store_moves_weaken: "store_moves m st st' \<Longrightarrow> m \<le> n \<Longrightarrow> store_moves n st st'"
  by (rule store_moves_trans [OF _ store_moves_refl [of 0]]) simp_all

lemma store_moves_create:
  "HandleTable_create k r (st, t) = Some (x, st', t') \<Longrightarrow> store_moves (Suc 0) st st'"
  by (erule create_cases) (auto intro: store_moves_weaken store_moves_parts)

lemma store_moves_get: "HandleTable_get h (st, t) = Some (x, st', t') \<Longrightarrow> store_moves (Suc 0) st st'"
  by (erule get_cases) (auto intro: store_moves_parts)

lemma store_moves_duplicate:
  "HandleTable_duplicate h r (st, t) = Some (x, st', t') \<Longrightarrow> store_moves (Suc 0) st st'"
  by (erule duplicate_cases)
    (auto intro: store_moves_refl store_moves_trans [OF store_moves_clone store_moves_install])

lemma store_moves_close: "HandleTable_close h (st, t) = Some (x, st', t') \<Longrightarrow> store_moves (Suc 0) st st'"
  by (erule close_cases) (auto intro: store_moves_weaken store_moves_parts)

lemma store_moves_transfer:
  "transfer_locked h st t1 t2 = Some (x, st', t1', t2') \<Longrightarrow> store_moves (Suc 0) st st'"
proof (erule transfer_locked_cases)
  fix e st1
  assume "KoRef_clone (he_ko_ref (e :: handle_entry)) st = Some (he_ko_ref e, st1)" "KoRef_drop (he_ko_ref e) st1 = Some st'"
  then show ?thesis by (intro store_moves_trans [OF store_moves_clone store_moves_drop]) simp_all
next
  fix s e i h' st1 st2
  assume "KoRef_clone (he_ko_ref (e :: handle_entry)) st = Some (he_ko_ref e, st1)" "install i e st1 t2 = Some (h', st2, t2')"
    "free_slot (Handle_index h) s st2 t1 = Some (st', t1')"
  note m = store_moves_clone [OF this(1)] store_moves_install [OF this(2)] store_moves_free [OF this(3)]
  show ?thesis by (rule store_moves_trans [OF store_moves_trans [OF m(1,2) order_refl] m(3)]) simp
qed (auto intro: store_moves_parts)

lemma kstep_store_moves:
  assumes "kstep x ks = Some (r, ks')"
  shows "store_moves (Suc 0) (ks_store ks) (ks_store ks')"
  using assms
  by (cases rule: kstep_cases)
    (auto intro: store_moves_create store_moves_get store_moves_duplicate store_moves_close store_moves_transfer)

section \<open>Operations on well-formed tables return\<close>

text \<open>What \<open>h\<close> names in \<open>t\<close> can be cloned and dropped.\<close>

definition usable :: "object_store \<Rightarrow> handle_table \<Rightarrow> handle \<Rightarrow> bool" where
  "usable st t h \<longleftrightarrow> (\<forall>e. ht_abs t h = Some e \<longrightarrow>
     0 < refs st (ko_ptr (he_ko_ref e)) \<and> refs st (ko_ptr (he_ko_ref e)) < 2 ^ 32 - 2)"

lemma usable_clone:
  assumes "usable st t h" "find_slot t h = Some s" "sl_entry s = Some e"
  obtains st1 st2 where "KoRef_clone (he_ko_ref e) st = Some (he_ko_ref e, st1)"
    "KoRef_drop (he_ko_ref e) st1 = Some st2"
proof -
  have "ht_abs t h = Some e" using assms(2,3) by (auto simp: ht_abs_Some_cases)
  with assms(1) obtain st1 where st1: "KoRef_clone (he_ko_ref e) st = Some (he_ko_ref e, st1)"
    by (auto simp: usable_def KoRef_clone_Some)
  from refs_clone [OF st1, of "ko_ptr (he_ko_ref e)"] have "\<exists>st2. KoRef_drop (he_ko_ref e) st1 = Some st2"
    by (simp add: KoRef_drop_Some)
  with st1 that show ?thesis by blast
qed

lemma create_total:
  assumes "wf_table t" "0 < refs st (ko_ptr k)"
  shows "\<exists>x st' t'. HandleTable_create k r (st, t) = Some (x, st', t') \<and> wf_table t'"
proof (cases "ht_free_head t")
  case None
  moreover from assms(2) have "\<exists>st'. KoRef_drop k st = Some st'" by (simp add: KoRef_drop_Some)
  ultimately show ?thesis using assms(1) by (auto simp: HandleTable_create_def)
next
  case (Some i)
  with install_wf_table [OF assms(1) Some, of "\<lparr>he_ko_ref = k, he_rights = r\<rparr>" st] show ?thesis
    by (auto simp: HandleTable_create_def)
qed

lemma get_total:
  assumes "wf_table t" "usable st t h"
  shows "\<exists>x st' t'. HandleTable_get h (st, t) = Some (x, st', t') \<and> wf_table t'"
proof (cases "\<exists>s e. find_slot t h = Some s \<and> sl_entry s = Some e")
  case True
  then obtain s e where s: "find_slot t h = Some s" "sl_entry s = Some e" by blast
  from usable_clone [OF assms(2) s] obtain st1 where "KoRef_clone (he_ko_ref e) st = Some (he_ko_ref e, st1)"
    by metis
  with s assms(1) show ?thesis by (simp add: HandleTable_get_def)
qed (use assms in \<open>auto simp: HandleTable_get_def split: option.split\<close>)

lemma duplicate_total:
  assumes "wf_table t" "usable st t h"
  shows "\<exists>x st' t'. HandleTable_duplicate h r (st, t) = Some (x, st', t') \<and> wf_table t'"
proof (cases "\<exists>s e. find_slot t h = Some s \<and> sl_entry s = Some e")
  case True
  then obtain s e where s: "find_slot t h = Some s" "sl_entry s = Some e" by blast
  from usable_clone [OF assms(2) s] obtain st1 where st1: "KoRef_clone (he_ko_ref e) st = Some (he_ko_ref e, st1)"
    by metis
  show ?thesis
  proof (cases "ht_free_head t")
    case (Some i)
    from install_wf_table [OF assms(1) Some, of "\<lparr>he_ko_ref = he_ko_ref e, he_rights = Rights_downgrade (he_rights e) r\<rparr>" st1]
    show ?thesis using s st1 Some assms(1) by (auto simp: HandleTable_duplicate_def)
  qed (use s st1 assms(1) in \<open>auto simp: HandleTable_duplicate_def\<close>)
qed (use assms in \<open>auto simp: HandleTable_duplicate_def split: option.split\<close>)

lemma close_total:
  assumes "wf_table t" "usable st t h"
  shows "\<exists>x st' t'. HandleTable_close h (st, t) = Some (x, st', t') \<and> wf_table t'"
proof (cases "\<exists>s e. find_slot t h = Some s \<and> sl_entry s = Some e")
  case True
  then obtain s e where s: "find_slot t h = Some s" "sl_entry s = Some e" by blast
  then have "ht_abs t h = Some e" by (auto simp: ht_abs_Some_cases)
  with assms(2) obtain st' where st': "KoRef_drop (he_ko_ref e) st = Some st'" by (auto simp: usable_def KoRef_drop_Some)
  from free_slot_wf_table [OF assms(1) s st'] s show ?thesis by (auto simp: HandleTable_close_def)
qed (use assms in \<open>auto simp: HandleTable_close_def split: option.split\<close>)

lemma transfer_total:
  assumes "wf_table t1" "wf_table t2" "usable st t1 h"
  shows "\<exists>x st' t1' t2'. transfer_locked h st t1 t2 = Some (x, st', t1', t2') \<and> wf_table t1' \<and> wf_table t2'"
proof (cases "\<exists>s e. find_slot t1 h = Some s \<and> sl_entry s = Some e")
  case True
  then obtain s e where s: "find_slot t1 h = Some s" "sl_entry s = Some e" by blast
  from usable_clone [OF assms(3) s] obtain st1 st2 where st1: "KoRef_clone (he_ko_ref e) st = Some (he_ko_ref e, st1)"
    and st2: "KoRef_drop (he_ko_ref e) st1 = Some st2" by metis
  show ?thesis
  proof (cases "ht_free_head t2")
    case (Some i)
    from install_wf_table [OF assms(2) Some, of "\<lparr>he_ko_ref = he_ko_ref e, he_rights = he_rights e\<rparr>" st1] free_slot_wf_table [OF assms(1) s st2]
    show ?thesis using s st1 Some assms(1,2) by (auto simp: transfer_locked_def)
  qed (use s st1 st2 assms in \<open>auto simp: transfer_locked_def\<close>)
qed (use assms in \<open>auto simp: transfer_locked_def split: option.split\<close>)

section \<open>The system\<close>

text \<open>The tables at the addresses \<open>A\<close> and the store: every table entry has its reference.\<close>

definition sys_ok :: "addr set \<Rightarrow> ksys \<Rightarrow> bool" where
  "sys_ok A ks \<longleftrightarrow> finite A \<and> (\<forall>a \<in> A. wf_table (ks_tables ks a)) \<and> store_ok (ks_store ks)
     \<and> (\<forall>k. 0 \<le> outside A ks k)"

lemma sys_okD:
  assumes "sys_ok A ks"
  shows "finite A" "a \<in> A \<Longrightarrow> wf_table (ks_tables ks a)" "store_ok (ks_store ks)" "0 \<le> outside A ks k"
  using assms by (simp_all add: sys_ok_def)

lemma entries_pos:
  assumes "ht_abs t h = Some e"
  shows "0 < entries t (ko_ptr (he_ko_ref e))"
proof -
  from assms obtain s where s: "Handle_index h < length (ht_slots t)" "ht_slots t ! Handle_index h = Some s"
    "sl_entry s = Some e" by (auto simp: ht_abs_Some_cases find_slot_Some)
  then have "Some s \<in> set (ht_slots t)" by (metis nth_mem)
  with s(3) have "filter (\<lambda>x. slot_ref x = Some (ko_ptr (he_ko_ref e))) (ht_slots t) \<noteq> []"
    by (force simp: filter_empty_conv slot_ref_def)
  then show ?thesis by (simp add: entries_def)
qed

lemma entry_refs:
  assumes "sys_ok A ks" "a \<in> A" "ht_abs (ks_tables ks a) h = Some e"
  shows "0 < refs (ks_store ks) (ko_ptr (he_ko_ref e))"
proof -
  let ?k = "ko_ptr (he_ko_ref e)"
  have "int (entries (ks_tables ks a) ?k) \<le> (\<Sum>a\<in>A. int (entries (ks_tables ks a) ?k))"
    by (rule member_le_sum) (use assms(2) sys_okD(1) [OF assms(1)] in auto)
  with entries_pos [OF assms(3)] sys_okD(4) [OF assms(1), of ?k] show ?thesis
    by (simp add: outside_def)
qed

lemma entry_not_destroyed:
  assumes "sys_ok A ks" "a \<in> A" "ht_abs (ks_tables ks a) h = Some e"
  shows "ko_ptr (he_ko_ref e) \<notin> set (os_destroyed (ks_store ks))"
  using entry_refs [OF assms] sys_okD(3) [OF assms(1)] by (auto simp: store_ok_def)

text \<open>
  The operations that callers may run: on tables of the system, no transfer from a table to itself,
  every \<open>create\<close> with a reference that its caller owns, and no counter near its end.
\<close>

fun self_transfer :: "kop \<Rightarrow> bool" where
  "self_transfer (KTransfer self h dest) \<longleftrightarrow> self = dest"
| "self_transfer _ \<longleftrightarrow> False"

fun gives :: "addr \<Rightarrow> kop \<Rightarrow> bool" where
  "gives k (KCreate a r rt) \<longleftrightarrow> ko_ptr r = k"
| "gives k _ \<longleftrightarrow> False"

definition creates :: "addr \<Rightarrow> kop list \<Rightarrow> nat" where
  "creates k ops = length (filter (gives k) ops)"

definition allowed :: "addr set \<Rightarrow> ksys \<Rightarrow> kop list \<Rightarrow> bool" where
  "allowed A ks ops \<longleftrightarrow> \<Union> (tables_of ` set ops) \<subseteq> A \<and> list_all (\<lambda>x. \<not> self_transfer x) ops
     \<and> (\<forall>k. int (creates k ops) \<le> outside A ks k) \<and> (\<forall>k. refs (ks_store ks) k + length ops < 2 ^ 32 - 2)"

lemma handed_ge: "- of_bool (gives k x) \<le> handed x r k"
  by (cases "(x, r, k)" rule: handed.cases) auto

lemma kstep_wf:
  assumes "sys_ok A ks" "allowed A ks (x # ops)"
  shows "\<exists>r ks'. kstep x ks = Some (r, ks') \<and> (\<forall>a \<in> A. wf_table (ks_tables ks' a))"
proof -
  note wf = sys_okD(2) [OF assms(1)]
  have small: "refs (ks_store ks) k < 2 ^ 32 - 2" for k
    using assms(2) unfolding allowed_def by (metis add_lessD1)
  then have us: "usable (ks_store ks) (ks_tables ks a) h" if "a \<in> A" for a h
    using that entry_refs [OF assms(1)] by (auto simp: usable_def)
  from assms(2) have A: "tables_of x \<subseteq> A" and x: "\<not> self_transfer x" and own: "int (creates k (x # ops)) \<le> outside A ks k" for k
    by (auto simp: allowed_def)
  show ?thesis
  proof (cases x)
    case (KCreate a k r)
    have "0 < outside A ks (ko_ptr k)" using own [of "ko_ptr k"] KCreate by (simp add: creates_def)
    then have "0 < refs (ks_store ks) (ko_ptr k)"
      using sum_nonneg [of A "\<lambda>a. int (entries (ks_tables ks a) (ko_ptr k))"] by (simp add: outside_def)
    with create_total [of "ks_tables ks a" "ks_store ks" k r] wf A KCreate show ?thesis
      by (fastforce simp: on_table_def)
  next
    case (KGet a h)
    with get_total [of "ks_tables ks a" "ks_store ks" h] wf us A show ?thesis by (fastforce simp: on_table_def)
  next
    case (KDuplicate a h r)
    with duplicate_total [of "ks_tables ks a" "ks_store ks" h r] wf us A show ?thesis by (fastforce simp: on_table_def)
  next
    case (KClose a h)
    with close_total [of "ks_tables ks a" "ks_store ks" h] wf us A show ?thesis by (fastforce simp: on_table_def)
  next
    case (KTransfer a h b)
    with transfer_total [of "ks_tables ks a" "ks_tables ks b" "ks_store ks" h]
      transfer_total [of "ks_tables ks b" "ks_tables ks a" "ks_store ks" h] wf us A x show ?thesis
      by (fastforce simp: HandleTable_transfer_def Let_def)
  qed
qed

lemma kstep_allowed:
  assumes "sys_ok A ks" "allowed A ks (x # ops)"
  shows "\<exists>r ks'. kstep x ks = Some (r, ks') \<and> sys_ok A ks' \<and> allowed A ks' ops"
proof -
  from kstep_wf [OF assms] obtain r ks' where s: "kstep x ks = Some (r, ks')" "\<forall>a \<in> A. wf_table (ks_tables ks' a)"
    by blast
  note m = kstep_store_moves [OF s(1)]
  have own: "int (creates k ops) \<le> outside A ks' k" for k
  proof -
    from assms(2) have "int (creates k (x # ops)) \<le> outside A ks k" "tables_of x \<subseteq> A" by (auto simp: allowed_def)
    with kstep_balance [OF s(1) sys_okD(1) [OF assms(1)], of k] handed_ge [of k x r] show ?thesis
      by (auto simp: creates_def split: if_splits)
  qed
  have "0 \<le> outside A ks' k" for k using own [of k] by linarith
  moreover have "refs (ks_store ks') k + length ops < 2 ^ 32 - 2" for k
  proof -
    from m have "refs (ks_store ks') k \<le> refs (ks_store ks) k + 1" by (simp add: store_moves_def)
    moreover from assms(2) have "refs (ks_store ks) k + length (x # ops) < 2 ^ 32 - 2" unfolding allowed_def by blast
    ultimately show ?thesis by simp
  qed
  moreover have "store_ok (ks_store ks')" using m sys_okD(3) [OF assms(1)] by (simp add: store_moves_def)
  ultimately show ?thesis
    using s own assms by (auto simp: sys_ok_def allowed_def)
qed

lemma run_allowed:
  "sys_ok A ks \<Longrightarrow> allowed A ks ops \<Longrightarrow> \<exists>rs ks'. run_ops kstep ops ks = Some (rs, ks') \<and> sys_ok A ks'"
proof (induction ops arbitrary: ks)
  case (Cons x ops)
  from kstep_allowed [OF Cons.prems] obtain r ks1 where s: "kstep x ks = Some (r, ks1)" "sys_ok A ks1" "allowed A ks1 ops"
    by blast
  from Cons.IH [OF s(2,3)] obtain rs ks' where "run_ops kstep ops ks1 = Some (rs, ks')" "sys_ok A ks'" by blast
  with s(1) show ?case by (simp add: run_ops_Cons_Some del: run_ops.simps kstep.simps)
qed simp

text \<open>Fewer operations in another order are allowed as well.\<close>

lemma allowed_subset:
  assumes "mset ops \<subseteq># mset ops'" "allowed A ks ops'"
  shows "allowed A ks ops"
proof -
  have "creates k ops \<le> creates k ops'" for k
    using size_mset_mono [OF multiset_filter_mono [OF assms(1), of "gives k"]]
    by (simp add: creates_def flip: mset_filter)
  moreover have "length ops \<le> length ops'" using size_mset_mono [OF assms(1)] by simp
  moreover have "set ops \<subseteq> set ops'" using set_mset_mono [OF assms(1)] by simp
  moreover from this have "\<Union> (tables_of ` set ops) \<subseteq> \<Union> (tables_of ` set ops')" by blast
  moreover from assms(2) have "int (creates k ops') \<le> outside A ks k"
    "refs (ks_store ks) k + length ops' < 2 ^ 32 - 2" for k unfolding allowed_def by blast+
  ultimately show ?thesis
    using assms(2) unfolding allowed_def list_all_iff
    by (meson add_left_mono dual_order.trans of_nat_mono order_le_less_trans subsetD)
qed

section \<open>What holds of every run\<close>

text \<open>
  C3: Memory safety of the handle tables. From a system in which every table entry has its reference,
  no run of allowed operations panics, whatever handles and rights the callers make up. Each object is
  destroyed at most once, and never while a handle of some table names it; all tables stay well-formed.
\<close>

theorem table_operations_safe:
  assumes "sys_ok A ks" "allowed A ks ops"
  shows "\<exists>rs ks'. run_ops kstep ops ks = Some (rs, ks') \<and> sys_ok A ks' \<and> distinct (os_destroyed (ks_store ks'))
    \<and> (\<forall>a \<in> A. wf_table (ks_tables ks' a) \<and> (\<forall>h e. ht_abs (ks_tables ks' a) h = Some e \<longrightarrow>
        ko_ptr (he_ko_ref e) \<notin> set (os_destroyed (ks_store ks')) \<and> 0 < refs (ks_store ks') (ko_ptr (he_ko_ref e))))"
proof -
  from run_allowed [OF assms] obtain rs ks' where r: "run_ops kstep ops ks = Some (rs, ks')" "sys_ok A ks'" by blast
  with entry_not_destroyed [OF r(2)] entry_refs [OF r(2)] show ?thesis
    by (auto simp: sys_ok_def store_ok_def)
qed

section \<open>Witnesses\<close>

lemma demo_outside: "outside {3, 5} demo_sys k = of_bool (k \<noteq> 7)"
  by (simp add: outside_def demo_sys_def demo_refs entries_def demo_table_def HandleTable_new_def slot_ref_def)

lemma demo_sys_ok: "sys_ok {3, 5} demo_sys"
proof -
  have "wf_table (HandleTable_new 1)" using HandleTable_new_wf_free [of 1] by (auto simp: wf_table_def)
  moreover have "store_ok demo_store" by (simp add: store_ok_def demo_store_def)
  ultimately show ?thesis
    using demo_table_wf demo_outside by (simp add: sys_ok_def) (simp add: demo_sys_def)
qed

lemma demo_allowed_iff:
  "allowed {3, 5} demo_sys ops \<longleftrightarrow> \<Union> (tables_of ` set ops) \<subseteq> {3, 5} \<and> list_all (\<lambda>x. \<not> self_transfer x) ops
     \<and> (\<forall>k. creates k ops \<le> of_bool (k \<noteq> 7)) \<and> length ops + 1 < 2 ^ 32 - 2"
proof -
  have "refs (ks_store demo_sys) k = 1" for k using demo_refs [of k] by (simp add: demo_sys_def)
  moreover have "int m \<le> of_bool (k \<noteq> (7 :: addr)) \<longleftrightarrow> m \<le> of_bool (k \<noteq> 7)" for m k by simp
  ultimately show ?thesis by (simp only: allowed_def demo_outside add.commute [of 1])
    (simp only: simp_thms)
qed

lemma demo_allowed: "allowed {3, 5} demo_sys [KTransfer 3 demo_handle 5, KTransfer 5 (Handle 5) 3]"
  by (simp add: demo_allowed_iff creates_def)

text \<open>Close the only handle, use it again, and hand in an object of one's own.\<close>

theorem table_operations_safe_witness:
  "\<exists>rs ks'. run_ops kstep [KClose 3 demo_handle, KDuplicate 3 demo_handle Rights_READ, KCreate 5 (KoRef 9) Rights_READ,
      KTransfer 3 demo_handle 5] demo_sys = Some (rs, ks') \<and> sys_ok {3, 5} ks' \<and> distinct (os_destroyed (ks_store ks'))"
proof -
  have "allowed {3, 5} demo_sys [KClose 3 demo_handle, KDuplicate 3 demo_handle Rights_READ, KCreate 5 (KoRef 9) Rights_READ,
      KTransfer 3 demo_handle 5]" by (simp add: demo_allowed_iff creates_def)
  from table_operations_safe [OF demo_sys_ok this] show ?thesis by blast
qed

end
