(* ===== verification/TableLocks.thy ===== *)
theory TableLocks
  imports TableSafety
begin

text \<open>
  The locks of the handle tables, \<open>src/object/handle.rs\<close>: threads on different cores run table
  operations, each of which takes the locks of its tables one after the other, works, and releases
  them when its guards go out of scope. A lock is a flag here (its inside is the subject of
  \<open>Spinlock\<close>), a thread that finds it taken spins, and the work under the locks is one step. This
  is what the atomic operations of \<open>Handles\<close> and \<open>Capabilities\<close> rest on.
\<close>

section \<open>Threads and locks\<close>

text \<open>
  The locks of an operation in the order in which it takes them: \<open>transfer\<close> starts with the table at
  the lower address.
\<close>

fun op_locks :: "kop \<Rightarrow> addr list" where
  "op_locks (KCreate a k r) = [a]"
| "op_locks (KGet a h) = [a]"
| "op_locks (KDuplicate a h r) = [a]"
| "op_locks (KClose a h) = [a]"
| "op_locks (KTransfer self h dest) = (if self < dest then [self, dest] else [dest, self])"

text \<open>A thread in an operation: the locks it still has to take, and those it holds.\<close>

datatype lk_pc = LIdle | LBusy kop "addr list" "addr list"

record lk =
  lk_ks :: ksys
  lk_threads :: "lk_pc list"
  lk_log :: "(kop \<times> kres) list"

fun lk_holds :: "lk_pc \<Rightarrow> addr set" where
  "lk_holds LIdle = {}"
| "lk_holds (LBusy x todo held) = set held"

definition lk_taken :: "addr \<Rightarrow> lk \<Rightarrow> bool" where
  "lk_taken l s \<longleftrightarrow> list_ex (\<lambda>t. l \<in> lk_holds t) (lk_threads s)"

datatype lk_event = Call nat kop | Go nat

definition lk_set :: "nat \<Rightarrow> lk_pc \<Rightarrow> lk \<Rightarrow> lk" where
  "lk_set i t s = s\<lparr>lk_threads := (lk_threads s)[i := t]\<rparr>"

text \<open>What thread \<open>i\<close> does next: take the next lock or spin on it, or work and release.\<close>

fun lk_go :: "nat \<Rightarrow> lk_pc \<Rightarrow> lk \<Rightarrow> lk option" where
  "lk_go i LIdle s = Some s"
| "lk_go i (LBusy x (l # ls) held) s = Some (if lk_taken l s then s else lk_set i (LBusy x ls (l # held)) s)"
| "lk_go i (LBusy x [] held) s = do { (r, ks) \<leftarrow> kstep x (lk_ks s);
     Some (lk_set i LIdle (s\<lparr>lk_ks := ks, lk_log := lk_log s @ [(x, r)]\<rparr>)) }"

fun lk_step :: "lk_event \<Rightarrow> lk \<Rightarrow> lk option" where
  "lk_step (Call i x) s = Some (if i < length (lk_threads s) \<and> lk_threads s ! i = LIdle
     then lk_set i (LBusy x (op_locks x) []) s else s)"
| "lk_step (Go i) s = (if i < length (lk_threads s) then lk_go i (lk_threads s ! i) s else Some s)"

abbreviation lk_run :: "lk_event list \<Rightarrow> lk \<Rightarrow> lk option" where
  "lk_run \<equiv> event_run lk_step"

definition lk_init :: "nat \<Rightarrow> ksys \<Rightarrow> lk" where
  "lk_init n ks = \<lparr>lk_ks = ks, lk_threads = replicate n LIdle, lk_log = []\<rparr>"

section \<open>Linearizability\<close>

text \<open>
  The operations that are through are a sequential run, in the order in which they worked; and each
  of them, and each that is under way, was called.
\<close>

fun called :: "lk_event list \<Rightarrow> kop list" where
  "called [] = []"
| "called (Call i x # es) = x # called es"
| "called (Go i # es) = called es"

lemma called_append [simp]: "called (es @ fs) = called es @ called fs"
  by (induction es rule: called.induct) simp_all


fun pc_op :: "lk_pc \<Rightarrow> kop multiset" where
  "pc_op LIdle = {#}"
| "pc_op (LBusy x todo held) = {#x#}"

definition under_way :: "lk \<Rightarrow> kop multiset" where
  "under_way s = sum_list (map pc_op (lk_threads s))"



lemma under_way_fields [simp]: "under_way (s\<lparr>lk_ks := ks, lk_log := xs\<rparr>) = under_way s"
  by (simp add: under_way_def)

lemma lk_set_fields [simp]: "lk_log (lk_set i t s) = lk_log s" "lk_ks (lk_set i t s) = lk_ks s"
  by (simp_all add: lk_set_def)







section \<open>Lock order\<close>


fun lk_ordered :: "lk_pc \<Rightarrow> bool" where
  "lk_ordered LIdle \<longleftrightarrow> True"
| "lk_ordered (LBusy x todo held) \<longleftrightarrow> rev held @ todo = op_locks x \<and> sorted_wrt (<) (rev held @ todo)"

definition lk_ok :: "lk \<Rightarrow> bool" where
  "lk_ok s \<longleftrightarrow> list_all lk_ordered (lk_threads s)
     \<and> (\<forall>i < length (lk_threads s). \<forall>j < length (lk_threads s).
          i \<noteq> j \<longrightarrow> lk_holds (lk_threads s ! i) \<inter> lk_holds (lk_threads s ! j) = {})"

lemma lk_taken_iff: "lk_taken l s \<longleftrightarrow> (\<exists>j < length (lk_threads s). l \<in> lk_holds (lk_threads s ! j))"
  by (simp add: lk_taken_def list_ex_length)


lemma lk_ok_fields [simp]: "lk_ok (s\<lparr>lk_ks := ks, lk_log := xs\<rparr>) = lk_ok s"
  by (simp add: lk_ok_def)




section \<open>Progress\<close>







text \<open>In a round every thread is scheduled once. A round in which no thread gets on leaves all as it was.\<close>

definition lk_round :: "nat \<Rightarrow> lk_event list" where
  "lk_round n = map Go [0..<n]"


lemma called_Go [simp]: "called (map Go is) = []"
  by (induction "is") simp_all

lemma called_round [simp]: "called (lk_round n) = []"
  by (simp add: lk_round_def)


definition lk_rounds :: "nat \<Rightarrow> nat \<Rightarrow> lk_event list" where
  "lk_rounds k n = concat (replicate k (lk_round n))"

lemma called_rounds [simp]: "called (lk_rounds k n) = []"
  by (induction k) (simp_all add: lk_rounds_def)



section \<open>What the locks promise\<close>







text \<open>
  C29: A transfer from a table to itself takes the lock of the table and then waits for it. It never gets
  on, and the table stays locked for all other threads.
\<close>

theorem self_transfer_hangs:
  assumes "i < n"
  shows "\<exists>s. lk_run [Call i (KTransfer a h a), Go i] (lk_init n ks) = Some s
    \<and> (\<forall>es s'. lk_run es s = Some s' \<longrightarrow> lk_threads s' ! i = LBusy (KTransfer a h a) [a] [a] \<and> lk_taken a s')"
proof -
  let ?stuck = "\<lambda>s. i < length (lk_threads s) \<and> lk_threads s ! i = LBusy (KTransfer a h a) [a] [a]"
  let ?s = "lk_set i (LBusy (KTransfer a h a) [a] [a]) (lk_init n ks)"
  have taken: "lk_taken a s" if "?stuck s" for s using that by (force simp: lk_taken_iff)
  have step: "?stuck s'" if "lk_step e s = Some s'" "?stuck s" for e s s'
  proof (cases e)
    case (Call j x)
    with that show ?thesis by (auto simp: lk_set_def nth_list_update split: if_splits)
  next
    case (Go j)
    show ?thesis
    proof (cases "j < length (lk_threads s)")
      case True
      with that Go taken [OF that(2)] show ?thesis
        by (cases "(j, lk_threads s ! j, s)" rule: lk_go.cases)
          (auto simp: lk_set_def nth_list_update bind_eq_Some_conv split: if_splits)
    qed (use that Go in auto)
  qed
  have "?stuck s'" if "lk_run es s = Some s'" "?stuck s" for es s s'
    using that
  proof (induction es arbitrary: s)
    case (Cons e es)
    then show ?case using step by (auto simp: bind_eq_Some_conv)
  qed simp
  moreover have "\<not> lk_taken a (lk_set i (LBusy (KTransfer a h a) [a, a] []) (lk_init n ks))"
    using assms by (auto simp: lk_taken_iff lk_init_def lk_set_def nth_list_update split: if_splits)
  then have "lk_run [Call i (KTransfer a h a), Go i] (lk_init n ks) = Some ?s"
    using assms by (simp add: lk_init_def lk_set_def)
  moreover have "?stuck ?s" using assms by (simp add: lk_init_def lk_set_def)
  ultimately show ?thesis using taken by blast
qed

section \<open>Witnesses\<close>



theorem self_transfer_hangs_witness:
  "\<exists>s. lk_run [Call 0 (KTransfer 3 demo_handle 3), Go 0] (lk_init 1 demo_sys) = Some s
    \<and> lk_threads s ! 0 = LBusy (KTransfer 3 demo_handle 3) [3] [3]"
proof -
  from self_transfer_hangs [of 0 1 3 demo_handle demo_sys] obtain s where
    s: "lk_run [Call 0 (KTransfer 3 demo_handle 3), Go 0] (lk_init 1 demo_sys) = Some s"
    "\<forall>es s'. lk_run es s = Some s' \<longrightarrow> lk_threads s' ! 0 = LBusy (KTransfer 3 demo_handle 3) [3] [3] \<and> lk_taken 3 s'"
    by auto
  have "lk_run [] s = Some s" by simp
  with s show ?thesis by blast
qed

end
