(* ===== verification/Spinlock.thy ===== *)
theory Spinlock
  imports Interfaces
begin

text \<open>
  The ticket spinlock, \<open>src/primitives/spinlock.rs\<close>: one \<open>u32\<close> with the next ticket in the low
  half and the ticket being served in the high half. The first part models the operations, the
  second the threads that interleave between the atomic accesses. Spinning reads the state
  again and again: \<open>loads n\<close> is what the \<open>n\<close>-th load sees.
\<close>

section \<open>Operations\<close>

definition TICKET_BITS :: nat where "TICKET_BITS = 16"

definition TICKET_MASK :: u32 where "TICKET_MASK = push_bit TICKET_BITS 1 - 1"

record 'a spinlock =
  sp_state :: u32
  sp_data :: 'a

definition Spinlock_new :: "'a \<Rightarrow> 'a spinlock" where
  "Spinlock_new data = \<lparr>sp_state = 0, sp_data = data\<rparr>"

text \<open>\<open>fetch_add\<close> on the whole word (it wraps), and the ticket it returned.\<close>

definition fetch_ticket :: "u32 \<Rightarrow> u32 \<times> u32" where
  "fetch_ticket state = (state AND TICKET_MASK, state + 1)"

text \<open>
  The spin loop, from load number \<open>n\<close> with the given backoff: the number of the load that saw
  the ticket served, \<open>None\<close> when none ever does. The pause hints have no effect on the state.
\<close>

partial_function (option) wait_for_ticket :: "(nat \<Rightarrow> u32) \<Rightarrow> nat \<Rightarrow> u32 \<Rightarrow> nat \<Rightarrow> nat option" where
  "wait_for_ticket loads n ticket backoff =
     (if drop_bit TICKET_BITS (loads n) = ticket AND TICKET_MASK then Some n
      else wait_for_ticket loads (Suc n) ticket (min (backoff * 2) 256))"

text \<open>\<open>lock()\<close> when no other core touches the state while this one spins.\<close>

definition Spinlock_lock :: "u32 \<Rightarrow> u32 option" where
  "Spinlock_lock state =
     (let (ticket, state') = fetch_ticket state in
      map_option (\<lambda>_. state') (wait_for_ticket (\<lambda>_. state') 0 ticket 1))"

text \<open>
  \<open>try_lock\<close>: \<open>spurious\<close> says whether the weak compare-exchange fails for no reason. The result
  is whether a guard was returned, and the state.
\<close>

definition Spinlock_try_lock :: "bool \<Rightarrow> u32 \<Rightarrow> bool \<times> u32" where
  "Spinlock_try_lock spurious state =
     (let next_ticket = state AND TICKET_MASK; serving = drop_bit TICKET_BITS state in
      if next_ticket = serving then
        let new_state = push_bit TICKET_BITS ((serving + 1) AND TICKET_MASK)
              OR ((next_ticket + 1) AND TICKET_MASK)
        in if spurious then (False, state) else (True, new_state)
      else (False, state))"

definition Spinlock_is_locked :: "u32 \<Rightarrow> bool" where
  "Spinlock_is_locked state \<longleftrightarrow> state AND TICKET_MASK \<noteq> drop_bit TICKET_BITS state"

text \<open>
  Dropping the guard: the value stored, computed from the \<open>old\<close> state loaded before. The two
  accesses are separate; \<open>SpinlockGuard_drop\<close> is the drop with nothing in between.
\<close>

definition release_value :: "u32 \<Rightarrow> u32" where
  "release_value old =
     (let new_serving = (drop_bit TICKET_BITS old + 1) AND TICKET_MASK in
      (old AND NOT (push_bit TICKET_BITS (NOT 0))) OR push_bit TICKET_BITS new_serving)"

definition SpinlockGuard_drop :: "u32 \<Rightarrow> u32" where
  "SpinlockGuard_drop state = release_value state"

section \<open>The two halves of the state\<close>

definition next_of :: "u32 \<Rightarrow> nat" where
  "next_of st = unat st mod 65536"

definition serving_of :: "u32 \<Rightarrow> nat" where
  "serving_of st = unat st div 65536"

definition st_of :: "nat \<Rightarrow> nat \<Rightarrow> u32" where
  "st_of s n = of_nat (s * 65536 + n)"

lemma TICKET_MASK_eq: "TICKET_MASK = mask 16"
  by (simp add: TICKET_MASK_def TICKET_BITS_def mask_eq_exp_minus_1)

lemma unat_and_TICKET_MASK: "unat (x AND TICKET_MASK) = unat x mod 65536"
proof -
  have "unat (x AND TICKET_MASK) = take_bit 16 (unat x)"
    by (simp add: TICKET_MASK_eq flip: take_bit_eq_mask) (rule unsigned_take_bit_eq)
  then show ?thesis by (simp add: take_bit_eq_mod)
qed

lemma unat_drop_TICKET_BITS: "unat (drop_bit TICKET_BITS x) = unat x div 65536"
  unfolding TICKET_BITS_def unat_drop_bit_eq by (simp add: drop_bit_eq_div)

lemma serving_of_less: "serving_of st < 65536"
  using unat_u32_less [of st] by (simp add: serving_of_def)

lemma next_of_less: "next_of st < 65536"
  by (simp add: next_of_def)

lemma unat_st_of: "s < 65536 \<Longrightarrow> n < 65536 \<Longrightarrow> unat (st_of s n) = s * 65536 + n"
  unfolding st_of_def unat_of_nat by simp

lemma next_of_st_of [simp]: "s < 65536 \<Longrightarrow> n < 65536 \<Longrightarrow> next_of (st_of s n) = n"
  by (simp add: next_of_def unat_st_of)

lemma serving_of_st_of [simp]: "s < 65536 \<Longrightarrow> n < 65536 \<Longrightarrow> serving_of (st_of s n) = s"
  by (simp add: serving_of_def unat_st_of)

lemma st_of_split: "st_of (serving_of st) (next_of st) = st"
  by (rule word_unat_eq_iff [THEN iffD2])
    (simp add: unat_st_of serving_of_less next_of_less, simp add: serving_of_def next_of_def)

lemma or_halves:
  assumes "unat (lo :: u32) < 65536"
  shows "lo OR push_bit 16 hi = lo + push_bit 16 hi"
proof -
  have "lo = take_bit 16 lo"
    using assms by (simp add: word_unat_eq_iff unsigned_take_bit_eq take_bit_nat_eq_self)
  then have "lo AND push_bit 16 hi = take_bit 16 lo AND push_bit 16 hi" by simp
  also have "\<dots> = 0" by (rule bit_word_eqI) (auto simp: bit_simps)
  finally show ?thesis by (simp add: disjunctive_add_eq_or)
qed

lemma push16: "push_bit 16 (x :: u32) = of_nat (unat x * 65536)"
  by (simp add: push_bit_eq_mult)

lemma release_value_st:
  "release_value st = st_of ((serving_of st + 1) mod 65536) (next_of st)"
proof -
  have m: "NOT (push_bit 16 (NOT 0)) = (mask 16 :: u32)"
    by (rule bit_word_eqI) (auto simp: bit_simps)
  have lo: "unat (st AND TICKET_MASK) = next_of st"
    by (simp add: unat_and_TICKET_MASK next_of_def)
  have hi: "unat ((drop_bit TICKET_BITS st + 1) AND TICKET_MASK) = (serving_of st + 1) mod 65536"
    by (simp add: unat_and_TICKET_MASK unat_word_ariths unat_drop_TICKET_BITS serving_of_def
        mod_mod_cancel)
  have "release_value st =
      (st AND TICKET_MASK) OR push_bit 16 ((drop_bit TICKET_BITS st + 1) AND TICKET_MASK)"
    unfolding release_value_def Let_def TICKET_BITS_def m TICKET_MASK_eq ..
  also have "\<dots> = (st AND TICKET_MASK) + push_bit 16 ((drop_bit TICKET_BITS st + 1) AND TICKET_MASK)"
    by (rule or_halves) (simp only: lo next_of_less)
  also have "\<dots> = of_nat (unat (st AND TICKET_MASK)) + of_nat (((serving_of st + 1) mod 65536) * 65536)"
    unfolding push16 hi by simp
  also have "\<dots> = st_of ((serving_of st + 1) mod 65536) (next_of st)"
    unfolding lo st_of_def by simp
  finally show ?thesis .
qed

lemma fetch_ticket_st:
  assumes "next_of st < 65535"
  shows "unat (fst (fetch_ticket st)) = next_of st"
    and "snd (fetch_ticket st) = st_of (serving_of st) (Suc (next_of st))"
proof -
  show "unat (fst (fetch_ticket st)) = next_of st"
    by (simp add: fetch_ticket_def unat_and_TICKET_MASK next_of_def)
  have "st + 1 = st_of (serving_of st) (next_of st) + 1" by (simp add: st_of_split)
  also have "\<dots> = st_of (serving_of st) (Suc (next_of st))" by (simp add: st_of_def)
  finally show "snd (fetch_ticket st) = st_of (serving_of st) (Suc (next_of st))"
    by (simp add: fetch_ticket_def)
qed

lemma served_iff:
  "drop_bit TICKET_BITS st = ticket AND TICKET_MASK \<longleftrightarrow> serving_of st = unat ticket mod 65536"
  by (simp add: word_unat_eq_iff unat_drop_TICKET_BITS unat_and_TICKET_MASK serving_of_def)

section \<open>Spinning\<close>

text \<open>The loop stops at the first load that sees the ticket served.\<close>

definition first_served :: "(nat \<Rightarrow> u32) \<Rightarrow> nat \<Rightarrow> u32 \<Rightarrow> nat \<Rightarrow> bool" where
  "first_served loads n ticket m \<longleftrightarrow> n \<le> m
     \<and> drop_bit TICKET_BITS (loads m) = ticket AND TICKET_MASK
     \<and> (\<forall>k \<in> {n..<m}. drop_bit TICKET_BITS (loads k) \<noteq> ticket AND TICKET_MASK)"

lemma first_served_Suc:
  "first_served loads (Suc n) ticket m \<Longrightarrow> drop_bit TICKET_BITS (loads n) \<noteq> ticket AND TICKET_MASK
    \<Longrightarrow> first_served loads n ticket m"
  unfolding first_served_def using le_eq_less_or_eq by fastforce

lemma wait_for_ticket_sound:
  assumes "wait_for_ticket loads n ticket backoff = Some m"
  shows "first_served loads n ticket m"
proof (rule wait_for_ticket.raw_induct
    [where P = "\<lambda>loads n ticket backoff m. first_served loads n ticket m", OF _ assms],
    goal_cases body)
  case (body wait loads n ticket backoff m)
  show ?case
  proof (cases "drop_bit TICKET_BITS (loads n) = ticket AND TICKET_MASK")
    case True
    with body(2) show ?thesis by (simp add: first_served_def)
  next
    case False
    with body(2) have "wait loads (Suc n) ticket (min (backoff * 2) 256) = Some m" by simp
    from first_served_Suc [OF body(1) [OF this] False] show ?thesis .
  qed
qed

lemma wait_for_ticket_complete:
  "n \<le> m \<Longrightarrow> drop_bit TICKET_BITS (loads m) = ticket AND TICKET_MASK \<Longrightarrow>
    \<exists>k. wait_for_ticket loads n ticket backoff = Some k"
proof (induction "m - n" arbitrary: n backoff)
  case 0
  then show ?case by (subst wait_for_ticket.simps) simp
next
  case (Suc d)
  then have "\<exists>k. wait_for_ticket loads (Suc n) ticket (min (backoff * 2) 256) = Some k" by simp
  then show ?case by (subst wait_for_ticket.simps) simp
qed

lemma wait_for_ticket_const:
  "wait_for_ticket (\<lambda>_. st) n ticket backoff =
    (if drop_bit TICKET_BITS st = ticket AND TICKET_MASK then Some n else None)"
proof (cases "drop_bit TICKET_BITS st = ticket AND TICKET_MASK")
  case True
  then show ?thesis by (subst wait_for_ticket.simps) simp
next
  case False
  then have "wait_for_ticket (\<lambda>_. st) n ticket backoff \<noteq> Some m" for m
    using wait_for_ticket_sound [of "\<lambda>_. st" n ticket backoff m]
    unfolding first_served_def by blast
  with False show ?thesis by (cases "wait_for_ticket (\<lambda>_. st) n ticket backoff") auto
qed

lemma Spinlock_lock_alone:
  "Spinlock_lock st = (if serving_of (st + 1) = next_of st then Some (st + 1) else None)"
  by (simp add: Spinlock_lock_def fetch_ticket_def wait_for_ticket_const served_iff
      unat_and_TICKET_MASK next_of_def)

text \<open>
  Spinning on a drawn ticket returns if and only if some load sees that ticket served, and
  it returns at the first such load, whatever the backoff has grown to.
\<close>

theorem wait_for_ticket_first_served:
  "wait_for_ticket loads 0 ticket 1 = Some m \<longleftrightarrow>
    serving_of (loads m) = unat ticket mod 65536
      \<and> (\<forall>k < m. serving_of (loads k) \<noteq> unat ticket mod 65536)"
  (is "_ \<longleftrightarrow> ?first m")
proof
  show "?first m" if "wait_for_ticket loads 0 ticket 1 = Some m"
    using wait_for_ticket_sound [OF that] by (simp add: first_served_def served_iff)
next
  assume first: "?first m"
  then obtain k where k: "wait_for_ticket loads 0 ticket 1 = Some k"
    using wait_for_ticket_complete [of 0 m loads ticket 1] by (auto simp: served_iff)
  from wait_for_ticket_sound [OF this] have "?first k"
    by (simp add: first_served_def served_iff)
  with first have "k = m" by (metis linorder_neqE_nat)
  with k show "wait_for_ticket loads 0 ticket 1 = Some m" by simp
qed

section \<open>Locking and unlocking again and again\<close>

text \<open>A core that takes the lock and drops the guard \<open>k\<close> times, nobody else around.\<close>

fun lock_cycles :: "nat \<Rightarrow> u32 \<Rightarrow> u32 option" where
  "lock_cycles 0 st = Some st"
| "lock_cycles (Suc k) st =
     do { st' \<leftarrow> lock_cycles k st; held \<leftarrow> Spinlock_lock st'; Some (SpinlockGuard_drop held) }"

lemma lock_drop_below:
  assumes "k < 65535"
  shows "Spinlock_lock (st_of k k) = Some (st_of k (Suc k))"
    and "SpinlockGuard_drop (st_of k (Suc k)) = st_of (Suc k) (Suc k)"
proof -
  have "st_of k k + 1 = st_of k (Suc k)" by (simp add: st_of_def)
  then show "Spinlock_lock (st_of k k) = Some (st_of k (Suc k))"
    using assms by (simp add: Spinlock_lock_alone)
  show "SpinlockGuard_drop (st_of k (Suc k)) = st_of (Suc k) (Suc k)"
    using assms by (simp add: SpinlockGuard_drop_def release_value_st)
qed

lemma lock_at_last: "Spinlock_lock (st_of 65535 65535) = None"
proof -
  have "st_of 65535 65535 + 1 = 0"
    by (simp add: st_of_def)
  then show ?thesis by (simp add: Spinlock_lock_alone serving_of_def)
qed

lemma lock_cycles_below: "k \<le> 65535 \<Longrightarrow> lock_cycles k 0 = Some (st_of k k)"
proof (induction k)
  case 0
  then show ?case by (simp add: st_of_def)
next
  case (Suc k)
  then show ?case by (simp add: lock_drop_below)
qed

lemma lock_cycles_None: "lock_cycles k st = None \<Longrightarrow> lock_cycles (k + d) st = None"
  by (induction d) auto

text \<open>
  A lock that is only ever taken by one core, with \<open>lock()\<close> and guard drops strictly in
  turn, works 65535 times; the 65536th \<open>lock()\<close> never returns. The counter of drawn tickets
  carries into the half that says which ticket is served.
\<close>

theorem lock_works_65535_times:
  "lock_cycles k 0 = (if k \<le> 65535 then Some (st_of k k) else None)"
proof (cases "k \<le> 65535")
  case True
  then show ?thesis by (simp add: lock_cycles_below)
next
  case False
  have "lock_cycles (Suc 65535) 0 = None"
    by (simp only: lock_cycles.simps lock_cycles_below lock_at_last bind.bind_lunit
        bind.bind_lzero order.refl option.simps)
  from lock_cycles_None [OF this, of "k - 65536"] False show ?thesis by simp
qed

text \<open>\<open>try_lock\<close> on a lock that looks free: both halves move on, so it looks free again.\<close>

lemma try_lock_halves:
  assumes "serving_of st = next_of st"
  shows "Spinlock_try_lock False st
    = (True, st_of ((serving_of st + 1) mod 65536) ((serving_of st + 1) mod 65536))"
proof -
  let ?n = "(serving_of st + 1) mod 65536"
  let ?hi = "(drop_bit TICKET_BITS st + 1) AND TICKET_MASK"
  let ?lo = "((st AND TICKET_MASK) + 1) AND TICKET_MASK"
  have free: "st AND TICKET_MASK = drop_bit TICKET_BITS st"
    using assms by (simp add: word_unat_eq_iff unat_and_TICKET_MASK unat_drop_TICKET_BITS
        next_of_def serving_of_def)
  have hi: "unat ?hi = ?n"
    by (simp add: unat_and_TICKET_MASK unat_word_ariths unat_drop_TICKET_BITS serving_of_def
        mod_mod_cancel)
  have lo: "?lo = ?hi" using free by simp
  have "push_bit TICKET_BITS ?hi OR ?lo = ?lo + push_bit 16 ?hi"
    unfolding TICKET_BITS_def [symmetric] or.commute [of _ ?lo]
    using or_halves [of ?lo ?hi] hi lo by (simp add: TICKET_BITS_def)
  also have "\<dots> = of_nat ?n + of_nat (?n * 65536)"
    unfolding push16 hi lo by (simp only: hi [symmetric]) simp
  also have "\<dots> = st_of ?n ?n" unfolding st_of_def by simp
  finally show ?thesis using free by (simp add: Spinlock_try_lock_def Let_def)
qed

lemma is_locked_iff: "Spinlock_is_locked st \<longleftrightarrow> next_of st \<noteq> serving_of st"
  by (simp add: Spinlock_is_locked_def word_unat_eq_iff unat_and_TICKET_MASK
      unat_drop_TICKET_BITS next_of_def serving_of_def)

lemma lock_one_behind:
  assumes "n < 65536"
  shows "Spinlock_lock (st_of ((n + 1) mod 65536) n) = None"
proof (cases "n = 65535")
  case True
  have "st_of 0 65535 + 1 = st_of 1 0" by (simp add: st_of_def)
  with True show ?thesis by (simp add: Spinlock_lock_alone)
next
  case False
  with assms have n: "Suc n < 65536" by simp
  have "st_of (Suc n) n + 1 = st_of (Suc n) (Suc n)" by (simp add: st_of_def)
  with n show ?thesis by (simp add: Spinlock_lock_alone)
qed

text \<open>
  \<open>try_lock\<close> does not exclude anybody: while its guard is held the lock reports to be
  unlocked and a second \<open>try_lock\<close> succeeds as well; and once its guard has been dropped, a
  \<open>lock()\<close> never returns.
\<close>

theorem try_lock_does_not_lock:
  assumes "\<not> Spinlock_is_locked st" "Spinlock_try_lock False st = (True, st')"
  shows "\<not> Spinlock_is_locked st' \<and> fst (Spinlock_try_lock False st')
    \<and> Spinlock_lock (SpinlockGuard_drop st') = None"
proof -
  let ?n = "(serving_of st + 1) mod 65536"
  let ?m = "(?n + 1) mod 65536"
  have st': "st' = st_of ?n ?n"
    using assms try_lock_halves [of st] by (simp add: is_locked_iff)
  have free: "serving_of st' = next_of st'" by (simp add: st')
  have drop: "SpinlockGuard_drop st' = st_of ?m ?n"
    by (simp add: SpinlockGuard_drop_def release_value_st st')
  have "Spinlock_lock (SpinlockGuard_drop st') = None"
    unfolding drop by (rule lock_one_behind) simp
  with free show ?thesis by (simp add: is_locked_iff try_lock_halves)
qed

theorem try_lock_does_not_lock_witness:
  "\<not> Spinlock_is_locked (st_of 1 1) \<and> Spinlock_lock (SpinlockGuard_drop (st_of 1 1)) = None"
proof -
  have t: "Spinlock_try_lock False (st_of 0 0) = (True, st_of 1 1)"
    by (simp add: try_lock_halves)
  have u: "\<not> Spinlock_is_locked (st_of 0 0)" by (simp add: is_locked_iff)
  from try_lock_does_not_lock [OF u t] show ?thesis by blast
qed

section \<open>Threads that interleave\<close>

text \<open>
  Where a thread stands: outside, spinning on a ticket, in the critical section, or inside the
  drop of its guard, between the load of the old state and the store. Every event is one
  atomic access; a failed look at the state changes nothing.
\<close>

datatype sp_pc = Idle | Spin u32 | Crit | Unlocking u32

datatype sp_event = Draw nat | Enter nat | Try nat | Load nat | Store nat

record sp_sys =
  sys_state :: u32
  sys_pc :: "nat \<Rightarrow> sp_pc"

definition sp_init :: sp_sys where
  "sp_init = \<lparr>sys_state = 0, sys_pc = (\<lambda>_. Idle)\<rparr>"

inductive sp_step :: "sp_event \<Rightarrow> sp_sys \<Rightarrow> sp_sys \<Rightarrow> bool" where
  Draw: "sys_pc s t = Idle \<Longrightarrow> fetch_ticket (sys_state s) = (k, st') \<Longrightarrow>
    sp_step (Draw t) s \<lparr>sys_state = st', sys_pc = (sys_pc s)(t := Spin k)\<rparr>"
| Enter: "sys_pc s t = Spin k \<Longrightarrow> drop_bit TICKET_BITS (sys_state s) = k AND TICKET_MASK \<Longrightarrow>
    sp_step (Enter t) s (s\<lparr>sys_pc := (sys_pc s)(t := Crit)\<rparr>)"
| Try: "sys_pc s t = Idle \<Longrightarrow> Spinlock_try_lock False (sys_state s) = (True, st') \<Longrightarrow>
    sp_step (Try t) s \<lparr>sys_state = st', sys_pc = (sys_pc s)(t := Crit)\<rparr>"
| Load: "sys_pc s t = Crit \<Longrightarrow>
    sp_step (Load t) s (s\<lparr>sys_pc := (sys_pc s)(t := Unlocking (sys_state s))\<rparr>)"
| Store: "sys_pc s t = Unlocking old \<Longrightarrow>
    sp_step (Store t) s \<lparr>sys_state = release_value old, sys_pc = (sys_pc s)(t := Idle)\<rparr>"

inductive_cases sp_stepE: "sp_step e s s'"

inductive sp_run :: "sp_event list \<Rightarrow> sp_sys \<Rightarrow> sp_sys \<Rightarrow> bool" where
  Nil: "sp_run [] s s"
| Cons: "sp_step e s s' \<Longrightarrow> sp_run es s' s'' \<Longrightarrow> sp_run (e # es) s s''"

definition holds_lock :: "sp_sys \<Rightarrow> nat \<Rightarrow> bool" where
  "holds_lock s t \<longleftrightarrow> (case sys_pc s t of Crit \<Rightarrow> True | Unlocking _ \<Rightarrow> True | _ \<Rightarrow> False)"

subsection \<open>Mutual exclusion, where it holds\<close>

text \<open>
  Runs without \<open>try_lock\<close> in which no ticket is drawn while some guard is being dropped;
  \<open>n\<close> counts the tickets drawn.
\<close>

definition quiet_ok :: "sp_event \<Rightarrow> sp_sys \<Rightarrow> bool" where
  "quiet_ok e s \<longleftrightarrow> (case e of Draw _ \<Rightarrow> \<forall>t old. sys_pc s t \<noteq> Unlocking old | Try _ \<Rightarrow> False | _ \<Rightarrow> True)"

inductive quiet_reach :: "nat \<Rightarrow> sp_sys \<Rightarrow> bool" where
  start: "quiet_reach 0 sp_init"
| draw: "quiet_reach n s \<Longrightarrow> sp_step (Draw t) s s' \<Longrightarrow> quiet_ok (Draw t) s \<Longrightarrow>
    quiet_reach (Suc n) s'"
| other: "quiet_reach n s \<Longrightarrow> sp_step e s s' \<Longrightarrow> quiet_ok e s \<Longrightarrow> (\<And>t. e \<noteq> Draw t) \<Longrightarrow>
    quiet_reach n s'"

text \<open>The ticket a thread stands on while \<open>sv\<close> is served.\<close>

fun ticket_at :: "nat \<Rightarrow> sp_pc \<Rightarrow> nat option" where
  "ticket_at sv Idle = None"
| "ticket_at sv (Spin k) = Some (unat k)"
| "ticket_at sv Crit = Some sv"
| "ticket_at sv (Unlocking _) = Some sv"

text \<open>
  The invariant: every number from the served one up to the next one is the ticket of exactly
  one thread, and a thread that drops its guard still sees the current state.
\<close>

definition sp_inv :: "nat \<Rightarrow> nat \<Rightarrow> sp_sys \<Rightarrow> bool" where
  "sp_inv sv n s \<longleftrightarrow> sv \<le> n \<and> n < 65536 \<and> sys_state s = st_of sv n
     \<and> (\<forall>t old. sys_pc s t = Unlocking old \<longrightarrow> old = sys_state s)
     \<and> (\<forall>t k. ticket_at sv (sys_pc s t) = Some k \<longrightarrow> sv \<le> k \<and> k < n)
     \<and> (\<forall>t u k. ticket_at sv (sys_pc s t) = Some k \<and> ticket_at sv (sys_pc s u) = Some k \<longrightarrow> t = u)
     \<and> (\<forall>k \<in> {sv..<n}. \<exists>t. ticket_at sv (sys_pc s t) = Some k)"

lemma sp_invI:
  assumes "sv \<le> n" "n < 65536" "sys_state s = st_of sv n"
    and "\<And>t old. sys_pc s t = Unlocking old \<Longrightarrow> old = sys_state s"
    and "\<And>t k. ticket_at sv (sys_pc s t) = Some k \<Longrightarrow> sv \<le> k \<and> k < n"
    and "\<And>t u k. ticket_at sv (sys_pc s t) = Some k \<Longrightarrow> ticket_at sv (sys_pc s u) = Some k \<Longrightarrow> t = u"
    and "\<And>k. sv \<le> k \<Longrightarrow> k < n \<Longrightarrow> \<exists>t. ticket_at sv (sys_pc s t) = Some k"
  shows "sp_inv sv n s"
  using assms unfolding sp_inv_def by auto

lemma sp_invD:
  assumes "sp_inv sv n s"
  shows "sv \<le> n" "n < 65536" "sys_state s = st_of sv n"
    and "sys_pc s t = Unlocking old \<Longrightarrow> old = sys_state s"
    and "ticket_at sv (sys_pc s t) = Some k \<Longrightarrow> sv \<le> k \<and> k < n"
    and "ticket_at sv (sys_pc s t) = Some k \<Longrightarrow> ticket_at sv (sys_pc s u) = Some k \<Longrightarrow> t = u"
    and "sv \<le> k \<Longrightarrow> k < n \<Longrightarrow> \<exists>t. ticket_at sv (sys_pc s t) = Some k"
  using assms unfolding sp_inv_def by auto

lemma sp_inv_init: "sp_inv 0 0 sp_init"
  by (rule sp_invI) (simp_all add: sp_init_def st_of_def)

lemma sp_inv_draw:
  assumes inv: "sp_inv sv n s" and step: "sp_step (Draw t) s s'"
    and ok: "quiet_ok (Draw t) s" and n: "Suc n < 65536"
  shows "sp_inv sv (Suc n) s'"
proof -
  note D = sp_invD [OF inv]
  from step obtain k st' where pc: "sys_pc s t = Idle" and f: "fetch_ticket (sys_state s) = (k, st')"
    and s': "s' = \<lparr>sys_state = st', sys_pc = (sys_pc s)(t := Spin k)\<rparr>"
    by (cases rule: sp_stepE) auto
  have k: "unat k = n" and st': "st' = st_of sv (Suc n)"
    using fetch_ticket_st [of "sys_state s"] f n D(1,2,3) by auto
  have tick: "ticket_at sv (sys_pc s' u) = (if u = t then Some n else ticket_at sv (sys_pc s u))" for u
    by (simp add: s' k)
  show ?thesis
  proof (rule sp_invI)
    show "old = sys_state s'" if "sys_pc s' u = Unlocking old" for u old
      using that ok by (auto simp: s' quiet_ok_def split: if_splits)
    show "sv \<le> i \<and> i < Suc n" if "ticket_at sv (sys_pc s' u) = Some i" for u i
      using that D(1) D(5) [of u i] by (auto simp: tick split: if_splits)
    show "u = v" if "ticket_at sv (sys_pc s' u) = Some i" "ticket_at sv (sys_pc s' v) = Some i" for u v i
      using that D(6) [of u i v] D(5) [of u i] D(5) [of v i] by (auto simp: tick split: if_splits)
    show "\<exists>u. ticket_at sv (sys_pc s' u) = Some i" if i: "sv \<le> i" "i < Suc n" for i
    proof (cases "i = n")
      case False
      with i D(7) [of i] obtain u where "ticket_at sv (sys_pc s u) = Some i" by auto
      with pc have "ticket_at sv (sys_pc s' u) = Some i" by (auto simp: tick)
      then show ?thesis ..
    qed (auto simp: tick)
  qed (use D(1) n st' s' in simp_all)
qed

lemma sp_inv_same_ticket:
  assumes inv: "sp_inv sv n s" and st: "sys_state s' = sys_state s"
    and pc: "\<And>u. ticket_at sv (sys_pc s' u) = ticket_at sv (sys_pc s u)"
    and un: "\<And>u old. sys_pc s' u = Unlocking old \<Longrightarrow> sys_pc s u = Unlocking old \<or> old = sys_state s"
  shows "sp_inv sv n s'"
proof -
  note D = sp_invD [OF inv]
  show ?thesis
  proof (rule sp_invI)
    show "old = sys_state s'" if "sys_pc s' u = Unlocking old" for u old
      using un [OF that] D(4) [of u old] by (auto simp: st)
  qed (use D in \<open>simp_all add: pc st\<close>)
qed

lemma sp_inv_enter:
  assumes inv: "sp_inv sv n s" and step: "sp_step (Enter t) s s'"
  shows "sp_inv sv n s'"
proof -
  note D = sp_invD [OF inv]
  from step obtain k where pc: "sys_pc s t = Spin k"
    and k: "drop_bit TICKET_BITS (sys_state s) = k AND TICKET_MASK"
    and s': "s' = s\<lparr>sys_pc := (sys_pc s)(t := Crit)\<rparr>"
    by (cases rule: sp_stepE) auto
  from D(5) [of t "unat k"] pc have "unat k < n" by simp
  with k D(1,2,3) have "unat k = sv" by (simp add: served_iff)
  then show ?thesis
    by (intro sp_inv_same_ticket [OF inv]) (auto simp: s' pc split: if_splits)
qed

lemma sp_inv_load:
  assumes inv: "sp_inv sv n s" and step: "sp_step (Load t) s s'"
  shows "sp_inv sv n s'"
proof -
  from step have "sys_pc s t = Crit" and
    "s' = s\<lparr>sys_pc := (sys_pc s)(t := Unlocking (sys_state s))\<rparr>"
    by (cases rule: sp_stepE; auto)+
  then show ?thesis
    by (intro sp_inv_same_ticket [OF inv]) (auto split: if_splits)
qed

lemma sp_inv_store:
  assumes inv: "sp_inv sv n s" and step: "sp_step (Store t) s s'"
  shows "sp_inv (Suc sv) n s'"
proof -
  note D = sp_invD [OF inv]
  from step obtain old where pc: "sys_pc s t = Unlocking old"
    and s': "s' = \<lparr>sys_state = release_value old, sys_pc = (sys_pc s)(t := Idle)\<rparr>"
    by (cases rule: sp_stepE) auto
  have sv: "ticket_at sv (sys_pc s t) = Some sv" by (simp add: pc)
  from D(5) [OF sv] have lt: "sv < n" by simp
  have st': "sys_state s' = st_of (Suc sv) n"
    using D(4) [OF pc] D(2,3) lt by (simp add: s' release_value_st)
  have spin: "ticket_at (Suc sv) (sys_pc s u) = ticket_at sv (sys_pc s u)
      \<and> ticket_at sv (sys_pc s u) \<noteq> Some sv" if "u \<noteq> t" for u
    using that D(6) [OF sv, of u] by (cases "sys_pc s u") auto
  have tick: "ticket_at (Suc sv) (sys_pc s' u) = Some i \<longleftrightarrow> u \<noteq> t \<and> ticket_at sv (sys_pc s u) = Some i"
    for u i using spin [of u] by (simp add: s')
  show ?thesis
  proof (rule sp_invI)
    show "old' = sys_state s'" if "sys_pc s' u = Unlocking old'" for u old'
      using that spin [of u] by (auto simp: s' split: if_splits)
    show "Suc sv \<le> i \<and> i < n" if "ticket_at (Suc sv) (sys_pc s' u) = Some i" for u i
      using that spin [of u] D(5) [of u i] by (auto simp: tick Suc_le_eq le_less)
    show "u = v" if "ticket_at (Suc sv) (sys_pc s' u) = Some i"
      "ticket_at (Suc sv) (sys_pc s' v) = Some i" for u v i
      using that D(6) [of u i v] by (auto simp: tick)
    show "\<exists>u. ticket_at (Suc sv) (sys_pc s' u) = Some i" if i: "Suc sv \<le> i" "i < n" for i
    proof -
      from i D(7) [of i] obtain u where u: "ticket_at sv (sys_pc s u) = Some i" by auto
      with sv i have "u \<noteq> t" by auto
      with u tick show ?thesis by blast
    qed
  qed (use lt D(2) st' in simp_all)
qed

lemma quiet_reach_inv: "quiet_reach n s \<Longrightarrow> n < 65536 \<Longrightarrow> \<exists>sv. sp_inv sv n s"
proof (induction rule: quiet_reach.induct)
  case start
  then show ?case using sp_inv_init by blast
next
  case (draw n s t s')
  then obtain sv where "sp_inv sv n s" by auto
  from sp_inv_draw [OF this draw.hyps(2,3) draw.prems] show ?case ..
next
  case (other n s e s')
  then obtain sv where sv: "sp_inv sv n s" by auto
  show ?case
  proof (cases e)
    case (Try t)
    with other.hyps show ?thesis by (simp add: quiet_ok_def)
  qed (use other.hyps sv sp_inv_enter sp_inv_load sp_inv_store in blast)+
qed

text \<open>
  C23: The lock excludes as long as fewer than 65536 tickets are drawn, no guard comes from
  \<open>try_lock\<close> and no ticket is drawn inside the load-store window of a guard drop: then at most
  one thread holds the lock.
\<close>

theorem quiet_mutual_exclusion:
  assumes "quiet_reach n s" "n < 65536" "holds_lock s t" "holds_lock s u"
  shows "t = u"
proof -
  from quiet_reach_inv [OF assms(1,2)] obtain sv where inv: "sp_inv sv n s" ..
  have "ticket_at sv (sys_pc s v) = Some sv" if "holds_lock s v" for v
    using that by (auto simp: holds_lock_def split: sp_pc.splits)
  with assms(3,4) show ?thesis by (intro sp_invD(6) [OF inv]) auto
qed

lemma quiet_demo_spin:
  "quiet_reach 1 \<lparr>sys_state = st_of 0 1, sys_pc = (\<lambda>_. Idle)(3 := Spin 0)\<rparr>"
proof -
  have "sp_step (Draw 3) sp_init \<lparr>sys_state = st_of 0 1, sys_pc = (sys_pc sp_init)(3 := Spin 0)\<rparr>"
    by (rule sp_step.Draw) (simp_all add: sp_init_def fetch_ticket_def st_of_def)
  then have "sp_step (Draw 3) sp_init \<lparr>sys_state = st_of 0 1, sys_pc = (\<lambda>_. Idle)(3 := Spin 0)\<rparr>"
    by (simp add: sp_init_def)
  from quiet_reach.draw [OF quiet_reach.start this] show ?thesis
    by (simp add: quiet_ok_def sp_init_def)
qed

lemma quiet_demo:
  "quiet_reach 1 \<lparr>sys_state = st_of 0 1, sys_pc = (\<lambda>_. Idle)(3 := Crit)\<rparr>"
proof -
  let ?s = "\<lparr>sys_state = st_of 0 1, sys_pc = (\<lambda>_. Idle)(3 := Spin 0)\<rparr>"
  have "sp_step (Enter 3) ?s (?s\<lparr>sys_pc := (sys_pc ?s)(3 := Crit)\<rparr>)"
    by (rule sp_step.Enter [where k = 0]) (simp_all only: served_iff, simp_all)
  from quiet_reach.other [OF quiet_demo_spin this] show ?thesis by (simp add: quiet_ok_def)
qed

theorem quiet_mutual_exclusion_witness:
  "Collect (holds_lock \<lparr>sys_state = st_of 0 1, sys_pc = (\<lambda>_. Idle)(3 := Crit)\<rparr>) = {3}"
proof (rule set_eqI)
  let ?s = "\<lparr>sys_state = st_of 0 1, sys_pc = (\<lambda>_. Idle)(3 := Crit)\<rparr>"
  have crit: "holds_lock ?s 3" by (simp add: holds_lock_def)
  fix u
  have "u = 3" if "holds_lock ?s u"
    by (rule quiet_mutual_exclusion [OF quiet_demo _ that crit]) simp
  with crit show "u \<in> Collect (holds_lock ?s) \<longleftrightarrow> u \<in> {3}" by blast
qed

text \<open>
  Under the same discipline nobody is stuck: while some thread spins, a thread holds the
  lock or some thread's ticket is being served, so that it can enter.
\<close>

theorem quiet_progress:
  assumes "quiet_reach n s" "n < 65536" "sys_pc s t = Spin k"
  shows "\<exists>u. holds_lock s u \<or> (\<exists>s'. sp_step (Enter u) s s')"
proof -
  from quiet_reach_inv [OF assms(1,2)] obtain sv where inv: "sp_inv sv n s" ..
  note D = sp_invD [OF inv]
  from D(5) [of t "unat k"] assms(3) have "sv < n" by simp
  with D(7) [of sv] obtain u where u: "ticket_at sv (sys_pc s u) = Some sv" by auto
  show ?thesis
  proof (cases "sys_pc s u")
    case (Spin j)
    with u have "unat j = sv" by simp
    with D(1,2,3) \<open>sv < n\<close> have "drop_bit TICKET_BITS (sys_state s) = j AND TICKET_MASK"
      by (simp add: served_iff)
    from sp_step.Enter [of s u, OF Spin this] show ?thesis by blast
  qed (use u in \<open>auto simp: holds_lock_def intro!: exI [of _ u]\<close>)
qed

theorem quiet_progress_witness:
  "\<exists>u. holds_lock \<lparr>sys_state = st_of 0 1, sys_pc = (\<lambda>_. Idle)(3 := Spin 0)\<rparr> u
    \<or> (\<exists>s'. sp_step (Enter u) \<lparr>sys_state = st_of 0 1, sys_pc = (\<lambda>_. Idle)(3 := Spin 0)\<rparr> s')"
  by (rule quiet_progress [OF quiet_demo_spin, of 3 0]) simp_all

subsection \<open>A ticket lost while a guard is dropped\<close>

text \<open>The steps, and runs of them, can be computed.\<close>

fun sp_exec :: "sp_event \<Rightarrow> sp_sys \<Rightarrow> sp_sys option" where
  "sp_exec (Draw t) s = (case sys_pc s t of
     Idle \<Rightarrow> (let (k, st') = fetch_ticket (sys_state s) in
       Some \<lparr>sys_state = st', sys_pc = (sys_pc s)(t := Spin k)\<rparr>)
   | _ \<Rightarrow> None)"
| "sp_exec (Enter t) s = (case sys_pc s t of
     Spin k \<Rightarrow> (if drop_bit TICKET_BITS (sys_state s) = k AND TICKET_MASK
       then Some (s\<lparr>sys_pc := (sys_pc s)(t := Crit)\<rparr>) else None)
   | _ \<Rightarrow> None)"
| "sp_exec (Try t) s = (case sys_pc s t of
     Idle \<Rightarrow> (let (got, st') = Spinlock_try_lock False (sys_state s) in
       if got then Some \<lparr>sys_state = st', sys_pc = (sys_pc s)(t := Crit)\<rparr> else None)
   | _ \<Rightarrow> None)"
| "sp_exec (Load t) s = (case sys_pc s t of
     Crit \<Rightarrow> Some (s\<lparr>sys_pc := (sys_pc s)(t := Unlocking (sys_state s))\<rparr>)
   | _ \<Rightarrow> None)"
| "sp_exec (Store t) s = (case sys_pc s t of
     Unlocking old \<Rightarrow> Some \<lparr>sys_state = release_value old, sys_pc = (sys_pc s)(t := Idle)\<rparr>
   | _ \<Rightarrow> None)"

lemma sp_step_exec: "sp_exec e s = Some s' \<Longrightarrow> sp_step e s s'"
  by (cases e) (auto simp: Let_def split: sp_pc.splits prod.splits if_splits intro: sp_step.intros)

lemma served_0_iff: "drop_bit TICKET_BITS st = 0 \<longleftrightarrow> serving_of st = 0"
  using served_iff [of st 0] by simp

fun sp_execs :: "sp_event list \<Rightarrow> sp_sys \<Rightarrow> sp_sys option" where
  "sp_execs [] s = Some s"
| "sp_execs (e # es) s = do { s' \<leftarrow> sp_exec e s; sp_execs es s' }"

lemma sp_run_exec: "sp_execs es s = Some s' \<Longrightarrow> sp_run es s s'"
  by (induction es arbitrary: s)
    (auto simp: bind_eq_Some_conv intro: sp_run.intros sp_step_exec)

lemma fetch_ticket_st_of:
  "s < 65536 \<Longrightarrow> n < 65535 \<Longrightarrow> fetch_ticket (st_of s n) = (of_nat n, st_of s (Suc n))"
  using fetch_ticket_st [of "st_of s n"] by (simp add: prod_eq_iff word_unat_eq_iff unat_of_nat)

text \<open>
  Without that discipline mutual exclusion fails: thread 5 draws its ticket between the
  load and the store of thread 3's guard drop, the store takes the ticket back, thread 7 draws
  the same number, and both enter.
\<close>

theorem ticket_lost_in_drop:
  "\<exists>s. sp_run [Draw 3, Enter 3, Load 3, Draw 5, Store 3, Draw 7, Enter 5, Enter 7] sp_init s
    \<and> holds_lock s 5 \<and> holds_lock s 7"
proof -
  have init: "sp_init = \<lparr>sys_state = st_of 0 0, sys_pc = (\<lambda>_. Idle)\<rparr>"
    by (simp add: sp_init_def st_of_def)
  have "\<exists>s. sp_execs [Draw 3, Enter 3, Load 3, Draw 5, Store 3, Draw 7, Enter 5, Enter 7] sp_init = Some s
      \<and> holds_lock s 5 \<and> holds_lock s 7"
    unfolding init by (simp add: fetch_ticket_st_of served_iff served_0_iff release_value_st holds_lock_def)
  then show ?thesis using sp_run_exec by blast
qed

end
