(* ===== verification/Bits.thy ===== *)
theory Bits
  imports Prelude
begin

text \<open>
  Bit manipulation, \<open>src/variables/bits.rs\<close>: single bits and bit ranges of 32- and 64-bit
  words, masks, and bitmaps kept in slices of \<open>usize\<close>. The 32- and 64-bit functions are the
  same code at two widths and share a definition here. Shifts by the width or more panic.
\<close>

section \<open>Bits and bit ranges\<close>

definition clz :: "u32 \<Rightarrow> nat" where
  "clz x = leading_zeros x"

definition ctz :: "u32 \<Rightarrow> nat" where
  "ctz x = trailing_zeros x"

definition bit_in :: "'a::len word \<Rightarrow> u32 \<Rightarrow> 'a word option" where
  "bit_in x b = do { m \<leftarrow> shl_chk 1 (unat b); Some (x AND m) }"

definition bit_shift_in :: "'a::len word \<Rightarrow> u32 \<Rightarrow> 'a word option" where
  "bit_shift_in x b = do { y \<leftarrow> shr_chk x (unat b); Some (y AND 1) }"

definition bits_in :: "'a::len word \<Rightarrow> u32 \<Rightarrow> u32 \<Rightarrow> 'a word option" where
  "bits_in x high low = do {
     h1 \<leftarrow> add_chk high 1;
     a \<leftarrow> shl_chk 1 (unat h1); a1 \<leftarrow> sub_chk a 1;
     b \<leftarrow> shl_chk 1 (unat low); b1 \<leftarrow> sub_chk b 1;
     let mask = a1 AND NOT b1;
     Some (x AND mask) }"

definition bits_shift_in :: "'a::len word \<Rightarrow> u32 \<Rightarrow> u32 \<Rightarrow> 'a word option" where
  "bits_shift_in x high low = do {
     d \<leftarrow> sub_chk high low; d1 \<leftarrow> add_chk d 1;
     a \<leftarrow> shl_chk 1 (unat d1); mask \<leftarrow> sub_chk a 1;
     y \<leftarrow> shr_chk x (unat low);
     Some (y AND mask) }"

definition bit_set_in :: "'a::len word \<Rightarrow> u32 \<Rightarrow> 'a word option" where
  "bit_set_in x b = do { m \<leftarrow> shl_chk 1 (unat b); Some (if x AND m \<noteq> 0 then 1 else 0) }"

definition bit32 :: "u32 \<Rightarrow> u32 \<Rightarrow> u32 option" where "bit32 = bit_in"
definition bit_shift :: "u32 \<Rightarrow> u32 \<Rightarrow> u32 option" where "bit_shift = bit_shift_in"
definition bits :: "u32 \<Rightarrow> u32 \<Rightarrow> u32 \<Rightarrow> u32 option" where "bits = bits_in"
definition bits_shift :: "u32 \<Rightarrow> u32 \<Rightarrow> u32 \<Rightarrow> u32 option" where "bits_shift = bits_shift_in"
definition bit_set :: "u32 \<Rightarrow> u32 \<Rightarrow> u32 option" where "bit_set = bit_set_in"
definition bit64 :: "u64 \<Rightarrow> u32 \<Rightarrow> u64 option" where "bit64 = bit_in"
definition bit_shift64 :: "u64 \<Rightarrow> u32 \<Rightarrow> u64 option" where "bit_shift64 = bit_shift_in"
definition bits64 :: "u64 \<Rightarrow> u32 \<Rightarrow> u32 \<Rightarrow> u64 option" where "bits64 = bits_in"
definition bits_shift64 :: "u64 \<Rightarrow> u32 \<Rightarrow> u32 \<Rightarrow> u64 option" where "bits_shift64 = bits_shift_in"
definition bit_set64 :: "u64 \<Rightarrow> u32 \<Rightarrow> u64 option" where "bit_set64 = bit_set_in"

lemma shl_one: "k < LENGTH('a) \<Longrightarrow> shl_chk (1 :: 'a::len word) k = Some (2 ^ k)"
  by (simp add: shl_chk_def)

lemma one_le_word: "x \<noteq> 0 \<Longrightarrow> (1 :: 'a::len word) \<le> x"
  by (simp add: word_le_nat_alt Suc_le_eq unat_gt_0)

lemma sub_shl_one: "k < LENGTH('a) \<Longrightarrow> sub_chk (2 ^ k) (1 :: 'a::len word) = Some (mask k)"
  unfolding sub_chk_def by (subst if_P [OF one_le_word]) (simp_all add: mask_eq_exp_minus_1)

lemma add_one_chk:
  "unat (b :: u32) < 64 \<Longrightarrow> add_chk b 1 = Some (b + 1) \<and> unat (b + 1) = Suc (unat b)"
  by (auto simp: add_chk_def unat_word_ariths)

lemma add_one_chk_ge: "n \<le> Suc (unat (b :: u32)) \<Longrightarrow> add_chk b 1 = Some c \<Longrightarrow> n \<le> unat c"
  using unat_add_chk [of b 1 c] by simp

lemma bits_in_eq:
  fixes x :: "'a::len word"
  assumes "LENGTH('a) \<le> 64"
  shows "bits_in x high low = (if Suc (unat high) < LENGTH('a) \<and> unat low < LENGTH('a)
    then Some (x AND (mask (Suc (unat high)) AND NOT (mask (unat low)))) else None)"
proof (cases "Suc (unat high) < LENGTH('a)")
  case True
  with assms have "unat high < 64" by simp
  from add_one_chk [OF this] True show ?thesis
    by (simp add: bits_in_def shl_one sub_shl_one del: power_Suc) (simp add: shl_chk_def)
next
  case False
  then have "LENGTH('a) \<le> unat h" if "add_chk high 1 = Some h" for h
    using add_one_chk_ge [of "LENGTH('a)" high h] that by simp
  with False show ?thesis
    by (cases "add_chk high 1") (auto simp: bits_in_def shl_chk_def)
qed

lemma bits_shift_in_eq:
  fixes x :: "'a::len word"
  assumes "LENGTH('a) \<le> 64"
  shows "bits_shift_in x high low =
    (if low \<le> high \<and> Suc (unat high - unat low) < LENGTH('a) \<and> unat low < LENGTH('a)
     then Some (drop_bit (unat low) x AND mask (Suc (unat high - unat low))) else None)"
proof (cases "low \<le> high")
  case True
  then have d: "sub_chk high low = Some (high - low)" "unat (high - low) = unat high - unat low"
    by (simp_all add: sub_chk_def unat_sub)
  show ?thesis
  proof (cases "Suc (unat (high - low)) < LENGTH('a)")
    case t: True
    with assms have "unat (high - low) < 64" by simp
    from add_one_chk [OF this] t True d show ?thesis
      by (simp add: bits_shift_in_def shl_one sub_shl_one del: power_Suc) (simp add: shr_chk_def)
  next
    case False
    then have "LENGTH('a) \<le> unat h" if "add_chk (high - low) 1 = Some h" for h
      using add_one_chk_ge [of "LENGTH('a)" "high - low" h] that by simp
    with False True d show ?thesis
      by (cases "add_chk (high - low) 1") (auto simp: bits_shift_in_def shl_chk_def)
  qed
qed (simp add: bits_shift_in_def sub_chk_def)

text \<open>What extracting the range \<open>[high:low]\<close> of an \<open>n\<close>-bit word means, and when the code panics.\<close>

definition extracts :: "nat \<Rightarrow> 'a::len word \<Rightarrow> u32 \<Rightarrow> u32 \<Rightarrow> 'a word option \<Rightarrow> bool" where
  "extracts n x high low r \<longleftrightarrow> (case r of
     None \<Rightarrow> n \<le> Suc (unat high) \<or> n \<le> unat low
   | Some y \<Rightarrow> Suc (unat high) < n \<and> unat low < n
       \<and> (\<forall>i. bit y i \<longleftrightarrow> bit x i \<and> unat low \<le> i \<and> i \<le> unat high))"

definition extracts_shifted :: "nat \<Rightarrow> 'a::len word \<Rightarrow> u32 \<Rightarrow> u32 \<Rightarrow> 'a word option \<Rightarrow> bool" where
  "extracts_shifted n x high low r \<longleftrightarrow> (case r of
     None \<Rightarrow> high < low \<or> n \<le> Suc (unat high - unat low) \<or> n \<le> unat low
   | Some y \<Rightarrow> (\<forall>i. bit y i \<longleftrightarrow> bit x (unat low + i) \<and> unat low + i \<le> unat high))"

lemma bits_in_extracts:
  fixes x :: "'a::len word"
  shows "LENGTH('a) \<le> 64 \<Longrightarrow> extracts LENGTH('a) x high low (bits_in x high low)"
  by (auto simp: extracts_def bits_in_eq bit_simps not_less dest: bit_imp_le_length)

lemma bits_shift_in_extracts:
  fixes x :: "'a::len word"
  shows "LENGTH('a) \<le> 64 \<Longrightarrow> extracts_shifted LENGTH('a) x high low (bits_shift_in x high low)"
  by (auto simp: extracts_shifted_def bits_shift_in_eq bit_simps not_less not_le word_le_nat_alt
      word_less_nat_alt dest: bit_imp_le_length)

text \<open>
  \<open>bits\<close> and \<open>bits64\<close> extract exactly the bits of the inclusive range and \<open>bits_shift\<close> and
  \<open>bits_shift64\<close> the same shifted down; they panic when the top bit of the word is asked for
  (respectively the full width), where the shift reaches the width.
\<close>

theorem bits_extract_ranges:
  "extracts 32 x high low (bits x high low) \<and> extracts_shifted 32 x high low (bits_shift x high low)
    \<and> extracts 64 y high low (bits64 y high low)
    \<and> extracts_shifted 64 y high low (bits_shift64 y high low)"
  using bits_in_extracts [of x high low] bits_shift_in_extracts [of x high low]
    bits_in_extracts [of y high low] bits_shift_in_extracts [of y high low]
  by (simp add: bits_def bits_shift_def bits64_def bits_shift64_def)

text \<open>In particular the top bit cannot be part of a range.\<close>

lemma bits_top_panics: "bits x 31 low = None" "bits64 y 63 low = None"
  by (simp_all add: bits_def bits64_def bits_in_eq)

lemma single_bits:
  fixes x :: "'a::len word"
  assumes "unat b < LENGTH('a)"
  shows "bit_shift_in x b = Some (of_bool (bit x (unat b)))"
    and "bit_set_in x b = bit_shift_in x b"
proof -
  have and_one: "w AND 1 = of_bool (bit w 0)" for w :: "'a word"
    by (rule bit_word_eqI) (auto simp: bit_simps bit_1_iff)
  show s: "bit_shift_in x b = Some (of_bool (bit x (unat b)))"
    using assms by (simp add: bit_shift_in_def shr_chk_def and_one bit_drop_bit_eq)
  have "x AND push_bit (unat b) 1 = 0 \<longleftrightarrow> \<not> bit x (unat b)"
    using assms by (fastforce simp: bit_eq_iff [where ?'a = "'a word"] bit_simps)
  with assms show "bit_set_in x b = bit_shift_in x b"
    unfolding s by (simp add: bit_set_in_def shl_chk_def)
qed

section \<open>Masks\<close>

definition bit_mask :: "nat \<Rightarrow> usize" where
  "bit_mask x = (if 64 \<le> x then NOT 0 else push_bit x 1 - 1)"

definition bit_mask32 :: "nat \<Rightarrow> u32" where
  "bit_mask32 x = (if 32 \<le> x then NOT 0 else push_bit x 1 - 1)"

lemma bit_mask_eq: "bit_mask x = mask x" "bit_mask32 y = mask y"
  by (simp_all add: bit_mask_def bit_mask32_def mask_eq_exp_minus_1)

section \<open>Bitmaps\<close>

definition BITMAP_BITS_PER_WORD :: nat where "BITMAP_BITS_PER_WORD = 64"
definition BITMAP_BITS_PER_INT :: nat where "BITMAP_BITS_PER_INT = 32"

definition bitmap_num_words :: "nat \<Rightarrow> nat option" where
  "bitmap_num_words x = do {
     y \<leftarrow> usize_add x BITMAP_BITS_PER_WORD;
     Some ((y - 1) div BITMAP_BITS_PER_WORD) }"

definition bitmap_word :: "nat \<Rightarrow> nat" where
  "bitmap_word x = x div BITMAP_BITS_PER_WORD"

definition bitmap_bit_in_word :: "nat \<Rightarrow> nat" where
  "bitmap_bit_in_word x = x AND (BITMAP_BITS_PER_WORD - 1)"

definition bitmap_int :: "nat \<Rightarrow> nat" where
  "bitmap_int x = x div BITMAP_BITS_PER_INT"

definition bitmap_bit_in_int :: "nat \<Rightarrow> nat" where
  "bitmap_bit_in_int x = x AND (BITMAP_BITS_PER_INT - 1)"

definition bitmap_first_word_mask :: "nat \<Rightarrow> usize" where
  "bitmap_first_word_mask start = push_bit (start mod BITMAP_BITS_PER_WORD) (NOT 0)"

definition bitmap_last_word_mask :: "nat \<Rightarrow> usize" where
  "bitmap_last_word_mask nbits =
     (if nbits mod BITMAP_BITS_PER_WORD \<noteq> 0
      then push_bit (nbits mod BITMAP_BITS_PER_WORD) 1 - 1 else NOT 0)"

text \<open>
  \<open>bitmap_set\<close> and \<open>bitmap_clear\<close> are the same loop with \<open>|= mask\<close> and \<open>&= !mask\<close>; \<open>opr\<close>
  is the one or the other. \<open>bitmap_loop\<close> is the \<open>while\<close>, \<open>bitmap_apply\<close> the whole function.
\<close>

function bitmap_loop ::
  "(usize \<Rightarrow> usize \<Rightarrow> usize) \<Rightarrow> usize list \<Rightarrow> nat \<Rightarrow> nat \<Rightarrow> usize \<Rightarrow> nat \<Rightarrow>
    (usize list \<times> nat \<times> usize \<times> nat) option"
where
  "bitmap_loop opr bitmap p bits_to mask_to remaining =
     (if bits_to \<le> remaining then do {
        w \<leftarrow> idx bitmap p;
        bitmap' \<leftarrow> upd bitmap p (opr w mask_to);
        bitmap_loop opr bitmap' (p + 1) BITMAP_BITS_PER_WORD (NOT 0) (remaining - bits_to) }
      else Some (bitmap, p, mask_to, remaining))"
  by auto
termination
  by (relation "measure (\<lambda>(_, _, _, b, _, r). 2 * r + (if b = 0 then 1 else 0))")
    (auto simp: BITMAP_BITS_PER_WORD_def)

declare bitmap_loop.simps [simp del]

definition bitmap_apply ::
  "(usize \<Rightarrow> usize \<Rightarrow> usize) \<Rightarrow> usize list \<Rightarrow> nat \<Rightarrow> nat \<Rightarrow> usize list option"
where
  "bitmap_apply opr bitmap start nr = do {
     size \<leftarrow> usize_add start nr;
     (bitmap', p, mask_to, remaining) \<leftarrow>
       bitmap_loop opr bitmap (bitmap_word start)
         (BITMAP_BITS_PER_WORD - start mod BITMAP_BITS_PER_WORD) (bitmap_first_word_mask start) nr;
     if 0 < remaining then do {
       w \<leftarrow> idx bitmap' p;
       upd bitmap' p (opr w (mask_to AND bitmap_last_word_mask size)) }
     else Some bitmap' }"

definition bitmap_set :: "usize list \<Rightarrow> nat \<Rightarrow> nat \<Rightarrow> usize list option" where
  "bitmap_set = bitmap_apply (\<lambda>w m. w OR m)"

definition bitmap_clear :: "usize list \<Rightarrow> nat \<Rightarrow> nat \<Rightarrow> usize list option" where
  "bitmap_clear = bitmap_apply (\<lambda>w m. w AND NOT m)"

definition bitmap_test :: "usize list \<Rightarrow> nat \<Rightarrow> bool option" where
  "bitmap_test bitmap b = do {
     w \<leftarrow> idx bitmap (bitmap_word b);
     Some (w AND push_bit (bitmap_bit_in_word b) 1 \<noteq> 0) }"

definition ffz :: "usize \<Rightarrow> nat" where
  "ffz x = trailing_zeros (NOT x)"

text \<open>The \<open>for\<close> loop of \<open>bitmap_ffz\<close> over the word indices \<open>is\<close>.\<close>

fun bitmap_ffz_loop :: "usize list \<Rightarrow> nat \<Rightarrow> nat list \<Rightarrow> nat option option" where
  "bitmap_ffz_loop bitmap numbits [] = Some None"
| "bitmap_ffz_loop bitmap numbits (i # is) = do {
     w \<leftarrow> idx bitmap i;
     if w = NOT 0 then bitmap_ffz_loop bitmap numbits is
     else (let b = i * BITMAP_BITS_PER_WORD + ffz w in
       Some (if b < numbits then Some b else None)) }"

definition bitmap_ffz :: "usize list \<Rightarrow> nat \<Rightarrow> nat option option" where
  "bitmap_ffz bitmap numbits = do {
     n \<leftarrow> bitmap_num_words numbits;
     bitmap_ffz_loop bitmap numbits [0..<n] }"

subsection \<open>A bitmap as a sequence of bits\<close>

definition bit_at :: "usize list \<Rightarrow> nat \<Rightarrow> bool" where
  "bit_at bm i \<longleftrightarrow> bit (bm ! (i div 64)) (i mod 64)"

lemma bitmap_bit_in_word_eq: "bitmap_bit_in_word x = x mod 64"
proof -
  have "x AND 63 = take_bit 6 x" by (simp add: take_bit_eq_mask mask_eq_exp_minus_1)
  then show ?thesis by (simp add: bitmap_bit_in_word_def BITMAP_BITS_PER_WORD_def take_bit_eq_mod)
qed

lemma bitmap_test_bit_at:
  "bitmap_test bm i = (if i < 64 * length bm then Some (bit_at bm i) else None)"
proof -
  have "w AND push_bit k 1 \<noteq> 0 \<longleftrightarrow> bit w k" if "k < 64" for w :: usize and k
    using that by (fastforce simp: bit_eq_iff [where ?'a = usize] bit_simps)
  then show ?thesis
    by (auto simp: bitmap_test_def bitmap_bit_in_word_eq bitmap_word_def BITMAP_BITS_PER_WORD_def
        bit_at_def idx_def less_mult_imp_div_less mult.commute)
qed

text \<open>An operation that gives the bits under the mask the value \<open>v\<close> and leaves the others.\<close>

definition puts :: "(usize \<Rightarrow> usize \<Rightarrow> usize) \<Rightarrow> bool \<Rightarrow> bool" where
  "puts opr v \<longleftrightarrow> (\<forall>w m k. k < 64 \<longrightarrow> bit (opr w m) k = (if bit m k then v else bit w k))"

lemma puts_or: "puts (\<lambda>w m. w OR m) True"
  by (simp add: puts_def bit_simps)

lemma puts_and_not: "puts (\<lambda>w m. w AND NOT m) False"
  by (simp add: puts_def bit_simps)

text \<open>\<open>bm'\<close> is \<open>bm\<close> with the bits from \<open>lo\<close> up to but not including \<open>hi\<close> put to \<open>v\<close>.\<close>

definition filled :: "bool \<Rightarrow> usize list \<Rightarrow> nat \<Rightarrow> nat \<Rightarrow> usize list \<Rightarrow> bool" where
  "filled v bm lo hi bm' \<longleftrightarrow> length bm' = length bm
     \<and> (\<forall>i < 64 * length bm. bit_at bm' i = (if lo \<le> i \<and> i < hi then v else bit_at bm i))"

lemma filled_trans: "filled v bm lo mid bm' \<Longrightarrow> filled v bm' mid hi bm'' \<Longrightarrow> lo \<le> mid \<Longrightarrow> mid \<le> hi
    \<Longrightarrow> filled v bm lo hi bm''"
  unfolding filled_def by (simp add: not_less)

lemma filled_empty: "filled v bm lo lo bm"
  by (auto simp: filled_def)

lemma filled_word:
  assumes "puts opr v" "p < length bm" "lo \<le> hi" "hi \<le> 64"
    and "\<And>k. k < 64 \<Longrightarrow> bit m k \<longleftrightarrow> lo \<le> k \<and> k < hi"
  shows "filled v bm (64 * p + lo) (64 * p + hi) (bm[p := opr (bm ! p) m])"
  unfolding filled_def
proof (intro conjI allI impI)
  fix i assume i: "i < 64 * length bm"
  have split: "i = 64 * (i div 64) + i mod 64" by simp
  show "bit_at (bm[p := opr (bm ! p) m]) i =
      (if 64 * p + lo \<le> i \<and> i < 64 * p + hi then v else bit_at bm i)"
  proof (cases "i div 64 = p")
    case True
    with split have "64 * p + lo \<le> i \<and> i < 64 * p + hi \<longleftrightarrow> lo \<le> i mod 64 \<and> i mod 64 < hi"
      by linarith
    with True assms(1,2,5) show ?thesis by (simp add: bit_at_def puts_def)
  next
    case False
    have "i div 64 = p" if "64 * p + lo \<le> i \<and> i < 64 * p + hi"
      by (rule div_nat_eqI) (use that assms(3,4) in simp_all)
    with False have "\<not> (64 * p + lo \<le> i \<and> i < 64 * p + hi)" by blast
    with False show ?thesis by (auto simp: bit_at_def)
  qed
qed simp

text \<open>
  The loop from the position \<open>64 * p + off\<close>: it stops before the word in which the range ends,
  with the mask of what is left of that word, or panics when it runs off the slice.
\<close>

lemma bitmap_loop_filled:
  assumes "puts opr v" "off < 64"
  shows "case bitmap_loop opr bm p (64 - off) (push_bit off (NOT 0)) r of
      None \<Rightarrow> 64 * length bm < 64 * p + off + r
    | Some (bm', p', m', r') \<Rightarrow> \<exists>off'. off' < 64 \<and> m' = push_bit off' (NOT 0) \<and> r' < 64 - off'
        \<and> 64 * p + off + r = 64 * p' + off' + r' \<and> 64 * p + off \<le> 64 * p' + off'
        \<and> (p' = p \<and> off' = off \<or> p' \<le> length bm \<and> off' = 0)
        \<and> filled v bm (64 * p + off) (64 * p' + off') bm'"
  using assms(2)
proof (induction r arbitrary: bm p off rule: less_induct)
  case (less r)
  let ?m = "push_bit off (NOT 0) :: usize"
  note step = bitmap_loop.simps [of opr bm p "64 - off" ?m r]
  show ?case
  proof (cases "64 - off \<le> r")
    case False
    with step less.prems show ?thesis
      using filled_empty by (auto intro!: exI [of _ off])
  next
    case True
    show ?thesis
    proof (cases "p < length bm")
      case False
      with step True less.prems show ?thesis by (simp add: idx_def)
    next
      case p: True
      let ?bm = "bm[p := opr (bm ! p) ?m]"
      have fill: "filled v bm (64 * p + off) (64 * p + 64) ?bm"
        by (rule filled_word [OF assms(1) p]) (use less.prems in \<open>auto simp: bit_simps\<close>)
      have eq: "bitmap_loop opr bm p (64 - off) ?m r
          = bitmap_loop opr ?bm (p + 1) (64 - 0) (push_bit 0 (NOT 0)) (r - (64 - off))"
        using step True p by (simp add: BITMAP_BITS_PER_WORD_def)
      have IH: "case bitmap_loop opr ?bm (p + 1) (64 - 0) (push_bit 0 (NOT 0)) (r - (64 - off)) of
          None \<Rightarrow> 64 * length ?bm < 64 * (p + 1) + 0 + (r - (64 - off))
        | Some (bm', p', m', r') \<Rightarrow> \<exists>off'. off' < 64 \<and> m' = push_bit off' (NOT 0) \<and> r' < 64 - off'
            \<and> 64 * (p + 1) + 0 + (r - (64 - off)) = 64 * p' + off' + r'
            \<and> 64 * (p + 1) + 0 \<le> 64 * p' + off'
            \<and> (p' = p + 1 \<and> off' = 0 \<or> p' \<le> length ?bm \<and> off' = 0)
            \<and> filled v ?bm (64 * (p + 1) + 0) (64 * p' + off') bm'"
        using less.prems True by (intro less.IH) auto
      show ?thesis
      proof (cases "bitmap_loop opr ?bm (p + 1) (64 - 0) (push_bit 0 (NOT 0)) (r - (64 - off))")
        case None
        with IH eq True p less.prems show ?thesis by simp
      next
        case (Some res)
        obtain bm' p' m' r' where res: "res = (bm', p', m', r')" by (cases res)
        from IH Some res p obtain off' where *: "off' < 64" "m' = push_bit off' (NOT 0)" "r' < 64 - off'"
          "64 * (p + 1) + (r - (64 - off)) = 64 * p' + off' + r'" "64 * (p + 1) \<le> 64 * p' + off'"
          "p' \<le> length bm \<and> off' = 0" "filled v ?bm (64 * (p + 1)) (64 * p' + off') bm'" by auto
        from *(7) have "filled v ?bm (64 * p + 64) (64 * p' + off') bm'" by (simp add: algebra_simps)
        from filled_trans [OF fill this] *(5) less.prems
        have "filled v bm (64 * p + off) (64 * p' + off') bm'" by simp
        with * eq Some res True less.prems show ?thesis by (auto intro!: exI [of _ off'])
      qed
    qed
  qed
qed

lemma bitmap_last_word_mask_bits:
  assumes "n mod 64 = e" "0 < e"
  shows "bitmap_last_word_mask n = mask e"
  using assms by (simp add: bitmap_last_word_mask_def BITMAP_BITS_PER_WORD_def mask_eq_exp_minus_1)

text \<open>The last word, of which only the lower bits are in the range.\<close>

lemma last_word_filled:
  assumes opr: "puts opr v" and q: "q < length bm'" and e: "e = 64 * q + off + r" "0 < r" "off + r < 64"
    and m: "m = push_bit off (NOT 0)" and f: "filled v bm start (64 * q + off) bm'" "start \<le> 64 * q + off"
  shows "filled v bm start e (bm'[q := opr (bm' ! q) (m AND bitmap_last_word_mask e)])"
proof -
  have "e mod 64 = off + r"
    using e(1,3) mod_mult_self4 [of 64 q "off + r"] by (simp add: add.assoc mult.commute)
  then have "bitmap_last_word_mask e = mask (off + r)"
    using e(2,3) by (intro bitmap_last_word_mask_bits) simp_all
  then have "bit (m AND bitmap_last_word_mask e) k \<longleftrightarrow> off \<le> k \<and> k < off + r"
    if "k < 64" for k using that m by (auto simp: bit_simps)
  with filled_word [OF opr q, of off "off + r"] e(3)
  have "filled v bm' (64 * q + off) (64 * q + (off + r))
      (bm'[q := opr (bm' ! q) (m AND bitmap_last_word_mask e)])" by simp
  from filled_trans [OF f(1) this] f(2) e(1) show ?thesis by (simp add: add.assoc)
qed

lemma bitmap_apply_filled:
  assumes opr: "puts opr v" and nr: "0 < nr" "start + nr < 2 ^ 64"
  shows "if start + nr \<le> 64 * length bm
    then \<exists>bm'. bitmap_apply opr bm start nr = Some bm' \<and> filled v bm start (start + nr) bm'
    else bitmap_apply opr bm start nr = None"
proof -
  obtain p off where p_def: "p = start div 64" and off_def: "off = start mod 64" by blast
  have off: "off < 64" and start: "start = 64 * p + off" by (simp_all add: p_def off_def)
  let ?loop = "bitmap_loop opr bm p (64 - off) (push_bit off (NOT 0)) nr"
  have eq: "bitmap_apply opr bm start nr = do {
     (bitmap', q, m, r) \<leftarrow> ?loop;
     if 0 < r then do {
       w \<leftarrow> idx bitmap' q;
       upd bitmap' q (opr w (m AND bitmap_last_word_mask (start + nr))) }
     else Some bitmap' }"
    using nr(2) by (simp add: bitmap_apply_def usize_add_def bitmap_word_def bitmap_first_word_mask_def
        BITMAP_BITS_PER_WORD_def p_def off_def)
  note loop = bitmap_loop_filled [OF opr off, of bm p nr]
  show ?thesis
  proof (cases ?loop)
    case None
    with loop eq start show ?thesis by simp
  next
    case (Some res)
    obtain bm' q m r where res: "res = (bm', q, m, r)" by (cases res)
    from loop Some res obtain o' where q: "o' < 64" "m = push_bit o' (NOT 0)" "r < 64 - o'"
      "start + nr = 64 * q + o' + r" "q = p \<and> o' = off \<or> q \<le> length bm \<and> o' = 0"
      "filled v bm start (64 * q + o') bm'" "64 * p + off \<le> 64 * q + o'"
      by (auto simp: start)
    have len: "length bm' = length bm" using q(6) by (simp add: filled_def)
    show ?thesis
    proof (cases "r = 0")
      case True
      with q nr start have "start + nr \<le> 64 * length bm" by auto
      with True q eq Some res show ?thesis by simp
    next
      case False
      show ?thesis
      proof (cases "q < length bm")
        case out: False
        with False eq Some res len have "bitmap_apply opr bm start nr = None" by (simp add: idx_def)
        moreover have "\<not> start + nr \<le> 64 * length bm" using out False q(4) by simp
        ultimately show ?thesis by simp
      next
        case True
        have "filled v bm start (start + nr)
            (bm'[q := opr (bm' ! q) (m AND bitmap_last_word_mask (start + nr))])"
          by (rule last_word_filled [OF opr _ q(4) _ _ q(2,6)]) (use True False len q(3,7) start in simp_all)
        moreover have "start + nr \<le> 64 * length bm" using True q(3,4) by simp
        ultimately show ?thesis using eq Some res False True len by simp
      qed
    qed
  qed
qed

text \<open>
  C33: \<open>bitmap_set\<close> and \<open>bitmap_clear\<close> set and clear exactly the \<open>nr\<close> bits from \<open>start\<close> and keep
  every other bit, over any number of words; they panic exactly when the range leaves the slice.
\<close>

theorem bitmap_set_clear_ranges:
  assumes "0 < nr" "start + nr < 2 ^ 64"
  shows "if start + nr \<le> 64 * length bm
    then (\<exists>bm'. bitmap_set bm start nr = Some bm' \<and> filled True bm start (start + nr) bm')
      \<and> (\<exists>bm'. bitmap_clear bm start nr = Some bm' \<and> filled False bm start (start + nr) bm')
    else bitmap_set bm start nr = None \<and> bitmap_clear bm start nr = None"
  using bitmap_apply_filled [OF puts_or assms, of bm]
    bitmap_apply_filled [OF puts_and_not assms, of bm]
  by (simp add: bitmap_set_def bitmap_clear_def split: if_splits)

theorem bitmap_set_clear_ranges_witness:
  "\<exists>bm'. bitmap_set [0, 0] 60 7 = Some bm' \<and> filled True [0, 0] 60 67 bm'"
  using bitmap_set_clear_ranges [of 7 60 "[0, 0]"] by simp

subsection \<open>The first zero\<close>

text \<open>What a search for the first zero among the first \<open>n\<close> bits must return.\<close>

definition first_zero :: "usize list \<Rightarrow> nat \<Rightarrow> nat option \<Rightarrow> bool" where
  "first_zero bm n r \<longleftrightarrow> (case r of
     None \<Rightarrow> \<forall>i < n. bit_at bm i
   | Some b \<Rightarrow> b < n \<and> \<not> bit_at bm b \<and> (\<forall>i < b. bit_at bm i))"

lemma ffz_cases:
  assumes "w \<noteq> NOT 0"
  shows "ffz w < 64" "\<not> bit w (ffz w)" "i < ffz w \<Longrightarrow> bit w i"
proof -
  have "NOT w \<noteq> 0" using assms by (metis bit.double_compl)
  note z = trailing_zeros_cases(3) [OF this] trailing_zeros_cases(2) [of i "NOT w"]
  then show lt: "ffz w < 64" and "\<not> bit w (ffz w)" by (simp_all add: ffz_def bit_not_iff)
  show "bit w i" if "i < ffz w" using that z lt by (simp add: ffz_def bit_not_iff)
qed

lemma bitmap_ffz_loop_first_zero:
  assumes "n \<le> length bm" "numbits \<le> 64 * n" "a \<le> n" "\<And>i. i < 64 * a \<Longrightarrow> bit_at bm i"
    and "a < n \<Longrightarrow> 64 * (n - 1) < numbits"
  shows "\<exists>r. bitmap_ffz_loop bm numbits [a..<n] = Some r \<and> first_zero bm numbits r"
  using assms(3-5)
proof (induction "n - a" arbitrary: a)
  case 0
  with assms(2) show ?case by (simp add: first_zero_def)
next
  case (Suc d)
  then have a: "a < n" "[a..<n] = a # [Suc a..<n]" by (simp_all add: upt_conv_Cons)
  let ?w = "bm ! a"
  show ?case
  proof (cases "?w = NOT 0")
    case True
    have "bit_at bm i" if "i < 64 * Suc a" for i
    proof (cases "i < 64 * a")
      case False
      with that have "i div 64 = a" by (intro div_nat_eqI) simp_all
      with True show ?thesis by (simp add: bit_at_def bit_not_iff)
    qed (use Suc.prems in simp)
    with Suc a assms(1) True show ?thesis by simp
  next
    case False
    note z = ffz_cases [OF False]
    let ?b = "a * 64 + ffz ?w"
    have at: "bit_at bm (a * 64 + k) \<longleftrightarrow> bit ?w k" if "k < 64" for k
      using that by (simp add: bit_at_def)
    have below: "bit_at bm i" if "i < ?b" for i
    proof (cases "i < 64 * a")
      case False
      then have "bit_at bm (a * 64 + (i - a * 64))" using that z(1) z(3) [of "i - a * 64"]
        by (subst at) auto
      with False show ?thesis by simp
    qed (use Suc.prems in simp)
    have "first_zero bm numbits (if ?b < numbits then Some ?b else None)"
      using below z(2) at [OF z(1)] by (auto simp: first_zero_def)
    with a assms(1) False show ?thesis by (simp add: BITMAP_BITS_PER_WORD_def Let_def)
  qed
qed

text \<open>
  \<open>bitmap_ffz\<close> returns the first zero among the first \<open>numbits\<close> bits, or \<open>None\<close> when they
  are all set, and never panics on a slice that holds that many bits.
\<close>

theorem bitmap_ffz_first_zero:
  assumes "numbits \<le> 64 * length bm" "numbits + 64 < 2 ^ 64"
  shows "\<exists>r. bitmap_ffz bm numbits = Some r \<and> first_zero bm numbits r"
proof -
  let ?n = "(numbits + 63) div 64"
  have n: "bitmap_num_words numbits = Some ?n"
    using assms(2) by (simp add: bitmap_num_words_def usize_add_def BITMAP_BITS_PER_WORD_def)
  have "?n \<le> length bm" "numbits \<le> 64 * ?n" using assms(1) by linarith+
  from bitmap_ffz_loop_first_zero [OF this, of 0] n show ?thesis
    by (simp add: bitmap_ffz_def)
qed

theorem bitmap_ffz_first_zero_witness:
  "\<exists>r. bitmap_ffz [NOT 0, 5] 66 = Some r \<and> first_zero [NOT 0, 5] 66 r"
  using bitmap_ffz_first_zero [of 66 "[NOT 0, 5]"] by simp

end
