(* ===== verification/Time.thy ===== *)
theory Time
  imports Prelude
begin

text \<open>
  Time arithmetic, \<open>src/variables/time.rs\<close>, on \<open>i64\<close> nanoseconds and ticks, kept as 64-bit
  words read with \<open>sint\<close>. First Rust's checked and saturating operations of the standard
  library, then the functions of the file, then what they compute on the integers.
\<close>

section \<open>Checked and saturating arithmetic of \<open>i64\<close>\<close>

definition i64_MIN :: int where "i64_MIN = - (2 ^ 63)"
definition i64_MAX :: int where "i64_MAX = 2 ^ 63 - 1"

definition in_i64 :: "int \<Rightarrow> bool" where
  "in_i64 x \<longleftrightarrow> i64_MIN \<le> x \<and> x \<le> i64_MAX"

definition checked :: "int \<Rightarrow> i64 option" where
  "checked x = (if in_i64 x then Some (of_int x) else None)"

definition clamp :: "int \<Rightarrow> int" where
  "clamp x = max i64_MIN (min i64_MAX x)"

definition checked_add :: "i64 \<Rightarrow> i64 \<Rightarrow> i64 option" where
  "checked_add a b = checked (sint a + sint b)"

definition checked_sub :: "i64 \<Rightarrow> i64 \<Rightarrow> i64 option" where
  "checked_sub a b = checked (sint a - sint b)"

definition checked_mul :: "i64 \<Rightarrow> i64 \<Rightarrow> i64 option" where
  "checked_mul a b = checked (sint a * sint b)"

definition saturating_add :: "i64 \<Rightarrow> i64 \<Rightarrow> i64" where
  "saturating_add a b = of_int (clamp (sint a + sint b))"

definition saturating_sub :: "i64 \<Rightarrow> i64 \<Rightarrow> i64" where
  "saturating_sub a b = of_int (clamp (sint a - sint b))"

section \<open>The functions\<close>

definition ZX_TIME_INFINITE :: i64 where "ZX_TIME_INFINITE = of_int i64_MAX"
definition ZX_TIME_INFINITE_PAST :: i64 where "ZX_TIME_INFINITE_PAST = of_int i64_MIN"

definition zx_time_add_duration :: "i64 \<Rightarrow> i64 \<Rightarrow> i64" where
  "zx_time_add_duration time duration = (case checked_add time duration of
     Some x \<Rightarrow> x
   | None \<Rightarrow> if 0 <=s saturating_add time duration then ZX_TIME_INFINITE_PAST else ZX_TIME_INFINITE)"

definition zx_time_sub_duration :: "i64 \<Rightarrow> i64 \<Rightarrow> i64" where
  "zx_time_sub_duration time duration = (case checked_sub time duration of
     Some x \<Rightarrow> x
   | None \<Rightarrow> if 0 <=s saturating_sub time duration then ZX_TIME_INFINITE_PAST else ZX_TIME_INFINITE)"

definition zx_time_sub_time :: "i64 \<Rightarrow> i64 \<Rightarrow> i64" where
  "zx_time_sub_time time1 time2 = (case checked_sub time1 time2 of
     Some x \<Rightarrow> x
   | None \<Rightarrow> if 0 <=s saturating_sub time1 time2 then ZX_TIME_INFINITE_PAST else ZX_TIME_INFINITE)"

definition zx_duration_add_duration :: "i64 \<Rightarrow> i64 \<Rightarrow> i64" where
  "zx_duration_add_duration dur1 dur2 = saturating_add dur1 dur2"

definition zx_duration_sub_duration :: "i64 \<Rightarrow> i64 \<Rightarrow> i64" where
  "zx_duration_sub_duration dur1 dur2 = saturating_sub dur1 dur2"

definition zx_duration_mul_int64 :: "i64 \<Rightarrow> i64 \<Rightarrow> i64" where
  "zx_duration_mul_int64 duration multiplier = (case checked_mul duration multiplier of
     Some x \<Rightarrow> x
   | None \<Rightarrow>
       if 0 <s duration \<and> 0 <s multiplier \<or> duration <s 0 \<and> multiplier <s 0
       then ZX_TIME_INFINITE else ZX_TIME_INFINITE_PAST)"

definition zx_nsec_from_duration :: "i64 \<Rightarrow> i64" where
  "zx_nsec_from_duration n = n"

definition zx_duration_from_nsec :: "i64 \<Rightarrow> i64" where
  "zx_duration_from_nsec n = zx_duration_mul_int64 1 n"

definition zx_duration_from_usec :: "i64 \<Rightarrow> i64" where
  "zx_duration_from_usec n = zx_duration_mul_int64 1000 n"

definition zx_duration_from_msec :: "i64 \<Rightarrow> i64" where
  "zx_duration_from_msec n = zx_duration_mul_int64 1000000 n"

definition zx_duration_from_sec :: "i64 \<Rightarrow> i64" where
  "zx_duration_from_sec n = zx_duration_mul_int64 1000000000 n"

definition zx_duration_from_min :: "i64 \<Rightarrow> i64" where
  "zx_duration_from_min n = zx_duration_mul_int64 60000000000 n"

definition zx_duration_from_hour :: "i64 \<Rightarrow> i64" where
  "zx_duration_from_hour n = zx_duration_mul_int64 3600000000000 n"

definition zx_ticks_add_ticks :: "i64 \<Rightarrow> i64 \<Rightarrow> i64" where
  "zx_ticks_add_ticks ticks1 ticks2 = saturating_add ticks1 ticks2"

definition zx_ticks_sub_ticks :: "i64 \<Rightarrow> i64 \<Rightarrow> i64" where
  "zx_ticks_sub_ticks ticks1 ticks2 = saturating_sub ticks1 ticks2"

definition zx_ticks_mul_int64 :: "i64 \<Rightarrow> i64 \<Rightarrow> i64" where
  "zx_ticks_mul_int64 ticks multiplier = (case checked_mul ticks multiplier of
     Some x \<Rightarrow> x
   | None \<Rightarrow>
       if 0 <s ticks \<and> 0 <s multiplier \<or> ticks <s 0 \<and> multiplier <s 0
       then ZX_TIME_INFINITE else ZX_TIME_INFINITE_PAST)"

definition zx_nsec :: "i64 \<Rightarrow> i64" where "zx_nsec n = zx_duration_from_nsec n"
definition zx_usec :: "i64 \<Rightarrow> i64" where "zx_usec n = zx_duration_from_usec n"
definition zx_msec :: "i64 \<Rightarrow> i64" where "zx_msec n = zx_duration_from_msec n"
definition zx_sec :: "i64 \<Rightarrow> i64" where "zx_sec n = zx_duration_from_sec n"
definition zx_min :: "i64 \<Rightarrow> i64" where "zx_min n = zx_duration_from_min n"
definition zx_hour :: "i64 \<Rightarrow> i64" where "zx_hour n = zx_duration_from_hour n"

section \<open>On the integers\<close>

lemma i64_bounds: "i64_MIN \<le> sint (a :: i64)" "sint (a :: i64) \<le> i64_MAX"
  using sint_greater_eq [of a] sint_less [of a] by (simp_all add: i64_MIN_def i64_MAX_def)

lemma sint_of_int: "in_i64 x \<Longrightarrow> sint (of_int x :: i64) = x"
  by (simp add: in_i64_def i64_MIN_def i64_MAX_def signed_take_bit_int_eq_self sint_sbintrunc')

lemma in_i64_clamp: "in_i64 (clamp x)"
  by (auto simp: in_i64_def clamp_def i64_MIN_def i64_MAX_def)

lemma clamp_in: "in_i64 x \<Longrightarrow> clamp x = x"
  by (auto simp: in_i64_def clamp_def)

lemma sint_saturating:
  "sint (saturating_add a b) = clamp (sint a + sint b)"
  "sint (saturating_sub a b) = clamp (sint a - sint b)"
  by (simp_all add: saturating_add_def saturating_sub_def sint_of_int in_i64_clamp)

lemma sint_infinite:
  "sint ZX_TIME_INFINITE = i64_MAX" "sint ZX_TIME_INFINITE_PAST = i64_MIN"
  unfolding ZX_TIME_INFINITE_def ZX_TIME_INFINITE_PAST_def
  by (rule sint_of_int, simp add: in_i64_def i64_MIN_def i64_MAX_def)+

lemma checked_cases:
  obtains "in_i64 x" "checked x = Some (of_int x)" | "\<not> in_i64 x" "checked x = None"
  by (cases "in_i64 x") (simp_all add: checked_def)

lemma not_in_i64: "\<not> in_i64 x \<Longrightarrow> 0 < x \<and> clamp x = i64_MAX \<or> x < 0 \<and> clamp x = i64_MIN"
  by (auto simp: in_i64_def clamp_def i64_MIN_def i64_MAX_def)

lemma signed_sint: "0 <=s a \<longleftrightarrow> 0 \<le> sint a" "0 <s a \<longleftrightarrow> 0 < sint a" "a <s 0 \<longleftrightarrow> sint a < 0"
  by (simp_all add: word_sle_eq word_sless_alt)

text \<open>What a product that does not fit was: its sign decides.\<close>

lemma mul_saturates:
  "sint (case checked_mul a b of Some x \<Rightarrow> x
     | None \<Rightarrow> if 0 <s a \<and> 0 <s b \<or> a <s 0 \<and> b <s 0 then ZX_TIME_INFINITE else ZX_TIME_INFINITE_PAST)
   = clamp (sint a * sint b)"
proof (cases "sint a * sint b" rule: checked_cases)
  case 1
  show ?thesis
    unfolding checked_mul_def 1(2) by (simp only: option.case sint_of_int [OF 1(1)] clamp_in [OF 1(1)])
next
  case 2
  have "0 < sint a * sint b \<longleftrightarrow> 0 < sint a \<and> 0 < sint b \<or> sint a < 0 \<and> sint b < 0"
    by (auto simp: zero_less_mult_iff)
  with 2 not_in_i64 [OF 2(1)] show ?thesis
    by (auto simp: checked_mul_def signed_sint sint_infinite)
qed

lemma mul_const: "sint (zx_duration_mul_int64 c n) = clamp (sint c * sint n)"
  by (simp add: zx_duration_mul_int64_def mul_saturates)

text \<open>
  Durations and ticks saturate: sums, differences and products are the exact integer result
  clamped to the range of \<open>i64\<close>.
\<close>

theorem durations_saturate:
  "sint (zx_duration_mul_int64 a b) = clamp (sint a * sint b)
    \<and> sint (zx_ticks_mul_int64 a b) = clamp (sint a * sint b)
    \<and> sint (zx_duration_add_duration a b) = clamp (sint a + sint b)
    \<and> sint (zx_duration_sub_duration a b) = clamp (sint a - sint b)
    \<and> sint (zx_ticks_add_ticks a b) = clamp (sint a + sint b)
    \<and> sint (zx_ticks_sub_ticks a b) = clamp (sint a - sint b)"
  by (simp add: zx_duration_mul_int64_def zx_ticks_mul_int64_def mul_saturates sint_saturating
      zx_duration_add_duration_def zx_duration_sub_duration_def zx_ticks_add_ticks_def
      zx_ticks_sub_ticks_def)

text \<open>The unit conversions multiply by the number of nanoseconds.\<close>

lemma units:
  "sint (zx_nsec n) = sint n"
  "sint (zx_usec n) = clamp (1000 * sint n)"
  "sint (zx_msec n) = clamp (1000 * 1000 * sint n)"
  "sint (zx_sec n) = clamp (10 ^ 9 * sint n)"
  "sint (zx_min n) = clamp (60 * 10 ^ 9 * sint n)"
  "sint (zx_hour n) = clamp (60 * 60 * 10 ^ 9 * sint n)"
proof -
  have "clamp (sint n) = sint n" using i64_bounds [of n] by (simp add: clamp_in in_i64_def)
  then show "sint (zx_nsec n) = sint n"
    by (simp add: zx_nsec_def zx_duration_from_nsec_def mul_const)
qed (simp_all add: zx_usec_def zx_msec_def zx_sec_def zx_min_def zx_hour_def mul_const
    zx_duration_from_usec_def zx_duration_from_msec_def zx_duration_from_sec_def
    zx_duration_from_min_def zx_duration_from_hour_def)

text \<open>
  The three functions on points in time fall back to the wrong end: the exact value when it
  fits, else the past for a result above the range and infinity for one below.
\<close>

definition wrong_end :: "int \<Rightarrow> int" where
  "wrong_end x = (if in_i64 x then x else if 0 < x then i64_MIN else i64_MAX)"

lemma fallback_wrong_end:
  "sint (case checked x of Some y \<Rightarrow> y
     | None \<Rightarrow> if 0 \<le> clamp x then ZX_TIME_INFINITE_PAST else ZX_TIME_INFINITE) = wrong_end x"
proof (cases x rule: checked_cases)
  case 2
  with not_in_i64 [OF 2(1)] show ?thesis
    by (auto simp: wrong_end_def sint_infinite i64_MIN_def i64_MAX_def)
qed (simp add: wrong_end_def sint_of_int)

text \<open>
  Adding a duration to a time, and subtracting a duration or a time, are exact when the
  result fits; when it overflows upwards the result is the infinite past, and when it overflows
  downwards it is infinity.
\<close>

theorem times_saturate_at_the_wrong_end:
  "sint (zx_time_add_duration a b) = wrong_end (sint a + sint b)
    \<and> sint (zx_time_sub_duration a b) = wrong_end (sint a - sint b)
    \<and> sint (zx_time_sub_time a b) = wrong_end (sint a - sint b)"
  unfolding zx_time_add_duration_def zx_time_sub_duration_def zx_time_sub_time_def
    checked_add_def checked_sub_def signed_sint sint_saturating
  by (intro conjI fallback_wrong_end)

text \<open>A deadline one tick past the end of time is in the past.\<close>

lemma infinite_plus_one: "zx_time_add_duration ZX_TIME_INFINITE 1 = ZX_TIME_INFINITE_PAST"
  by (simp add: zx_time_add_duration_def checked_add_def checked_def in_i64_def sint_infinite
      i64_MAX_def i64_MIN_def signed_sint sint_saturating clamp_def)

end
