(* ===== verification/TaskId.thy ===== *)
theory TaskId
  imports Interfaces
begin

text \<open>
  Task identifiers, \<open>src/task/task_id.rs\<close>: a generation in the upper and a slot index in the
  lower half of a \<open>u64\<close>, ordered by the raw value, and the atomic cell that holds one.
\<close>

datatype task_id = TaskId (raw: u64)

definition TaskId_IDLE :: task_id where
  "TaskId_IDLE = TaskId 0"

definition TaskId_from_raw :: "u64 \<Rightarrow> task_id" where
  "TaskId_from_raw r = TaskId r"

definition TaskId_new :: "u32 \<Rightarrow> u32 \<Rightarrow> task_id" where
  "TaskId_new i generation = TaskId (pack32 generation (ucast i))"

definition TaskId_raw :: "task_id \<Rightarrow> u64" where
  "TaskId_raw t = raw t"

definition TaskId_index :: "task_id \<Rightarrow> u32" where
  "TaskId_index t = ucast (low32 (raw t))"

definition TaskId_generation :: "task_id \<Rightarrow> u32" where
  "TaskId_generation t = high32 (raw t)"

definition TaskId_next_generation :: "task_id \<Rightarrow> task_id" where
  "TaskId_next_generation t = TaskId (raw t + push_bit 32 1)"

definition TaskId_is_idle :: "task_id \<Rightarrow> bool" where
  "TaskId_is_idle t \<longleftrightarrow> raw t = 0"

text \<open>The derived order is that of the raw values.\<close>

text \<open>The derived \<open>PartialOrd\<close> and \<open>Ord\<close> compare the raw values.\<close>

definition TaskId_le :: "task_id \<Rightarrow> task_id \<Rightarrow> bool" where
  "TaskId_le s t \<longleftrightarrow> raw s \<le> raw t"

instantiation task_id :: linorder
begin

definition less_eq_task_id :: "task_id \<Rightarrow> task_id \<Rightarrow> bool" where
  "less_eq_task_id = TaskId_le"

definition less_task_id :: "task_id \<Rightarrow> task_id \<Rightarrow> bool" where
  "less_task_id s t \<longleftrightarrow> raw s < raw t"

instance
  by standard (auto simp: less_eq_task_id_def TaskId_le_def less_task_id_def intro: task_id.expand)

end

text \<open>The atomic cell; the result of a compare-exchange is \<open>Inr\<close> the old value or \<open>Inl\<close> it.\<close>

definition AtomicTaskId_new :: "task_id \<Rightarrow> u64" where
  "AtomicTaskId_new t = raw t"

definition AtomicTaskId_load :: "u64 \<Rightarrow> task_id" where
  "AtomicTaskId_load cell = TaskId cell"

definition AtomicTaskId_store :: "task_id \<Rightarrow> u64 \<Rightarrow> u64" where
  "AtomicTaskId_store t cell = raw t"

definition AtomicTaskId_swap :: "task_id \<Rightarrow> u64 \<Rightarrow> task_id \<times> u64" where
  "AtomicTaskId_swap t cell = (TaskId cell, raw t)"

definition AtomicTaskId_compare_exchange ::
  "task_id \<Rightarrow> task_id \<Rightarrow> u64 \<Rightarrow> (task_id + task_id) \<times> u64" where
  "AtomicTaskId_compare_exchange current new cell =
     (if cell = raw current then (Inr (TaskId cell), raw new) else (Inl (TaskId cell), cell))"

text \<open>How an identifier is shown; the standard library prints a \<open>u32\<close> in decimal.\<close>

fun decimal :: "nat \<Rightarrow> string" where
  "decimal n = (if n < 10 then [char_of (48 + n)] else decimal (n div 10) @ [char_of (48 + n mod 10)])"

declare decimal.simps [simp del]

definition TaskId_fmt :: "task_id \<Rightarrow> string" where
  "TaskId_fmt t = ''TaskId(gen='' @ decimal (unat (TaskId_generation t)) @ '', idx=''
     @ decimal (unat (TaskId_index t)) @ '')''"

section \<open>Taking identifiers apart\<close>

lemma TaskId_index_new [simp]: "TaskId_index (TaskId_new i g) = i"
  by (simp add: TaskId_index_def TaskId_new_def low32_pack32 ucast_ucast_u32)

lemma TaskId_generation_new [simp]: "TaskId_generation (TaskId_new i g) = g"
  by (simp add: TaskId_generation_def TaskId_new_def high32_pack32)

lemma ucast_low32: "ucast (ucast (low32 x) :: u32) = low32 x"
  unfolding low32_def mask32_eq by (rule bit_word_eqI) (auto simp: bit_simps)

lemma TaskId_new_split: "TaskId_new (TaskId_index t) (TaskId_generation t) = t"
  by (cases t) (simp add: TaskId_new_def TaskId_index_def TaskId_generation_def ucast_low32
      pack32_high_low)

interpretation task_id: generational_id TaskId_new TaskId_index TaskId_generation
  by unfold_locales (simp_all add: TaskId_new_split)

section \<open>Reading an identifier back\<close>

definition is_digit :: "char \<Rightarrow> bool" where
  "is_digit c \<longleftrightarrow> 48 \<le> (of_char c :: nat) \<and> (of_char c :: nat) < 58"

definition read_decimal :: "string \<Rightarrow> nat" where
  "read_decimal = foldl (\<lambda>n c. 10 * n + (of_char c - 48)) 0"

lemma of_char_digit: "n < 10 \<Longrightarrow> (of_char (char_of (48 + n :: nat)) :: nat) = 48 + n"
  by (simp add: of_char_of)

lemma decimal_digits: "c \<in> set (decimal n) \<Longrightarrow> is_digit c"
proof (induction n rule: decimal.induct)
  case (1 n)
  then show ?case
    by (subst (asm) (2) decimal.simps) (auto simp: is_digit_def of_char_digit split: if_splits)
qed

lemma read_decimal [simp]: "read_decimal (decimal n) = n"
proof (induction n rule: decimal.induct)
  case (1 n)
  then show ?case
    by (subst decimal.simps) (auto simp: read_decimal_def of_char_digit)
qed

definition TaskId_read :: "string \<Rightarrow> task_id" where
  "TaskId_read s = (let gen = drop 11 s; rest = drop 6 (dropWhile is_digit gen) in
     TaskId_new (of_nat (read_decimal (takeWhile is_digit rest))) (of_nat (read_decimal (takeWhile is_digit gen))))"

lemma digits_prefix:
  assumes "\<not> is_digit c"
  shows "takeWhile is_digit (decimal n @ c # xs) = decimal n" "dropWhile is_digit (decimal n @ c # xs) = c # xs"
  using assms by (simp_all add: decimal_digits takeWhile_append2 dropWhile_append2)

text \<open>The text shows which identifier it is.\<close>

lemma TaskId_fmt_read: "TaskId_read (TaskId_fmt t) = t"
proof -
  have "\<not> is_digit (CHR '','')" "\<not> is_digit (CHR '')'')" by (simp_all add: is_digit_def)
  then show ?thesis
    by (simp add: TaskId_read_def TaskId_fmt_def Let_def digits_prefix TaskId_new_split)
qed

lemma TaskId_fmt_eq: "TaskId_fmt s = TaskId_fmt t \<longleftrightarrow> s = t"
  by (metis TaskId_fmt_read)

text \<open>Two texts that go on after a number agree on the number and on what follows.\<close>

lemma decimal_append:
  assumes "\<not> is_digit c"
  shows "decimal m @ c # xs = decimal n @ c # ys \<longleftrightarrow> m = n \<and> xs = ys"
  using digits_prefix [OF assms, of m xs] digits_prefix [OF assms, of n ys] read_decimal
  by (metis list.inject)

lemma TaskId_fmt_append: "TaskId_fmt s @ xs = TaskId_fmt t @ ys \<longleftrightarrow> s = t \<and> xs = ys"
proof -
  have d: "\<not> is_digit (CHR '','')" "\<not> is_digit (CHR '')'')" by (simp_all add: is_digit_def)
  have "s = t" if "TaskId_generation s = TaskId_generation t" "TaskId_index s = TaskId_index t"
    using that TaskId_new_split by metis
  then show ?thesis by (auto simp: TaskId_fmt_def decimal_append d simp flip: word_unat_eq_iff)
qed

section \<open>Generations\<close>

lemma unat_ucast_u32: "unat (ucast (g :: u32) :: u64) = unat g"
  using unat_u32_less [of g] by (simp add: unsigned_ucast_eq take_bit_nat_eq_self)

lemma pack32_add: "pack32 g (ucast (i :: u32)) = of_nat (unat g * 2 ^ 32 + unat i)"
proof -
  have "push_bit 32 (ucast g) AND (ucast i :: u64) = 0"
    by (rule bit_word_eqI) (auto simp: bit_simps dest: bit_imp_le_length)
  then have "pack32 g (ucast i) = push_bit 32 (ucast g) + ucast i"
    unfolding pack32_def by (simp add: disjunctive_add_eq_or)
  also have "\<dots> = of_nat (unat (ucast g :: u64)) * 2 ^ 32 + of_nat (unat (ucast i :: u64))"
    by (simp add: push_bit_eq_mult)
  finally show ?thesis by (simp only: unat_ucast_u32) simp
qed

lemma next_generation_new: "TaskId_next_generation (TaskId_new i g) = TaskId_new i (g + 1)"
proof -
  have "(of_nat (unat (g + 1) * 2 ^ 32) :: u64) = of_nat ((unat g + 1) * 2 ^ 32)"
  proof (cases "unat g + 1 = 2 ^ 32")
    case True
    then have "unat (g + 1) = 0" by (simp add: unat_word_ariths)
    moreover have "(of_nat ((unat g + 1) * 2 ^ 32) :: u64) = 0"
      unfolding True by simp
    ultimately show ?thesis by simp
  next
    case False
    then have "unat (g + 1) = unat g + 1"
      using unat_u32_less [of g] by (simp add: unat_word_ariths)
    then show ?thesis by simp
  qed
  then show ?thesis
    by (simp add: TaskId_next_generation_def TaskId_new_def pack32_add algebra_simps)
qed

lemma next_generations: "(TaskId_next_generation ^^ k) (TaskId_new i g) = TaskId_new i (g + of_nat k)"
  by (induction k) (simp_all add: next_generation_new algebra_simps)

text \<open>
  Advancing the generation keeps the slot index and adds one to the generation, wrapping
  around only in the upper half: the identifiers of a slot are all different for 2^32 reuses,
  and then start over.
\<close>

theorem next_generation_cycles:
  "TaskId_index ((TaskId_next_generation ^^ k) t) = TaskId_index t
    \<and> TaskId_generation ((TaskId_next_generation ^^ k) t) = TaskId_generation t + of_nat k
    \<and> ((TaskId_next_generation ^^ k) t = t \<longleftrightarrow> 2 ^ 32 dvd k)"
proof -
  define i g where "i = TaskId_index t" and "g = TaskId_generation t"
  have t: "t = TaskId_new i g" by (simp add: i_def g_def TaskId_new_split)
  have "(of_nat k :: u32) = 0 \<longleftrightarrow> 2 ^ 32 dvd k" by (simp add: word_of_nat_eq_0_iff)
  then show ?thesis
    unfolding t next_generations by (simp add: task_id.mk_eq_iff)
qed

lemma is_idle_iff: "TaskId_is_idle t \<longleftrightarrow> t = TaskId_IDLE"
  by (cases t) (simp add: TaskId_is_idle_def TaskId_IDLE_def)

end
