(* ===== verification/TaskState.thy ===== *)
theory TaskState
  imports Interfaces
begin

text \<open>
  The task state machine, \<open>src/task/task_state.rs\<close>: the states, and the atomic cell that holds
  one as a \<open>u32\<close> and changes by compare-exchange.
\<close>

datatype task_state = Created | Ready | Running | Blocked | Dying | Dead

text \<open>\<open>self as u32\<close> and the way back.\<close>

fun TaskState_to_u32 :: "task_state \<Rightarrow> u32" where
  "TaskState_to_u32 Created = 0"
| "TaskState_to_u32 Ready = 1"
| "TaskState_to_u32 Running = 2"
| "TaskState_to_u32 Blocked = 3"
| "TaskState_to_u32 Dying = 4"
| "TaskState_to_u32 Dead = 5"

definition TaskState_from_u32 :: "u32 \<Rightarrow> task_state option" where
  "TaskState_from_u32 val =
     (if val = 0 then Some Created
      else if val = 1 then Some Ready
      else if val = 2 then Some Running
      else if val = 3 then Some Blocked
      else if val = 4 then Some Dying
      else if val = 5 then Some Dead
      else None)"

fun TaskState_fmt :: "task_state \<Rightarrow> string" where
  "TaskState_fmt Created = ''CREATED''"
| "TaskState_fmt Ready = ''READY''"
| "TaskState_fmt Running = ''RUNNING''"
| "TaskState_fmt Blocked = ''BLOCKED''"
| "TaskState_fmt Dying = ''DYING''"
| "TaskState_fmt Dead = ''DEAD''"

definition AtomicTaskState_new :: "task_state \<Rightarrow> u32" where
  "AtomicTaskState_new initial = TaskState_to_u32 initial"

text \<open>\<open>None\<close>: the panic of \<open>expect\<close> on a value that is no state.\<close>

definition AtomicTaskState_get :: "u32 \<Rightarrow> task_state option" where
  "AtomicTaskState_get cell = TaskState_from_u32 cell"

definition AtomicTaskState_transition ::
  "task_state \<Rightarrow> task_state \<Rightarrow> u32 \<Rightarrow> ((task_state + unit) \<times> u32) option" where
  "AtomicTaskState_transition expected new cell =
     (if cell = TaskState_to_u32 expected then Some (Inr (), TaskState_to_u32 new)
      else do { current \<leftarrow> TaskState_from_u32 cell; Some (Inl current, cell) })"

definition AtomicTaskState_set :: "task_state \<Rightarrow> u32 \<Rightarrow> u32" where
  "AtomicTaskState_set new cell = TaskState_to_u32 new"

section \<open>The cell always holds a state\<close>

lemma from_to_u32 [simp]: "TaskState_from_u32 (TaskState_to_u32 s) = Some s"
  by (cases s) (simp_all add: TaskState_from_u32_def)

lemma to_u32_eq_iff [simp]: "TaskState_to_u32 s = TaskState_to_u32 t \<longleftrightarrow> s = t"
  by (metis from_to_u32 option.inject)

lemma to_from_u32: "TaskState_from_u32 v = Some s \<Longrightarrow> TaskState_to_u32 s = v"
  by (auto simp: TaskState_from_u32_def split: if_splits)

lemma fmt_inj: "TaskState_fmt s = TaskState_fmt t \<longleftrightarrow> s = t"
  by (cases s; cases t) simp_all

lemma get_to_u32 [simp]: "AtomicTaskState_get (TaskState_to_u32 s) = Some s"
  by (simp add: AtomicTaskState_get_def)

lemma transition_to_u32 [simp]:
  "AtomicTaskState_transition e n (TaskState_to_u32 s) =
    Some (if s = e then (Inr (), TaskState_to_u32 n) else (Inl s, TaskState_to_u32 s))"
  by (simp add: AtomicTaskState_transition_def)

text \<open>What any party may do to the cell, and the states the operations go through.\<close>

datatype ts_op = Transition task_state task_state | Set task_state | Get

datatype ts_res = Done "task_state + unit" | Stored | Current task_state

definition ts_step :: "ts_op \<Rightarrow> u32 \<Rightarrow> (ts_res \<times> u32) option" where
  "ts_step x cell = (case x of
     Transition e n \<Rightarrow> map_option (map_prod Done id) (AtomicTaskState_transition e n cell)
   | Set n \<Rightarrow> Some (Stored, AtomicTaskState_set n cell)
   | Get \<Rightarrow> map_option (\<lambda>s. (Current s, cell)) (AtomicTaskState_get cell))"

text \<open>The machine the cell implements.\<close>

fun ts_spec :: "ts_op \<Rightarrow> task_state \<Rightarrow> ts_res \<times> task_state" where
  "ts_spec (Transition e n) s = (if s = e then (Done (Inr ()), n) else (Done (Inl s), s))"
| "ts_spec (Set n) s = (Stored, n)"
| "ts_spec Get s = (Current s, s)"

fun ts_spec_run :: "ts_op list \<Rightarrow> task_state \<Rightarrow> ts_res list \<times> task_state" where
  "ts_spec_run [] s = ([], s)"
| "ts_spec_run (x # xs) s =
     (let (r, s') = ts_spec x s; (rs, s'') = ts_spec_run xs s' in (r # rs, s''))"

lemma ts_step_refines:
  "ts_step x (TaskState_to_u32 s) = Some (map_prod id TaskState_to_u32 (ts_spec x s))"
  by (cases x) (simp_all add: ts_step_def AtomicTaskState_set_def)

text \<open>
  The atomic cell implements the abstract machine over any sequence of transitions, sets
  and reads by any parties: the same results, and no operation ever panics on an invalid value.
\<close>

theorem task_state_cell_refines:
  "run_ops ts_step xs (AtomicTaskState_new s)
    = Some (map_prod id TaskState_to_u32 (ts_spec_run xs s))"
  unfolding AtomicTaskState_new_def
proof (induction xs arbitrary: s)
  case (Cons x xs)
  show ?case
    by (simp add: ts_step_refines Cons.IH split: prod.splits)
qed simp

section \<open>Racing transitions\<close>

text \<open>
  When several parties race to move a task out of the same state, exactly one of them, the
  first, succeeds, and the others are told the state it moved to.
\<close>

theorem transition_race_one_winner:
  assumes "n \<noteq> e"
  shows "run_ops (AtomicTaskState_transition e) (n # ns) (AtomicTaskState_new e)
    = Some (Inr () # map (\<lambda>_. Inl n) ns, AtomicTaskState_new n)"
proof -
  have "run_ops (AtomicTaskState_transition e) ns (TaskState_to_u32 n)
      = Some (map (\<lambda>_. Inl n) ns, TaskState_to_u32 n)"
    using assms by (induction ns) simp_all
  then show ?thesis by (simp add: AtomicTaskState_new_def)
qed

theorem transition_race_one_winner_witness:
  "run_ops (AtomicTaskState_transition Ready) [Running, Running, Dead] 1
    = Some ([Inr (), Inl Running, Inl Running], 2)"
  using transition_race_one_winner [of Running Ready "[Running, Dead]"]
  by (simp add: AtomicTaskState_new_def)

end
