(* ===== verification/Heapless.thy ===== *)
theory Heapless
  imports Prelude
begin

text \<open>
  The private fixed-capacity vector that \<open>src/ipc/message.rs\<close> and
  \<open>src/primitives/wait_queue.rs\<close> each carry a copy of: the initialised prefix of the buffer as
  a list, at most \<open>n\<close> long. Pushing onto a full vector gives the value back.
\<close>

definition heapless_new :: "'a list" where
  "heapless_new = []"

definition heapless_push :: "nat \<Rightarrow> 'a \<Rightarrow> 'a list \<Rightarrow> ('a + unit) \<times> 'a list" where
  "heapless_push n val buf =
     (if n \<le> length buf then (Inl val, buf) else (Inr (), buf @ [val]))"

text \<open>\<open>let _ = result.push(val)\<close>: the value is dropped when it does not fit.\<close>

abbreviation push_or_drop :: "nat \<Rightarrow> 'a \<Rightarrow> 'a list \<Rightarrow> 'a list" where
  "push_or_drop n val buf \<equiv> snd (heapless_push n val buf)"

lemma heapless_push_length: "length buf \<le> n \<Longrightarrow> length (push_or_drop n v buf) \<le> n"
  by (simp add: heapless_push_def)

lemma push_or_drop_take: "push_or_drop n v (take n xs) = take n (take n xs @ [v])"
  by (simp add: heapless_push_def)

lemma push_or_drop_room: "length buf < n \<Longrightarrow> push_or_drop n v buf = buf @ [v]"
  by (simp add: heapless_push_def)

end
