(* ===== verification/Message.thy ===== *)
theory Message
  imports HandleTables TaskId Heapless
begin

text \<open>
  IPC messages, \<open>src/ipc/message.rs\<close>: a header, an inline payload of 256 bytes and an array of
  16 handles, built inline or as a reference to a memory object, and taken apart by the
  receiver. A \<open>repr(C)\<close> struct of three \<open>u64\<close>s is copied as its little-endian bytes.
\<close>

section \<open>Slices and bytes\<close>

text \<open>\<open>dst[off..off + src.len()].copy_from_slice(src)\<close>, and \<open>&xs[..n]\<close>.\<close>

definition copy_into :: "'a list \<Rightarrow> nat \<Rightarrow> 'a list \<Rightarrow> 'a list option" where
  "copy_into dst off src =
     (if off + length src \<le> length dst
      then Some (take off dst @ src @ drop (off + length src) dst) else None)"

definition slice_to :: "'a list \<Rightarrow> nat \<Rightarrow> 'a list option" where
  "slice_to xs n = (if n \<le> length xs then Some (take n xs) else None)"

definition le_bytes :: "u64 \<Rightarrow> u8 list" where
  "le_bytes x = map (\<lambda>i. ucast (drop_bit (8 * i) x)) [0..<8]"

definition of_le_bytes :: "u8 list \<Rightarrow> u64" where
  "of_le_bytes bs = foldr (\<lambda>b x. ucast b OR push_bit 8 x) bs 0"

section \<open>Messages\<close>

definition MAX_INLINE_PAYLOAD :: nat where "MAX_INLINE_PAYLOAD = 256"
definition MAX_HANDLES :: nat where "MAX_HANDLES = 16"

definition INLINE_PAYLOAD :: u16 where "INLINE_PAYLOAD = push_bit 0 1"
definition ZERO_COPY_VMO :: u16 where "ZERO_COPY_VMO = push_bit 1 1"
definition WANT_REPLY :: u16 where "WANT_REPLY = push_bit 2 1"
definition IS_REPLY :: u16 where "IS_REPLY = push_bit 3 1"

record message_header =
  mh_sender :: task_id
  mh_tx_id :: u64
  mh_payload_size :: u32
  mh_num_handles :: u16
  mh_flags :: u16

definition MessageHeader_new :: "task_id \<Rightarrow> u64 \<Rightarrow> u32 \<Rightarrow> u16 \<Rightarrow> u16 \<Rightarrow> message_header" where
  "MessageHeader_new sender tx_id payload_size num_handles flags =
     \<lparr>mh_sender = sender, mh_tx_id = tx_id, mh_payload_size = payload_size,
      mh_num_handles = num_handles, mh_flags = flags\<rparr>"

text \<open>The debug text, with the flags as \<open>0x{:04x}\<close>.\<close>

definition hex_digit :: "nat \<Rightarrow> char" where
  "hex_digit n = char_of (if n < 10 then 48 + n else 87 + n)"

definition hex4 :: "u16 \<Rightarrow> string" where
  "hex4 w = map (\<lambda>k. hex_digit (unat (take_bit 4 (drop_bit k w)))) [12, 8, 4, 0]"

definition MessageHeader_fmt :: "message_header \<Rightarrow> string" where
  "MessageHeader_fmt h = ''MessageHeader { sender: '' @ TaskId_fmt (mh_sender h)
     @ '', tx_id: '' @ decimal (unat (mh_tx_id h)) @ '', payload_size: '' @ decimal (unat (mh_payload_size h))
     @ '', num_handles: '' @ decimal (unat (mh_num_handles h)) @ '', flags: 0x'' @ hex4 (mh_flags h) @ '' }''"

record message =
  ms_header :: message_header
  ms_payload :: "u8 list"
  ms_handles :: "handle list"

record vmo_reference =
  vr_handle :: u64
  vr_offset :: u64
  vr_size :: u64

datatype message_error = PayloadTooLarge | TooManyHandles

definition VmoReference_bytes :: "vmo_reference \<Rightarrow> u8 list" where
  "VmoReference_bytes r = le_bytes (vr_handle r) @ le_bytes (vr_offset r) @ le_bytes (vr_size r)"

definition VmoReference_read :: "u8 list \<Rightarrow> vmo_reference" where
  "VmoReference_read bs = \<lparr>vr_handle = of_le_bytes (take 8 bs),
     vr_offset = of_le_bytes (take 8 (drop 8 bs)), vr_size = of_le_bytes (take 8 (drop 16 bs))\<rparr>"

definition SIZEOF_VmoReference :: nat where "SIZEOF_VmoReference = 24"

lemma hex_digit_eq: "m < 16 \<Longrightarrow> n < 16 \<Longrightarrow> hex_digit m = hex_digit n \<longleftrightarrow> m = n"
proof -
  assume "m < 16" "n < 16"
  moreover have "(of_char (hex_digit k) :: nat) = (if k < 10 then 48 + k else 87 + k)" if "k < 16" for k
    using that by (simp add: hex_digit_def of_char_of)
  ultimately have "hex_digit m = hex_digit n \<Longrightarrow> (if m < 10 then 48 + m else 87 + m) = (if n < 10 then 48 + n else 87 + n)"
    by metis
  then show ?thesis by (auto split: if_splits)
qed

lemma hex4_eq: "hex4 v = hex4 w \<longleftrightarrow> v = w"
proof
  assume eq: "hex4 v = hex4 w"
  have nibble: "unat (take_bit 4 (drop_bit k u)) < 16" for k and u :: u16
    using take_bit_nat_less_exp [of 4 "unat (drop_bit k u)"] by (simp add: unsigned_take_bit_eq)
  have same: "take_bit 4 (drop_bit k v) = take_bit 4 (drop_bit k w)" if "k \<in> {0, 4, 8, 12}" for k
  proof -
    have "hex_digit (unat (take_bit 4 (drop_bit k v))) = hex_digit (unat (take_bit 4 (drop_bit k w)))"
      using eq that by (auto simp: hex4_def)
    then show ?thesis by (simp add: hex_digit_eq [OF nibble nibble] flip: word_unat_eq_iff)
  qed
  show "v = w"
  proof (rule bit_word_eqI)
    fix i assume "i < LENGTH(16)"
    then have "4 * (i div 4) \<in> {0, 4, 8, 12}" by auto
    from same [OF this] have "bit (take_bit 4 (drop_bit (4 * (i div 4)) v)) (i mod 4)
      = bit (take_bit 4 (drop_bit (4 * (i div 4)) w)) (i mod 4)" by simp
    then show "bit v i = bit w i" by (simp add: bit_simps)
  qed
qed simp

text \<open>The debug text shows the whole header.\<close>

lemma MessageHeader_fmt_eq: "MessageHeader_fmt g = MessageHeader_fmt h \<longleftrightarrow> g = h"
proof -
  have d: "\<not> is_digit (CHR '','')" by (simp add: is_digit_def)
  show ?thesis
    by (auto simp: MessageHeader_fmt_def TaskId_fmt_append decimal_append d hex4_eq
        simp flip: word_unat_eq_iff intro: message_header.equality)
qed

definition Message_new_inline ::
  "task_id \<Rightarrow> u64 \<Rightarrow> u8 list \<Rightarrow> handle list \<Rightarrow> (message_error + message) option" where
  "Message_new_inline sender tx_id data hs =
     (if MAX_INLINE_PAYLOAD < length data then Some (Inl PayloadTooLarge)
      else if MAX_HANDLES < length hs then Some (Inl TooManyHandles)
      else do {
        payload \<leftarrow> copy_into (replicate MAX_INLINE_PAYLOAD 0) 0 data;
        harray \<leftarrow> copy_into (replicate MAX_HANDLES Handle_INVALID) 0 hs;
        Some (Inr \<lparr>
          ms_header = MessageHeader_new sender tx_id (of_nat (length data)) (of_nat (length hs))
            INLINE_PAYLOAD,
          ms_payload = payload, ms_handles = harray\<rparr>) })"

definition Message_new_zero_copy ::
  "task_id \<Rightarrow> u64 \<Rightarrow> handle \<Rightarrow> u64 \<Rightarrow> u64 \<Rightarrow> handle list \<Rightarrow> (message_error + message) option" where
  "Message_new_zero_copy sender tx_id vmo_handle vmo_offset vmo_size hs =
     (if MAX_HANDLES < length hs + 1 then Some (Inl TooManyHandles)
      else do {
        let vmo_ref = \<lparr>vr_handle = Handle_to_raw vmo_handle, vr_offset = vmo_offset, vr_size = vmo_size\<rparr>;
        let bytes = VmoReference_bytes vmo_ref;
        payload \<leftarrow> copy_into (replicate MAX_INLINE_PAYLOAD 0) 0 bytes;
        harray \<leftarrow> upd (replicate MAX_HANDLES Handle_INVALID) 0 vmo_handle;
        harray' \<leftarrow> (if hs = [] then Some harray else copy_into harray 1 hs);
        Some (Inr \<lparr>
          ms_header = MessageHeader_new sender tx_id (of_nat (length bytes)) (of_nat (length hs + 1))
            ZERO_COPY_VMO,
          ms_payload = payload, ms_handles = harray'\<rparr>) })"

definition Message_payload :: "message \<Rightarrow> u8 list option" where
  "Message_payload m = slice_to (ms_payload m) (unat (mh_payload_size (ms_header m)))"

definition Message_handles :: "message \<Rightarrow> handle list option" where
  "Message_handles m = slice_to (ms_handles m) (unat (mh_num_handles (ms_header m)))"

text \<open>The loop of \<open>take_handles\<close> over the indices \<open>is\<close>.\<close>

fun take_loop :: "nat list \<Rightarrow> handle list \<Rightarrow> handle list \<Rightarrow> (handle list \<times> handle list) option" where
  "take_loop [] hs result = Some (result, hs)"
| "take_loop (i # is) hs result = do {
     h \<leftarrow> idx hs i;
     let result' = push_or_drop MAX_HANDLES h result;
     hs' \<leftarrow> upd hs i Handle_INVALID;
     take_loop is hs' result' }"

definition Message_take_handles :: "message \<Rightarrow> (handle list \<times> message) option" where
  "Message_take_handles m = do {
     (result, hs) \<leftarrow> take_loop [0..<unat (mh_num_handles (ms_header m))] (ms_handles m) heapless_new;
     Some (result, m\<lparr>ms_header := (ms_header m)\<lparr>mh_num_handles := 0\<rparr>, ms_handles := hs\<rparr>) }"

definition Message_is_zero_copy :: "message \<Rightarrow> bool" where
  "Message_is_zero_copy m \<longleftrightarrow> mh_flags (ms_header m) AND ZERO_COPY_VMO \<noteq> 0"

definition Message_vmo_reference :: "message \<Rightarrow> vmo_reference option" where
  "Message_vmo_reference m =
     (if \<not> Message_is_zero_copy m then None
      else if unat (mh_payload_size (ms_header m)) < SIZEOF_VmoReference then None
      else Some (VmoReference_read (ms_payload m)))"

section \<open>Bytes and back\<close>

lemma length_le_bytes [simp]: "length (le_bytes x) = 8"
  by (simp add: le_bytes_def)

lemma bit_of_le_bytes:
  "bit (of_le_bytes bs) n \<longleftrightarrow> n < 64 \<and> n div 8 < length bs \<and> bit (bs ! (n div 8)) (n mod 8)"
proof (induction bs arbitrary: n)
  case Nil
  then show ?case by (simp add: of_le_bytes_def)
next
  case (Cons b bs)
  have eq: "of_le_bytes (b # bs) = ucast b OR push_bit 8 (of_le_bytes bs)"
    by (simp add: of_le_bytes_def)
  show ?case
  proof (cases "n < 8")
    case True
    then show ?thesis by (simp add: eq bit_simps)
  next
    case False
    then obtain m where m: "n = m + 8" by (metis add.commute le_add_diff_inverse linorder_not_less)
    have "\<not> bit b (m + 8)" by (auto dest: bit_imp_le_length)
    moreover have "(m + 8) div 8 = Suc (m div 8)" by simp
    ultimately show ?thesis
      by (auto simp del: div_add_self2 div_add_self1 simp: eq m bit_simps Cons.IH)
  qed
qed

lemma of_le_bytes_le_bytes [simp]: "of_le_bytes (le_bytes x) = x"
proof (rule bit_word_eqI)
  fix n assume n: "n < LENGTH(64)"
  then have "n div 8 < 8" by simp
  then have "bit (le_bytes x ! (n div 8)) (n mod 8) \<longleftrightarrow> bit x (8 * (n div 8) + n mod 8)"
    by (simp add: le_bytes_def bit_simps)
  with n \<open>n div 8 < 8\<close> show "bit (of_le_bytes (le_bytes x)) n \<longleftrightarrow> bit x n"
    by (simp add: bit_of_le_bytes)
qed

lemma length_VmoReference_bytes: "length (VmoReference_bytes r) = SIZEOF_VmoReference"
  by (simp add: VmoReference_bytes_def SIZEOF_VmoReference_def)

lemma VmoReference_read_bytes: "VmoReference_read (VmoReference_bytes r @ rest) = r"
  by (simp add: VmoReference_read_def VmoReference_bytes_def)

section \<open>Building and taking apart\<close>

lemma copy_into_prefix:
  "length src \<le> length dst \<Longrightarrow> copy_into dst 0 src = Some (src @ drop (length src) dst)"
  by (simp add: copy_into_def)

lemma slice_to_prefix: "n = length xs \<Longrightarrow> slice_to (xs @ ys) n = Some xs"
  by (simp add: slice_to_def)

lemma unat_of_nat_small:
  "n < 2 ^ LENGTH('a::len) \<Longrightarrow> unat (of_nat n :: 'a word) = n"
  by (simp add: unat_of_nat)

text \<open>
  The state of a message between building and taking: \<open>data\<close> and \<open>hs\<close> are what the accessors
  hand out, the rest of the arrays is padding.
\<close>

definition message_of :: "u8 list \<Rightarrow> handle list \<Rightarrow> message \<Rightarrow> bool" where
  "message_of data hs m \<longleftrightarrow>
     length data \<le> MAX_INLINE_PAYLOAD \<and> length hs \<le> MAX_HANDLES
     \<and> mh_payload_size (ms_header m) = of_nat (length data)
     \<and> mh_num_handles (ms_header m) = of_nat (length hs)
     \<and> ms_payload m = data @ replicate (MAX_INLINE_PAYLOAD - length data) 0
     \<and> ms_handles m = hs @ replicate (MAX_HANDLES - length hs) Handle_INVALID"

lemma message_of_sizes:
  assumes "message_of data hs m"
  shows "unat (mh_payload_size (ms_header m)) = length data"
    and "unat (mh_num_handles (ms_header m)) = length hs"
  using assms
  by (simp_all add: message_of_def unat_of_nat_small MAX_INLINE_PAYLOAD_def MAX_HANDLES_def)

lemma message_of_accessors:
  assumes "message_of data hs m"
  shows "Message_payload m = Some data" and "Message_handles m = Some hs"
  using assms message_of_sizes [OF assms]
  by (simp_all add: Message_payload_def Message_handles_def message_of_def slice_to_prefix)

lemma take_loop_all:
  "length (result @ hs) \<le> 16 \<Longrightarrow>
    take_loop [length pre..<length pre + length hs] (pre @ hs @ post) result
      = Some (result @ hs, pre @ replicate (length hs) Handle_INVALID @ post)"
proof (induction hs arbitrary: pre result)
  case Nil
  then show ?case by simp
next
  case (Cons h hs)
  have upt: "[length pre..<length pre + length (h # hs)]
      = length pre # [length (pre @ [Handle_INVALID])..<length (pre @ [Handle_INVALID]) + length hs]"
    unfolding length_Cons by (subst upt_conv_Cons) simp_all
  have "length result < MAX_HANDLES"
    using Cons.prems by (simp add: MAX_HANDLES_def)
  with Cons.IH [of "result @ [h]" "pre @ [Handle_INVALID]"] Cons.prems show ?case
    unfolding upt by (simp add: push_or_drop_room nth_append)
qed

lemma message_of_take:
  assumes m: "message_of data hs m"
  shows "\<exists>m'. Message_take_handles m = Some (hs, m') \<and> message_of data [] m'
    \<and> mh_sender (ms_header m') = mh_sender (ms_header m)
    \<and> mh_tx_id (ms_header m') = mh_tx_id (ms_header m)
    \<and> mh_flags (ms_header m') = mh_flags (ms_header m)"
proof -
  have "length hs \<le> 16" "ms_handles m = hs @ replicate (16 - length hs) Handle_INVALID"
    using m by (simp_all add: message_of_def MAX_HANDLES_def)
  then have "take_loop [0..<length hs] (ms_handles m) []
      = Some (hs, replicate (length hs) Handle_INVALID @ replicate (16 - length hs) Handle_INVALID)"
    using take_loop_all [of "[]" hs "[]" "replicate (16 - length hs) Handle_INVALID"] by simp
  with \<open>length hs \<le> 16\<close> m message_of_sizes [OF m] show ?thesis
    by (simp add: Message_take_handles_def heapless_new_def message_of_def MAX_HANDLES_def
        flip: replicate_add)
qed

lemma new_inline_message_of:
  assumes "length data \<le> 256" "length hs \<le> 16"
  shows "\<exists>m. Message_new_inline sender tx data hs = Some (Inr m) \<and> message_of data hs m
    \<and> mh_sender (ms_header m) = sender \<and> mh_tx_id (ms_header m) = tx
    \<and> mh_flags (ms_header m) = INLINE_PAYLOAD"
  using assms
  by (simp add: Message_new_inline_def copy_into_prefix MAX_INLINE_PAYLOAD_def MAX_HANDLES_def
      message_of_def MessageHeader_new_def)

lemma new_zero_copy_message_of:
  assumes "length hs < 16"
  shows "\<exists>m. Message_new_zero_copy sender tx vmo off sz hs = Some (Inr m)
    \<and> message_of (VmoReference_bytes
        \<lparr>vr_handle = Handle_to_raw vmo, vr_offset = off, vr_size = sz\<rparr>) (vmo # hs) m
    \<and> mh_sender (ms_header m) = sender \<and> mh_tx_id (ms_header m) = tx
    \<and> mh_flags (ms_header m) = ZERO_COPY_VMO"
proof -
  have "copy_into (vmo # replicate 15 Handle_INVALID) 1 hs
      = Some (vmo # hs @ replicate (15 - length hs) Handle_INVALID)"
    using assms by (simp add: copy_into_def)
  moreover have "upd (replicate 16 Handle_INVALID) 0 vmo = Some (vmo # replicate 15 Handle_INVALID)"
    by (simp add: upd_def numeral_eq_Suc)
  ultimately show ?thesis
    using assms
    by (simp add: Message_new_zero_copy_def copy_into_prefix MAX_INLINE_PAYLOAD_def MAX_HANDLES_def
        message_of_def MessageHeader_new_def length_VmoReference_bytes SIZEOF_VmoReference_def Let_def)
qed

text \<open>What the receiver finds when it asks for the memory object.\<close>

lemma vmo_of_inline: "mh_flags (ms_header m) = INLINE_PAYLOAD \<Longrightarrow> Message_vmo_reference m = None"
  by (simp add: Message_vmo_reference_def Message_is_zero_copy_def INLINE_PAYLOAD_def ZERO_COPY_VMO_def)

lemma vmo_of_zero_copy:
  assumes "message_of (VmoReference_bytes r) hs m" "mh_flags (ms_header m) = ZERO_COPY_VMO"
  shows "Message_vmo_reference m = Some r"
proof -
  have "Message_is_zero_copy m"
    using assms(2) by (simp add: Message_is_zero_copy_def ZERO_COPY_VMO_def)
  moreover have "unat (mh_payload_size (ms_header m)) = SIZEOF_VmoReference"
    using message_of_sizes(1) [OF assms(1)] by (simp add: length_VmoReference_bytes)
  moreover have "VmoReference_read (ms_payload m) = r"
    using assms(1) by (simp add: message_of_def VmoReference_read_bytes)
  ultimately show ?thesis by (simp add: Message_vmo_reference_def)
qed

text \<open>
  An inline message is rejected exactly when the payload has more than 256 bytes or there
  are more than 16 handles; otherwise the receiver reads back the payload, the handles, the
  sender and the transaction id, and the message references no memory object.
\<close>

theorem new_inline_roundtrip:
  "if 256 < length data then Message_new_inline sender tx data hs = Some (Inl PayloadTooLarge)
   else if 16 < length hs then Message_new_inline sender tx data hs = Some (Inl TooManyHandles)
   else \<exists>m. Message_new_inline sender tx data hs = Some (Inr m)
     \<and> Message_payload m = Some data \<and> Message_handles m = Some hs
     \<and> mh_sender (ms_header m) = sender \<and> mh_tx_id (ms_header m) = tx
     \<and> Message_vmo_reference m = None"
proof (cases "length data \<le> 256 \<and> length hs \<le> 16")
  case True
  then obtain m where "Message_new_inline sender tx data hs = Some (Inr m)" "message_of data hs m"
    "mh_sender (ms_header m) = sender" "mh_tx_id (ms_header m) = tx"
    "mh_flags (ms_header m) = INLINE_PAYLOAD"
    using new_inline_message_of by blast
  with True message_of_accessors vmo_of_inline show ?thesis by auto
qed (auto simp: Message_new_inline_def MAX_INLINE_PAYLOAD_def MAX_HANDLES_def)

text \<open>
  A zero-copy message is rejected exactly when more than 15 further handles come with it;
  otherwise the receiver decodes the very memory object, offset and size, and the object's
  handle is the first of the handles.
\<close>

theorem new_zero_copy_roundtrip:
  "if 15 < length hs then Message_new_zero_copy sender tx vmo off sz hs = Some (Inl TooManyHandles)
   else \<exists>m. Message_new_zero_copy sender tx vmo off sz hs = Some (Inr m)
     \<and> Message_vmo_reference m
        = Some \<lparr>vr_handle = Handle_to_raw vmo, vr_offset = off, vr_size = sz\<rparr>
     \<and> Message_handles m = Some (vmo # hs)
     \<and> mh_sender (ms_header m) = sender \<and> mh_tx_id (ms_header m) = tx"
proof (cases "length hs < 16")
  case True
  let ?r = "\<lparr>vr_handle = Handle_to_raw vmo, vr_offset = off, vr_size = sz\<rparr>"
  from new_zero_copy_message_of [OF True] obtain m
    where m: "Message_new_zero_copy sender tx vmo off sz hs = Some (Inr m)"
      "message_of (VmoReference_bytes ?r) (vmo # hs) m"
      "mh_sender (ms_header m) = sender" "mh_tx_id (ms_header m) = tx"
      "mh_flags (ms_header m) = ZERO_COPY_VMO" by blast
  with vmo_of_zero_copy [OF m(2,5)] message_of_accessors [OF m(2)] True show ?thesis by auto
qed (simp add: Message_new_zero_copy_def MAX_HANDLES_def)

text \<open>
  Handles leave a message once: \<open>take_handles\<close> returns all of them in order, and then the
  message holds none, whether asked through \<open>handles\<close>, by taking again, or in the array behind
  it; its payload stays.
\<close>

theorem take_handles_once:
  assumes "Message_new_inline sender tx data hs = Some (Inr m)"
  shows "\<exists>m' m''. Message_take_handles m = Some (hs, m') \<and> Message_handles m' = Some []
    \<and> ms_handles m' = replicate 16 Handle_INVALID \<and> Message_payload m' = Some data
    \<and> Message_take_handles m' = Some ([], m'')"
proof -
  have "length data \<le> 256" "length hs \<le> 16"
    using assms by (auto simp: Message_new_inline_def MAX_INLINE_PAYLOAD_def MAX_HANDLES_def
        split: if_splits)
  from new_inline_message_of [OF this, of sender tx] assms have "message_of data hs m" by fastforce
  from message_of_take [OF this] obtain m' where m': "Message_take_handles m = Some (hs, m')"
    "message_of data [] m'" by blast
  from message_of_take [OF m'(2)] m' message_of_accessors [OF m'(2)] show ?thesis
    by (auto simp: message_of_def MAX_HANDLES_def)
qed

definition demo_message :: message where
  "demo_message = \<lparr>ms_header = MessageHeader_new (TaskId 7) 9 2 1 INLINE_PAYLOAD,
     ms_payload = [5, 6] @ replicate 254 0, ms_handles = Handle 3 # replicate 15 Handle_INVALID\<rparr>"

theorem take_handles_once_witness:
  "\<exists>m'. Message_take_handles demo_message = Some ([Handle 3], m') \<and> Message_handles m' = Some []"
proof -
  have "replicate 16 Handle_INVALID = Handle_INVALID # replicate 15 Handle_INVALID"
    by (simp add: numeral_eq_Suc)
  then have "Message_new_inline (TaskId 7) 9 [5, 6] [Handle 3] = Some (Inr demo_message)"
    by (simp add: Message_new_inline_def copy_into_prefix MAX_INLINE_PAYLOAD_def MAX_HANDLES_def
        demo_message_def)
  from take_handles_once [OF this] show ?thesis by blast
qed

end
