(* ===== verification/RingBuffer.thy ===== *)
theory RingBuffer
  imports Interfaces
begin

text \<open>
  The single-producer single-consumer ring of messages, \<open>src/ipc/ring_buffer.rs\<close>. The first
  part models the operations as one party runs them, the second the interleavings of one
  producer, one consumer and an observer, one shared access at a time. Messages are opaque.
\<close>

section \<open>Operations\<close>

record 'm ring_slot =
  sl_occupied :: nat
  sl_message :: "'m option"

record 'm spsc_ring =
  rg_head :: nat
  rg_tail :: nat
  rg_slots :: "'m ring_slot list"
  rg_capacity :: nat

text \<open>\<open>is_power_of_two\<close> of a \<open>usize\<close>; the allocation is assumed to succeed.\<close>

definition is_power_of_two :: "nat \<Rightarrow> bool" where
  "is_power_of_two n \<longleftrightarrow> list_ex (\<lambda>k. n = 2 ^ k) [0..<64]"

definition SpscRing_new :: "nat \<Rightarrow> 'm spsc_ring option" where
  "SpscRing_new capacity = do {
     assert_that (0 < capacity \<and> is_power_of_two capacity);
     Some \<lparr>rg_head = 0, rg_tail = 0,
       rg_slots = replicate capacity \<lparr>sl_occupied = 0, sl_message = None\<rparr>,
       rg_capacity = capacity\<rparr> }"

text \<open>\<open>Inl\<close> is \<open>TrySendError::Full\<close>, which gives the message back.\<close>

definition SpscRing_try_send :: "'m \<Rightarrow> 'm spsc_ring \<Rightarrow> (('m + unit) \<times> 'm spsc_ring) option" where
  "SpscRing_try_send msg r = do {
     let head = rg_head r;
     let tail = rg_tail r;
     used \<leftarrow> usize_sub head tail;
     available \<leftarrow> usize_sub (rg_capacity r) used;
     if available = 0 then Some (Inl msg, r)
     else do {
       let i = head AND (rg_capacity r - 1);
       slots \<leftarrow> upd (rg_slots r) i \<lparr>sl_occupied = 1, sl_message = Some msg\<rparr>;
       head' \<leftarrow> usize_add head 1;
       Some (Inr (), r\<lparr>rg_slots := slots, rg_head := head'\<rparr>) } }"

text \<open>
  With nobody else around the wait for \<open>occupied\<close> ends at once or never; \<open>None\<close> covers the
  latter. The inner option is the result.
\<close>

definition SpscRing_try_recv :: "'m spsc_ring \<Rightarrow> ('m option \<times> 'm spsc_ring) option" where
  "SpscRing_try_recv r = do {
     let tail = rg_tail r;
     let head = rg_head r;
     if tail = head then Some (None, r)
     else do {
       let i = tail AND (rg_capacity r - 1);
       slot \<leftarrow> idx (rg_slots r) i;
       assert_that (sl_occupied slot \<noteq> 0);
       let msg = sl_message slot;
       slots \<leftarrow> upd (rg_slots r) i \<lparr>sl_occupied = 0, sl_message = None\<rparr>;
       tail' \<leftarrow> usize_add tail 1;
       Some (msg, r\<lparr>rg_slots := slots, rg_tail := tail'\<rparr>) } }"

text \<open>
  \<open>len\<close> loads the head first and the tail second; \<open>len_between r r'\<close> is its result when the ring
  is \<open>r\<close> at the first load and \<open>r'\<close> at the second.
\<close>

definition len_between :: "'m spsc_ring \<Rightarrow> 'm spsc_ring \<Rightarrow> nat option" where
  "len_between r r' = usize_sub (rg_head r) (rg_tail r')"

definition SpscRing_len :: "'m spsc_ring \<Rightarrow> nat option" where
  "SpscRing_len r = len_between r r"

definition SpscRing_is_empty :: "'m spsc_ring \<Rightarrow> bool option" where
  "SpscRing_is_empty r = map_option (\<lambda>n. n = 0) (SpscRing_len r)"

text \<open>Dropping the ring: \<open>try_recv\<close> until it returns \<open>None\<close>; the messages it drops.\<close>

partial_function (option) drain :: "'m spsc_ring \<Rightarrow> ('m list \<times> 'm spsc_ring) option" where
  "drain r = do {
     (m, r') \<leftarrow> SpscRing_try_recv r;
     case m of
       None \<Rightarrow> Some ([], r')
     | Some x \<Rightarrow> do { (xs, r'') \<leftarrow> drain r'; Some (x # xs, r'') } }"

section \<open>The ring as a queue\<close>

lemma and_capacity: "is_power_of_two c \<Longrightarrow> n AND (c - 1) = n mod c"
proof -
  assume "is_power_of_two c"
  then obtain k where c: "c = 2 ^ k" by (auto simp: is_power_of_two_def list_ex_iff)
  have "n AND (2 ^ k - 1) = take_bit k n" by (simp add: take_bit_eq_mask mask_eq_exp_minus_1)
  then show ?thesis unfolding c by (simp only: take_bit_eq_mod)
qed

text \<open>
  The invariant: at most \<open>capacity\<close> messages between tail and head, a slot is occupied exactly
  when it holds a message, and exactly the slots from tail up to head hold one.
\<close>

definition slot_of :: "'m spsc_ring \<Rightarrow> nat \<Rightarrow> 'm ring_slot" where
  "slot_of r i = rg_slots r ! (i mod rg_capacity r)"

definition ring_inv :: "'m spsc_ring \<Rightarrow> bool" where
  "ring_inv r \<longleftrightarrow> 0 < rg_capacity r \<and> is_power_of_two (rg_capacity r)
     \<and> length (rg_slots r) = rg_capacity r
     \<and> rg_tail r \<le> rg_head r \<and> rg_head r \<le> rg_tail r + rg_capacity r
     \<and> (\<forall>i \<in> {rg_tail r..<rg_head r}. sl_occupied (slot_of r i) = 1 \<and> sl_message (slot_of r i) \<noteq> None)"

definition ring_queue :: "'m spsc_ring \<Rightarrow> 'm list" where
  "ring_queue r = map (\<lambda>i. the (sl_message (slot_of r i))) [rg_tail r..<rg_head r]"

lemma ring_invD:
  assumes "ring_inv r"
  shows "0 < rg_capacity r" "is_power_of_two (rg_capacity r)" "length (rg_slots r) = rg_capacity r"
    and "rg_tail r \<le> rg_head r" "rg_head r \<le> rg_tail r + rg_capacity r"
    and "rg_tail r \<le> i \<Longrightarrow> i < rg_head r \<Longrightarrow>
      sl_occupied (slot_of r i) = 1 \<and> (\<exists>m. sl_message (slot_of r i) = Some m)"
  using assms unfolding ring_inv_def by auto

lemma ring_queue_length: "length (ring_queue r) = rg_head r - rg_tail r"
  by (simp add: ring_queue_def)

lemma ring_new:
  assumes "SpscRing_new c = Some r"
  shows "ring_inv r \<and> ring_queue r = [] \<and> rg_capacity r = c"
  using assms by (auto simp: SpscRing_new_def ring_inv_def ring_queue_def)

lemma ring_send:
  assumes inv: "ring_inv r" and send: "SpscRing_try_send m r = Some (res, r')"
  shows "ring_inv r' \<and> rg_capacity r' = rg_capacity r
    \<and> (if length (ring_queue r) < rg_capacity r
       then res = Inr () \<and> ring_queue r' = ring_queue r @ [m]
       else res = Inl m \<and> r' = r)"
proof -
  note D = ring_invD [OF inv]
  let ?h = "rg_head r" and ?c = "rg_capacity r"
  have wrap: "?h AND (?c - Suc 0) = ?h mod ?c" using and_capacity [OF D(2)] by simp
  show ?thesis
  proof (cases "?h < rg_tail r + ?c")
    case False
    with D(4,5) send have "res = Inl m \<and> r' = r"
      by (auto simp: SpscRing_try_send_def Let_def usize_sub_def)
    with False D(4) inv show ?thesis by (simp add: ring_queue_length)
  next
    case True
    with D send have res: "res = Inr ()"
      and r': "r' = r\<lparr>rg_slots := (rg_slots r)[?h mod ?c := \<lparr>sl_occupied = 1, sl_message = Some m\<rparr>],
        rg_head := Suc ?h\<rparr>"
      by (auto simp: SpscRing_try_send_def Let_def wrap bind_eq_Some_conv usize_sub_eq_Some
          upd_eq_Some usize_add_eq_Some split: if_splits)
    have slot: "slot_of r' i = (if i = ?h then \<lparr>sl_occupied = 1, sl_message = Some m\<rparr> else slot_of r i)"
      if "rg_tail r \<le> i" "i \<le> ?h" for i
      using that D True mod_neq_window [of i ?h ?c]
      by (auto simp: slot_of_def r' nth_list_update)
    have "ring_inv r'"
      unfolding ring_inv_def using D True slot by (auto simp: r' less_Suc_eq)
    moreover have "ring_queue r' = ring_queue r @ [m]"
      using D(4) slot by (simp add: ring_queue_def r' del: upt_Suc) (simp add: upt_Suc)
    ultimately show ?thesis using True D(4) res by (simp add: ring_queue_length r')
  qed
qed

lemma ring_recv:
  assumes inv: "ring_inv r" and recv: "SpscRing_try_recv r = Some (res, r')"
  shows "ring_inv r' \<and> rg_capacity r' = rg_capacity r
    \<and> res = hd_opt (ring_queue r) \<and> ring_queue r' = tl (ring_queue r)"
proof -
  note D = ring_invD [OF inv]
  let ?t = "rg_tail r" and ?c = "rg_capacity r"
  have wrap: "?t AND (?c - Suc 0) = ?t mod ?c" using and_capacity [OF D(2)] by simp
  show ?thesis
  proof (cases "?t = rg_head r")
    case True
    with recv inv show ?thesis
      by (auto simp: SpscRing_try_recv_def Let_def ring_queue_def)
  next
    case False
    with D(4) have lt: "?t < rg_head r" by simp
    with False D recv have res: "res = sl_message (slot_of r ?t)"
      and r': "r' = r\<lparr>rg_slots := (rg_slots r)[?t mod ?c := \<lparr>sl_occupied = 0, sl_message = None\<rparr>],
        rg_tail := Suc ?t\<rparr>"
      by (auto simp: SpscRing_try_recv_def Let_def wrap bind_eq_Some_conv idx_eq_Some
          upd_eq_Some usize_add_eq_Some slot_of_def split: if_splits)
    have slot: "slot_of r' i = slot_of r i" if "Suc ?t \<le> i" "i < rg_head r" for i
      using that D mod_neq_window [of i ?t ?c] by (simp add: slot_of_def r')
    have "ring_inv r'"
      unfolding ring_inv_def using D lt slot by (auto simp: r')
    moreover have "ring_queue r = the (sl_message (slot_of r ?t)) # ring_queue r'"
      using lt slot by (simp add: ring_queue_def r' upt_conv_Cons)
    moreover obtain m where "sl_message (slot_of r ?t) = Some m" using D(6) [OF _ lt] by auto
    ultimately show ?thesis using res by (simp add: r')
  qed
qed

text \<open>Neither operation panics or waits forever before the counters reach the end of \<open>usize\<close>.\<close>

lemma ring_total:
  assumes inv: "ring_inv r" and room: "rg_head r < 2 ^ 64 - 1"
  shows "\<exists>res r'. SpscRing_try_send m r = Some (res, r') \<and> rg_head r' \<le> Suc (rg_head r)"
    and "\<exists>res r'. SpscRing_try_recv r = Some (res, r') \<and> rg_head r' = rg_head r"
proof -
  note D = ring_invD [OF inv]
  have wrap: "n AND (rg_capacity r - Suc 0) = n mod rg_capacity r" for n
    using and_capacity [OF D(2)] by simp
  show "\<exists>res r'. SpscRing_try_send m r = Some (res, r') \<and> rg_head r' \<le> Suc (rg_head r)"
    using D room by (simp add: SpscRing_try_send_def Let_def wrap usize_sub_def usize_add_def)
  show "\<exists>res r'. SpscRing_try_recv r = Some (res, r') \<and> rg_head r' = rg_head r"
  proof (cases "rg_tail r = rg_head r")
    case False
    with D(4) have "rg_tail r < rg_head r" by simp
    with D(6) [OF _ this] D room show ?thesis
      by (auto simp: SpscRing_try_recv_def Let_def wrap slot_of_def usize_add_def)
  qed (simp add: SpscRing_try_recv_def Let_def)
qed

definition ring_put :: "'m \<Rightarrow> 'm spsc_ring \<Rightarrow> (bool \<times> 'm spsc_ring) option" where
  "ring_put m r = map_option (map_prod (\<lambda>res. res = Inr ()) id) (SpscRing_try_send m r)"

interpretation ring: bounded_fifo ring_inv ring_queue rg_capacity ring_put SpscRing_try_recv
proof unfold_locales
  fix r r' :: "'a spsc_ring" and x b res
  show "ring_inv r \<Longrightarrow> length (ring_queue r) \<le> rg_capacity r"
    using ring_invD(5) [of r] by (simp add: ring_queue_length)
  assume inv: "ring_inv r"
  show "ring_inv r' \<and> rg_capacity r' = rg_capacity r \<and> b = (length (ring_queue r) < rg_capacity r)
      \<and> ring_queue r' = (if b then ring_queue r @ [x] else ring_queue r)"
    if "ring_put x r = Some (b, r')"
  proof -
    from that obtain y where "SpscRing_try_send x r = Some (y, r')" "b \<longleftrightarrow> y = Inr ()"
      by (auto simp: ring_put_def)
    with ring_send [OF inv this(1)] show ?thesis by (auto split: if_splits)
  qed
  show "ring_inv r' \<and> rg_capacity r' = rg_capacity r \<and> res = hd_opt (ring_queue r)
      \<and> ring_queue r' = tl (ring_queue r)"
    if "SpscRing_try_recv r = Some (res, r')"
    using ring_recv [OF inv that] by blast
qed

text \<open>Dropping a ring drops exactly the messages still in it, in order, and ends.\<close>

lemma drain_queue:
  assumes "ring_inv r" "rg_head r < 2 ^ 64 - 1"
  shows "\<exists>r'. drain r = Some (ring_queue r, r')"
  using assms
proof (induction "ring_queue r" arbitrary: r)
  case Nil
  obtain res r' where r': "SpscRing_try_recv r = Some (res, r')"
    using ring_total(2) [OF Nil.prems] by blast
  with ring_recv [OF Nil.prems(1) r'] Nil.hyps show ?case
    by (subst drain.simps) simp
next
  case (Cons x xs)
  obtain res r' where r': "SpscRing_try_recv r = Some (res, r')" "rg_head r' = rg_head r"
    using ring_total(2) [OF Cons.prems] by blast
  note R = ring_recv [OF Cons.prems(1) r'(1)]
  have q: "ring_queue r = x # ring_queue r'" "res = Some x"
    using R Cons.hyps(2) by (metis list.sel(3), metis hd_opt_simps(2))
  have "xs = ring_queue r'" using q(1) Cons.hyps(2) by simp
  with Cons.hyps(1) [of r'] R r'(2) Cons.prems(2) obtain r'' where "drain r' = Some (ring_queue r', r'')"
    by auto
  with q r'(1) show ?case
    by (subst drain.simps) simp
qed

text \<open>
  Over any run of sends and receives on a new ring, the messages received are a prefix of
  the messages accepted, in order, and the rest is still in the ring: nothing is lost,
  duplicated or reordered. A send is refused only when \<open>capacity\<close> messages are in the ring.
\<close>

theorem ring_run_fifo:
  assumes "SpscRing_new c = Some r" "run_ops (fifo_step ring_put SpscRing_try_recv) xs r = Some (rs, r')"
  shows "fifo_in xs rs = fifo_out rs @ ring_queue r' \<and> length (ring_queue r') \<le> c
    \<and> (\<forall>m res r''. SpscRing_try_send m r' = Some (res, r'') \<longrightarrow>
        (res = Inl m \<longleftrightarrow> length (ring_queue r') = c))"
proof -
  from ring_new [OF assms(1)] have new: "ring_inv r" "ring_queue r = []" "rg_capacity r = c" by simp_all
  from ring.fifo_history [OF assms(2) new(1)] new
  have h: "fifo_in xs rs = fifo_out rs @ ring_queue r'" "ring_inv r'" "rg_capacity r' = c" by simp_all
  have len: "length (ring_queue r') \<le> c" using ring.bounded [OF h(2)] h(3) by simp
  have "res = Inl m \<longleftrightarrow> length (ring_queue r') = c"
    if "SpscRing_try_send m r' = Some (res, r'')" for m res r''
    using ring_send [OF h(2) that] len h(3) by (auto split: if_splits)
  with h len show ?thesis by blast
qed

definition demo_ring :: "nat spsc_ring" where
  "demo_ring = \<lparr>rg_head = 0, rg_tail = 0, rg_slots =
    [\<lparr>sl_occupied = 0, sl_message = None\<rparr>, \<lparr>sl_occupied = 0, sl_message = None\<rparr>], rg_capacity = 2\<rparr>"

lemma demo_ring_new: "SpscRing_new 2 = Some demo_ring"
proof -
  have "is_power_of_two 2"
    unfolding is_power_of_two_def list_ex_iff by (rule bexI [of _ 1]) simp_all
  then show ?thesis by (simp add: SpscRing_new_def demo_ring_def numeral_2_eq_2)
qed

theorem ring_run_fifo_witness:
  "\<exists>r'. run_ops (fifo_step ring_put SpscRing_try_recv) [Put 5, Put 6, Put 7, Get] demo_ring
      = Some ([Accepted True, Accepted True, Accepted False, Got (Some 5)], r')
    \<and> ring_queue r' = [6]"
proof -
  obtain r' where r': "run_ops (fifo_step ring_put SpscRing_try_recv) [Put 5, Put 6, Put 7, Get] demo_ring
      = Some ([Accepted True, Accepted True, Accepted False, Got (Some 5)], r')"
    by (simp add: demo_ring_def ring_put_def SpscRing_try_send_def SpscRing_try_recv_def Let_def
        usize_sub_def usize_add_def)
  from ring_run_fifo [OF demo_ring_new r'] r' show ?thesis by auto
qed

section \<open>Producer and consumer interleaved\<close>

text \<open>
  The same code, one access to the shared ring per step. \<open>prod_pc\<close> and \<open>cons_pc\<close> say where the
  two parties stand and hold their locals; \<open>sy_sent\<close> and \<open>sy_got\<close> record the messages whose
  \<open>try_send\<close> has succeeded and the results of the \<open>try_recv\<close> calls that found the ring nonempty.
\<close>

datatype 'm prod_pc =
    PIdle | PHead 'm nat | PRoom 'm nat | PWritten 'm nat | PMarked 'm nat

datatype 'm cons_pc =
    CIdle | CTail nat | CSpin nat | CSeen nat | CTaken nat "'m option" | CCleared nat "'m option"

record 'm spsc_sys =
  sy_ring :: "'m spsc_ring"
  sy_prod :: "'m prod_pc"
  sy_cons :: "'m cons_pc"
  sy_sent :: "'m list"
  sy_got :: "'m option list"

definition slot_index :: "'m spsc_ring \<Rightarrow> nat \<Rightarrow> nat" where
  "slot_index r n = n AND (rg_capacity r - 1)"

definition upd_slot ::
  "nat \<Rightarrow> ('m ring_slot \<Rightarrow> 'm ring_slot) \<Rightarrow> 'm spsc_ring \<Rightarrow> 'm spsc_ring option" where
  "upd_slot n f r = do {
     slot \<leftarrow> idx (rg_slots r) (slot_index r n);
     slots \<leftarrow> upd (rg_slots r) (slot_index r n) (f slot);
     Some (r\<lparr>rg_slots := slots\<rparr>) }"

text \<open>The next step of the producer, which sends \<open>msg\<close> next when it is idle.\<close>

fun prod_step :: "'m \<Rightarrow> 'm prod_pc \<Rightarrow> 'm spsc_sys \<Rightarrow> 'm spsc_sys option" where
  "prod_step msg PIdle s = Some (s\<lparr>sy_prod := PHead msg (rg_head (sy_ring s))\<rparr>)"
| "prod_step _ (PHead msg head) s = do {
     used \<leftarrow> usize_sub head (rg_tail (sy_ring s));
     available \<leftarrow> usize_sub (rg_capacity (sy_ring s)) used;
     Some (if available = 0 then s\<lparr>sy_prod := PIdle\<rparr> else s\<lparr>sy_prod := PRoom msg head\<rparr>) }"
| "prod_step _ (PRoom msg head) s = do {
     r \<leftarrow> upd_slot head (\<lambda>sl. sl\<lparr>sl_message := Some msg\<rparr>) (sy_ring s);
     Some (s\<lparr>sy_ring := r, sy_prod := PWritten msg head\<rparr>) }"
| "prod_step _ (PWritten msg head) s = do {
     r \<leftarrow> upd_slot head (\<lambda>sl. sl\<lparr>sl_occupied := 1\<rparr>) (sy_ring s);
     Some (s\<lparr>sy_ring := r, sy_prod := PMarked msg head\<rparr>) }"
| "prod_step _ (PMarked msg head) s = do {
     head' \<leftarrow> usize_add head 1;
     Some (s\<lparr>sy_ring := (sy_ring s)\<lparr>rg_head := head'\<rparr>, sy_prod := PIdle,
       sy_sent := sy_sent s @ [msg]\<rparr>) }"

fun cons_step :: "'m cons_pc \<Rightarrow> 'm spsc_sys \<Rightarrow> 'm spsc_sys option" where
  "cons_step CIdle s = Some (s\<lparr>sy_cons := CTail (rg_tail (sy_ring s))\<rparr>)"
| "cons_step (CTail tail) s =
     Some (if tail = rg_head (sy_ring s) then s\<lparr>sy_cons := CIdle\<rparr> else s\<lparr>sy_cons := CSpin tail\<rparr>)"
| "cons_step (CSpin tail) s = do {
     slot \<leftarrow> idx (rg_slots (sy_ring s)) (slot_index (sy_ring s) tail);
     Some (if sl_occupied slot = 0 then s else s\<lparr>sy_cons := CSeen tail\<rparr>) }"
| "cons_step (CSeen tail) s = do {
     slot \<leftarrow> idx (rg_slots (sy_ring s)) (slot_index (sy_ring s) tail);
     r \<leftarrow> upd_slot tail (\<lambda>sl. sl\<lparr>sl_message := None\<rparr>) (sy_ring s);
     Some (s\<lparr>sy_ring := r, sy_cons := CTaken tail (sl_message slot)\<rparr>) }"
| "cons_step (CTaken tail msg) s = do {
     r \<leftarrow> upd_slot tail (\<lambda>sl. sl\<lparr>sl_occupied := 0\<rparr>) (sy_ring s);
     Some (s\<lparr>sy_ring := r, sy_cons := CCleared tail msg\<rparr>) }"
| "cons_step (CCleared tail msg) s = do {
     tail' \<leftarrow> usize_add tail 1;
     Some (s\<lparr>sy_ring := (sy_ring s)\<lparr>rg_tail := tail'\<rparr>, sy_cons := CIdle,
       sy_got := sy_got s @ [msg]\<rparr>) }"

datatype 'm spsc_event = Producer 'm | Consumer

fun spsc_step :: "'m spsc_event \<Rightarrow> 'm spsc_sys \<Rightarrow> 'm spsc_sys option" where
  "spsc_step (Producer msg) s = prod_step msg (sy_prod s) s"
| "spsc_step Consumer s = cons_step (sy_cons s) s"

abbreviation spsc_run :: "'m spsc_event list \<Rightarrow> 'm spsc_sys \<Rightarrow> 'm spsc_sys option" where
  "spsc_run \<equiv> event_run spsc_step"

definition spsc_init :: "'m spsc_ring \<Rightarrow> 'm spsc_sys" where
  "spsc_init r = \<lparr>sy_ring = r, sy_prod = PIdle, sy_cons = CIdle, sy_sent = [], sy_got = []\<rparr>"

subsection \<open>The invariant\<close>

text \<open>The consumer has emptied the slot at the tail already.\<close>

fun emptied :: "'m cons_pc \<Rightarrow> bool" where
  "emptied (CTaken _ _) \<longleftrightarrow> True"
| "emptied (CCleared _ _) \<longleftrightarrow> True"
| "emptied _ \<longleftrightarrow> False"

definition ring_shape :: "'m spsc_sys \<Rightarrow> bool" where
  "ring_shape s \<longleftrightarrow> (let r = sy_ring s in
     0 < rg_capacity r \<and> is_power_of_two (rg_capacity r) \<and> length (rg_slots r) = rg_capacity r
     \<and> rg_tail r \<le> rg_head r \<and> rg_head r \<le> rg_tail r + rg_capacity r
     \<and> length (sy_sent s) = rg_head r
     \<and> sy_got s = map Some (take (rg_tail r) (sy_sent s)))"

fun prod_ok :: "'m prod_pc \<Rightarrow> 'm spsc_ring \<Rightarrow> bool" where
  "prod_ok PIdle r \<longleftrightarrow> True"
| "prod_ok (PHead m h) r \<longleftrightarrow> h = rg_head r"
| "prod_ok (PRoom m h) r \<longleftrightarrow> h = rg_head r \<and> h < rg_tail r + rg_capacity r"
| "prod_ok (PWritten m h) r \<longleftrightarrow> h = rg_head r \<and> h < rg_tail r + rg_capacity r
     \<and> sl_message (slot_of r h) = Some m"
| "prod_ok (PMarked m h) r \<longleftrightarrow> h = rg_head r \<and> h < rg_tail r + rg_capacity r
     \<and> sl_message (slot_of r h) = Some m \<and> sl_occupied (slot_of r h) = 1"

fun cons_ok :: "'m cons_pc \<Rightarrow> 'm spsc_ring \<Rightarrow> 'm list \<Rightarrow> bool" where
  "cons_ok CIdle r sent \<longleftrightarrow> True"
| "cons_ok (CTail t) r sent \<longleftrightarrow> t = rg_tail r"
| "cons_ok (CSpin t) r sent \<longleftrightarrow> t = rg_tail r \<and> t < rg_head r"
| "cons_ok (CSeen t) r sent \<longleftrightarrow> t = rg_tail r \<and> t < rg_head r"
| "cons_ok (CTaken t m) r sent \<longleftrightarrow> t = rg_tail r \<and> t < rg_head r \<and> m = Some (sent ! t)"
| "cons_ok (CCleared t m) r sent \<longleftrightarrow> t = rg_tail r \<and> t < rg_head r \<and> m = Some (sent ! t)"

definition slots_ok :: "'m spsc_sys \<Rightarrow> bool" where
  "slots_ok s \<longleftrightarrow> (\<forall>i. rg_tail (sy_ring s) \<le> i \<and> i < rg_head (sy_ring s)
      \<and> \<not> (i = rg_tail (sy_ring s) \<and> emptied (sy_cons s)) \<longrightarrow>
     slot_of (sy_ring s) i = \<lparr>sl_occupied = 1, sl_message = Some (sy_sent s ! i)\<rparr>)"

definition spsc_inv :: "'m spsc_sys \<Rightarrow> bool" where
  "spsc_inv s \<longleftrightarrow> ring_shape s \<and> prod_ok (sy_prod s) (sy_ring s)
     \<and> cons_ok (sy_cons s) (sy_ring s) (sy_sent s) \<and> slots_ok s"

lemma spsc_inv_init: "SpscRing_new c = Some r \<Longrightarrow> spsc_inv (spsc_init r)"
  by (auto simp: spsc_inv_def spsc_init_def ring_shape_def slots_ok_def SpscRing_new_def Let_def)

lemma ring_shapeD:
  assumes "ring_shape s"
  shows "0 < rg_capacity (sy_ring s)" "is_power_of_two (rg_capacity (sy_ring s))"
    "length (rg_slots (sy_ring s)) = rg_capacity (sy_ring s)"
    "rg_tail (sy_ring s) \<le> rg_head (sy_ring s)"
    "rg_head (sy_ring s) \<le> rg_tail (sy_ring s) + rg_capacity (sy_ring s)"
    "length (sy_sent s) = rg_head (sy_ring s)"
    "sy_got s = map Some (take (rg_tail (sy_ring s)) (sy_sent s))"
  using assms unfolding ring_shape_def Let_def by auto

lemma slot_of_counters [simp]:
  "slot_of (r\<lparr>rg_head := n\<rparr>) i = slot_of r i" "slot_of (r\<lparr>rg_tail := n\<rparr>) i = slot_of r i"
  by (simp_all add: slot_of_def)

text \<open>What updating the slot of position \<open>n\<close> does, as seen from every position.\<close>

lemma upd_slot_shape:
  assumes "ring_shape s"
  shows "\<exists>r. upd_slot n f (sy_ring s) = Some r
    \<and> r = (sy_ring s)\<lparr>rg_slots := rg_slots r\<rparr> \<and> length (rg_slots r) = rg_capacity r
    \<and> slot_of r n = f (slot_of (sy_ring s) n)
    \<and> (\<forall>i. i mod rg_capacity r \<noteq> n mod rg_capacity r \<longrightarrow> slot_of r i = slot_of (sy_ring s) i)"
proof -
  note D = ring_shapeD [OF assms]
  have "slot_index (sy_ring s) n = n mod rg_capacity (sy_ring s)"
    unfolding slot_index_def by (rule and_capacity [OF D(2)])
  with D(1,3) show ?thesis by (simp add: upd_slot_def slot_of_def nth_list_update)
qed

lemma slot_index_mod: "ring_shape s \<Longrightarrow> slot_index (sy_ring s) n = n mod rg_capacity (sy_ring s)"
  unfolding slot_index_def by (rule and_capacity [OF ring_shapeD(2)])

lemma idx_slot:
  "ring_shape s \<Longrightarrow> idx (rg_slots (sy_ring s)) (slot_index (sy_ring s) n) = Some (slot_of (sy_ring s) n)"
  using ring_shapeD [of s] by (simp add: slot_index_mod slot_of_def)

lemma spsc_invD:
  assumes "spsc_inv s"
  shows "ring_shape s" "prod_ok (sy_prod s) (sy_ring s)"
    "cons_ok (sy_cons s) (sy_ring s) (sy_sent s)" "slots_ok s"
  using assms unfolding spsc_inv_def by blast+

lemma slots_okI:
  assumes "\<And>i. rg_tail (sy_ring s) \<le> i \<Longrightarrow> i < rg_head (sy_ring s)
      \<Longrightarrow> \<not> (i = rg_tail (sy_ring s) \<and> emptied (sy_cons s))
      \<Longrightarrow> slot_of (sy_ring s) i = \<lparr>sl_occupied = 1, sl_message = Some (sy_sent s ! i)\<rparr>"
  shows "slots_ok s"
  using assms unfolding slots_ok_def by blast

lemma slots_okD:
  "slots_ok s \<Longrightarrow> rg_tail (sy_ring s) \<le> i \<Longrightarrow> i < rg_head (sy_ring s)
    \<Longrightarrow> \<not> (i = rg_tail (sy_ring s) \<and> emptied (sy_cons s))
    \<Longrightarrow> slot_of (sy_ring s) i = \<lparr>sl_occupied = 1, sl_message = Some (sy_sent s ! i)\<rparr>"
  unfolding slots_ok_def by blast

text \<open>The producer writes into the slot at the head: no slot between tail and head changes.\<close>

lemma write_at_head:
  assumes inv: "spsc_inv s" and room: "rg_head (sy_ring s) < rg_tail (sy_ring s) + rg_capacity (sy_ring s)"
  shows "\<exists>r. upd_slot (rg_head (sy_ring s)) f (sy_ring s) = Some r
    \<and> slot_of r (rg_head r) = f (slot_of (sy_ring s) (rg_head (sy_ring s)))
    \<and> rg_head r = rg_head (sy_ring s) \<and> rg_tail r = rg_tail (sy_ring s)
    \<and> rg_capacity r = rg_capacity (sy_ring s)
    \<and> (\<forall>p. prod_ok p r \<longrightarrow> spsc_inv (s\<lparr>sy_ring := r, sy_prod := p\<rparr>))"
proof -
  note I = spsc_invD [OF inv] and D = ring_shapeD [OF spsc_invD(1) [OF inv]]
  let ?h = "rg_head (sy_ring s)"
  obtain r where r: "upd_slot ?h f (sy_ring s) = Some r"
    "r = (sy_ring s)\<lparr>rg_slots := rg_slots r\<rparr>" "length (rg_slots r) = rg_capacity r"
    "slot_of r ?h = f (slot_of (sy_ring s) ?h)"
    "\<And>i. i mod rg_capacity r \<noteq> ?h mod rg_capacity r \<Longrightarrow> slot_of r i = slot_of (sy_ring s) i"
    using upd_slot_shape [OF I(1), of ?h f] by blast
  have same: "rg_head r = ?h" "rg_tail r = rg_tail (sy_ring s)" "rg_capacity r = rg_capacity (sy_ring s)"
    by (subst r(2); simp)+
  have slot: "slot_of r i = slot_of (sy_ring s) i" if "rg_tail (sy_ring s) \<le> i" "i < ?h" for i
    using that room D(1) by (intro r(5) mod_neq_window) (auto simp: same)
  have "spsc_inv (s\<lparr>sy_ring := r, sy_prod := p\<rparr>)" if "prod_ok p r" for p
    unfolding spsc_inv_def
  proof (intro conjI)
    show "ring_shape (s\<lparr>sy_ring := r, sy_prod := p\<rparr>)"
      using I(1) r(3) by (simp add: ring_shape_def Let_def same)
    show "cons_ok (sy_cons (s\<lparr>sy_ring := r, sy_prod := p\<rparr>)) (sy_ring (s\<lparr>sy_ring := r, sy_prod := p\<rparr>))
        (sy_sent (s\<lparr>sy_ring := r, sy_prod := p\<rparr>))"
      using I(3) by (cases "sy_cons s") (simp_all add: same)
    show "slots_ok (s\<lparr>sy_ring := r, sy_prod := p\<rparr>)"
      by (rule slots_okI) (use slots_okD [OF I(4)] slot in \<open>simp add: same\<close>)
  qed (simp add: that)
  with r same show ?thesis by auto
qed

lemma prod_move:
  assumes "spsc_inv s" "prod_ok p (sy_ring s)"
  shows "spsc_inv (s\<lparr>sy_prod := p\<rparr>)"
  using assms by (simp add: spsc_inv_def ring_shape_def slots_ok_def)

lemma cons_move:
  assumes "spsc_inv s" "cons_ok c (sy_ring s) (sy_sent s)" "emptied c = emptied (sy_cons s)"
  shows "spsc_inv (s\<lparr>sy_cons := c\<rparr>)"
  using assms by (simp add: spsc_inv_def ring_shape_def slots_ok_def)

text \<open>Publishing the message: the head moves on.\<close>

lemma publish:
  assumes inv: "spsc_inv s" and pc: "sy_prod s = PMarked m h"
  shows "spsc_inv (s\<lparr>sy_ring := (sy_ring s)\<lparr>rg_head := Suc h\<rparr>, sy_prod := PIdle,
    sy_sent := sy_sent s @ [m]\<rparr>)" (is "spsc_inv ?s")
proof -
  note I = spsc_invD [OF inv] and D = ring_shapeD [OF spsc_invD(1) [OF inv]]
  have h: "h = rg_head (sy_ring s)" "h < rg_tail (sy_ring s) + rg_capacity (sy_ring s)"
    and new: "slot_of (sy_ring s) h = \<lparr>sl_occupied = 1, sl_message = Some m\<rparr>"
    using I(2) by (auto simp: pc)
  show ?thesis
    unfolding spsc_inv_def
  proof (intro conjI)
    show "ring_shape ?s" using D h by (simp add: ring_shape_def Let_def)
    show "cons_ok (sy_cons ?s) (sy_ring ?s) (sy_sent ?s)"
      using I(3) D(6) h by (cases "sy_cons s") (auto simp: nth_append)
    show "slots_ok ?s"
    proof (rule slots_okI)
      fix i assume "rg_tail (sy_ring ?s) \<le> i" "i < rg_head (sy_ring ?s)"
        "\<not> (i = rg_tail (sy_ring ?s) \<and> emptied (sy_cons ?s))"
      then show "slot_of (sy_ring ?s) i = \<lparr>sl_occupied = 1, sl_message = Some (sy_sent ?s ! i)\<rparr>"
        using new slots_okD [OF I(4), of i] D(6) h(1)
        by (cases "i = h") (auto simp: nth_append)
    qed
  qed simp
qed

lemma prod_step_inv:
  assumes inv: "spsc_inv s" and small: "rg_head (sy_ring s) < 2 ^ 64 - 1"
  shows "\<exists>s'. prod_step msg (sy_prod s) s = Some s' \<and> spsc_inv s'
    \<and> rg_head (sy_ring s') \<le> Suc (rg_head (sy_ring s))"
proof (cases "sy_prod s")
  case PIdle
  then show ?thesis using prod_move [OF inv] by simp
next
  case (PHead m h)
  note D = ring_shapeD [OF spsc_invD(1) [OF inv]]
  have "h = rg_head (sy_ring s)" using spsc_invD(2) [OF inv] PHead by simp
  with D PHead prod_move [OF inv] show ?thesis by (simp add: usize_sub_def)
next
  case (PRoom m h)
  with spsc_invD(2) [OF inv] write_at_head [OF inv, of "\<lambda>sl. sl\<lparr>sl_message := Some m\<rparr>"]
  show ?thesis by auto
next
  case (PWritten m h)
  with spsc_invD(2) [OF inv] write_at_head [OF inv, of "\<lambda>sl. sl\<lparr>sl_occupied := 1\<rparr>"]
  show ?thesis by auto
next
  case (PMarked m h)
  with spsc_invD(2) [OF inv] publish [OF inv PMarked] small show ?thesis
    by (simp add: usize_add_def)
qed

text \<open>The consumer updates the slot at the tail, from the moment it takes the message.\<close>

lemma write_at_tail:
  assumes inv: "spsc_inv s" and used: "rg_tail (sy_ring s) < rg_head (sy_ring s)"
    and c: "cons_ok c (sy_ring s) (sy_sent s)" "emptied c"
  shows "\<exists>r. upd_slot (rg_tail (sy_ring s)) f (sy_ring s) = Some r
    \<and> rg_head r = rg_head (sy_ring s) \<and> spsc_inv (s\<lparr>sy_ring := r, sy_cons := c\<rparr>)"
proof -
  note I = spsc_invD [OF inv] and D = ring_shapeD [OF spsc_invD(1) [OF inv]]
  let ?t = "rg_tail (sy_ring s)"
  obtain r where r: "upd_slot ?t f (sy_ring s) = Some r"
    "r = (sy_ring s)\<lparr>rg_slots := rg_slots r\<rparr>" "length (rg_slots r) = rg_capacity r"
    "\<And>i. i mod rg_capacity r \<noteq> ?t mod rg_capacity r \<Longrightarrow> slot_of r i = slot_of (sy_ring s) i"
    using upd_slot_shape [OF I(1), of ?t f] by blast
  have same: "rg_head r = rg_head (sy_ring s)" "rg_tail r = ?t" "rg_capacity r = rg_capacity (sy_ring s)"
    by (subst r(2); simp)+
  have slot: "slot_of r i = slot_of (sy_ring s) i" if "?t < i" "i < ?t + rg_capacity (sy_ring s)" for i
    using that by (intro r(4) mod_neq_window) (auto simp: same)
  have "spsc_inv (s\<lparr>sy_ring := r, sy_cons := c\<rparr>)"
    unfolding spsc_inv_def
  proof (intro conjI)
    show "ring_shape (s\<lparr>sy_ring := r, sy_cons := c\<rparr>)"
      using I(1) r(3) by (simp add: ring_shape_def Let_def same)
    show "prod_ok (sy_prod (s\<lparr>sy_ring := r, sy_cons := c\<rparr>)) (sy_ring (s\<lparr>sy_ring := r, sy_cons := c\<rparr>))"
      using I(2) used slot [of "rg_head (sy_ring s)"] by (cases "sy_prod s") (auto simp: same)
    show "cons_ok (sy_cons (s\<lparr>sy_ring := r, sy_cons := c\<rparr>)) (sy_ring (s\<lparr>sy_ring := r, sy_cons := c\<rparr>))
        (sy_sent (s\<lparr>sy_ring := r, sy_cons := c\<rparr>))"
      using c(1) by (cases c) (simp_all add: same)
    show "slots_ok (s\<lparr>sy_ring := r, sy_cons := c\<rparr>)"
      by (rule slots_okI) (use slots_okD [OF I(4)] slot D(5) c(2) in \<open>simp add: same\<close>)
  qed
  with r(1) same(1) show ?thesis by blast
qed

text \<open>Giving the slot back: the tail moves on.\<close>

lemma release_slot:
  assumes inv: "spsc_inv s" and pc: "sy_cons s = CCleared t m"
  shows "spsc_inv (s\<lparr>sy_ring := (sy_ring s)\<lparr>rg_tail := Suc t\<rparr>, sy_cons := CIdle,
    sy_got := sy_got s @ [m]\<rparr>)" (is "spsc_inv ?s")
proof -
  note I = spsc_invD [OF inv] and D = ring_shapeD [OF spsc_invD(1) [OF inv]]
  have t: "t = rg_tail (sy_ring s)" "t < rg_head (sy_ring s)" "m = Some (sy_sent s ! t)"
    using I(3) by (auto simp: pc)
  show ?thesis
    unfolding spsc_inv_def
  proof (intro conjI)
    show "ring_shape ?s" using D t by (simp add: ring_shape_def Let_def take_Suc_conv_app_nth)
    show "prod_ok (sy_prod ?s) (sy_ring ?s)"
      using I(2) t by (cases "sy_prod s") auto
    show "slots_ok ?s"
      by (rule slots_okI) (use slots_okD [OF I(4)] t in auto)
  qed simp
qed

lemma cons_step_inv:
  assumes inv: "spsc_inv s" and small: "rg_head (sy_ring s) < 2 ^ 64"
  shows "\<exists>s'. cons_step (sy_cons s) s = Some s' \<and> spsc_inv s'
    \<and> rg_head (sy_ring s') = rg_head (sy_ring s)"
proof (cases "sy_cons s")
  case CIdle
  then show ?thesis using cons_move [OF inv] by simp
next
  case (CTail t)
  then show ?thesis
    using cons_move [OF inv] spsc_invD(3) [OF inv] ring_shapeD(4) [OF spsc_invD(1) [OF inv]] by auto
next
  case (CSpin t)
  then show ?thesis
    using cons_move [OF inv] spsc_invD(3) [OF inv] inv idx_slot [OF spsc_invD(1) [OF inv]] by auto
next
  case (CSeen t)
  then have t: "t = rg_tail (sy_ring s)" "t < rg_head (sy_ring s)"
    using spsc_invD(3) [OF inv] by auto
  have slot: "sl_message (slot_of (sy_ring s) t) = Some (sy_sent s ! t)"
    using slots_okD [OF spsc_invD(4) [OF inv], of t] t CSeen by auto
  from write_at_tail [OF inv, of "CTaken t (Some (sy_sent s ! t))" "\<lambda>sl. sl\<lparr>sl_message := None\<rparr>"] t slot CSeen
  show ?thesis using idx_slot [OF spsc_invD(1) [OF inv]] by auto
next
  case (CTaken t m)
  then have t: "t = rg_tail (sy_ring s)" "t < rg_head (sy_ring s)" "m = Some (sy_sent s ! t)"
    using spsc_invD(3) [OF inv] by auto
  from write_at_tail [OF inv, of "CCleared t m" "\<lambda>sl. sl\<lparr>sl_occupied := 0\<rparr>"] t CTaken
  show ?thesis by auto
next
  case (CCleared t m)
  with spsc_invD(3) [OF inv] release_slot [OF inv CCleared] small show ?thesis
    by (simp add: usize_add_def)
qed

lemma upd_slot_capacity: "upd_slot n f r = Some r' \<Longrightarrow> rg_capacity r' = rg_capacity r"
  by (auto simp: upd_slot_def bind_eq_Some_conv)

lemma spsc_step_capacity:
  assumes "spsc_step e s = Some s'"
  shows "rg_capacity (sy_ring s') = rg_capacity (sy_ring s)"
proof (cases e)
  case (Producer m)
  with assms show ?thesis
    by (cases "sy_prod s")
      (auto simp: bind_eq_Some_conv upd_slot_capacity split: if_splits)
next
  case Consumer
  with assms show ?thesis
    by (cases "sy_cons s")
      (auto simp: bind_eq_Some_conv upd_slot_capacity split: if_splits)
qed

interpretation spsc: event_system spsc_step "\<lambda>s. spsc_inv s \<and> rg_capacity (sy_ring s) = c"
  "\<lambda>s. rg_head (sy_ring s)" "2 ^ 64 - 1" for c
proof
  fix s :: "'a spsc_sys" and e
  assume s: "spsc_inv s \<and> rg_capacity (sy_ring s) = c" "rg_head (sy_ring s) < 2 ^ 64 - 1"
  have "\<exists>s1. spsc_step e s = Some s1 \<and> spsc_inv s1 \<and> rg_head (sy_ring s1) \<le> Suc (rg_head (sy_ring s))"
  proof (cases e)
    case (Producer m)
    with prod_step_inv [of s m] s show ?thesis by auto
  next
    case Consumer
    with cons_step_inv [of s] s show ?thesis by auto
  qed
  with s(1) spsc_step_capacity [of e s]
  show "\<exists>s'. spsc_step e s = Some s' \<and> (spsc_inv s' \<and> rg_capacity (sy_ring s') = c)
      \<and> rg_head (sy_ring s') \<le> Suc (rg_head (sy_ring s))" by metis
qed

lemma spsc_run_fifo:
  assumes "SpscRing_new c = Some r" "length es < 2 ^ 64"
  shows "\<exists>s. spsc_run es (spsc_init r) = Some s
    \<and> sy_got s = map Some (take (length (sy_got s)) (sy_sent s))
    \<and> length (sy_sent s) \<le> length (sy_got s) + c
    \<and> (\<forall>t. sy_cons s = CSpin t \<longrightarrow> sl_occupied (slot_of (sy_ring s) t) \<noteq> 0)"
proof -
  have r: "rg_head r = 0" "rg_capacity r = c" using assms(1) by (auto simp: SpscRing_new_def)
  from spsc.run_inv [of "spsc_init r" c es] spsc_inv_init [OF assms(1)] assms(2) r
  obtain s where s: "spsc_run es (spsc_init r) = Some s" "spsc_inv s" "rg_capacity (sy_ring s) = c"
    by (auto simp: spsc_init_def)
  note I = spsc_invD [OF s(2)] and D = ring_shapeD [OF spsc_invD(1) [OF s(2)]]
  have got: "length (sy_got s) = rg_tail (sy_ring s)" using D(4,6,7) by simp
  have spin: "sl_occupied (slot_of (sy_ring s) t) \<noteq> 0" if "sy_cons s = CSpin t" for t
    using slots_okD [OF I(4), of t] I(3) that by auto
  have "sy_got s = map Some (take (length (sy_got s)) (sy_sent s))"
    unfolding got by (rule D(7))
  with s got spin D(5,6) show ?thesis by auto
qed

text \<open>
  C2: However the accesses of one producer and one consumer interleave, neither panics, the
  messages received are exactly the first of the messages sent, in order and none of them
  missing or twice, the ring never holds more than its capacity, and the consumer's wait for
  the \<open>occupied\<close> flag never spins.
\<close>

theorem spsc_interleaving_fifo:
  assumes "SpscRing_new c = Some r" "length es < 2 ^ 64"
  shows "\<exists>s. spsc_run es (spsc_init r) = Some s
    \<and> sy_got s = map Some (take (length (sy_got s)) (sy_sent s))
    \<and> length (sy_sent s) \<le> length (sy_got s) + c
    \<and> (\<forall>t. sy_cons s = CSpin t \<longrightarrow> sl_occupied (slot_of (sy_ring s) t) \<noteq> 0)"
  using spsc_run_fifo [OF assms] .

theorem spsc_interleaving_fifo_witness:
  "\<exists>s. spsc_run (replicate 9 (Producer 7) @ replicate 9 Consumer) (spsc_init demo_ring) = Some s
    \<and> length (sy_sent s) \<le> length (sy_got s) + 2"
  using spsc_interleaving_fifo [OF demo_ring_new, of "replicate 9 (Producer 7) @ replicate 9 Consumer"]
  by auto

text \<open>
  \<open>len\<close> called by anybody but the two parties can panic: if one message is sent and received
  between its two loads, the tail it loads is ahead of the head and the subtraction overflows.
\<close>

theorem len_of_observer_panics:
  assumes "SpscRing_new c = Some r"
  shows "\<exists>r' r''. SpscRing_try_send m r = Some (Inr (), r')
    \<and> SpscRing_try_recv r' = Some (Some m, r'') \<and> len_between r r'' = None"
proof -
  note new = ring_new [OF assms]
  have r: "rg_head r = 0" "rg_tail r = 0" "0 < c" using assms by (auto simp: SpscRing_new_def)
  obtain res r' where r': "SpscRing_try_send m r = Some (res, r')"
    using ring_total(1) [of r m] new r by auto
  with ring_send [OF _ r'] new r have s: "res = Inr ()" "ring_inv r'" "ring_queue r' = [m]" by auto
  have "rg_head r' \<le> 1" using ring_total(1) [of r m] new r r' by auto
  obtain res' r'' where r'': "SpscRing_try_recv r' = Some (res', r'')" "rg_head r'' = rg_head r'"
    using ring_total(2) [OF s(2)] \<open>rg_head r' \<le> 1\<close> by auto
  from ring_recv [OF s(2) r''(1)] s have rv: "res' = Some m" "ring_inv r''" "ring_queue r'' = []" by simp_all
  have "rg_tail r'' = rg_head r'"
    using ring_queue_length [of r''] rv ring_invD(4) [OF rv(2)] r''(2) by simp
  moreover have "0 < rg_head r'" using ring_queue_length [of r'] s(3) by simp
  ultimately show ?thesis using r' r'' s(1) rv(1) r(1) by (auto simp: len_between_def usize_sub_def)
qed

theorem len_of_observer_panics_witness:
  "\<exists>r' r''. SpscRing_try_send 5 demo_ring = Some (Inr (), r')
    \<and> SpscRing_try_recv r' = Some (Some 5, r'') \<and> len_between demo_ring r'' = None"
  by (rule len_of_observer_panics [OF demo_ring_new])

end
