(* ===== verification/Ipc.thy ===== *)
theory Ipc
  imports Message RingBuffer
begin

text \<open>
  Messages over the ring: what the sender builds with \<open>src/ipc/message.rs\<close> and puts into the ring of
  \<open>src/ipc/ring_buffer.rs\<close> the receiver takes out and reads. Nothing is modelled here; the theory puts
  the two components together.
\<close>

text \<open>What a sender can ask for, and what the receiver should see of it.\<close>

datatype ipc_request =
  Inline task_id u64 "u8 list" "handle list"
| ZeroCopy task_id u64 handle u64 u64 "handle list"

fun ipc_build :: "ipc_request \<Rightarrow> (message_error + message) option" where
  "ipc_build (Inline sender tx data hs) = Message_new_inline sender tx data hs"
| "ipc_build (ZeroCopy sender tx vmo off sz hs) = Message_new_zero_copy sender tx vmo off sz hs"

fun ipc_fits :: "ipc_request \<Rightarrow> bool" where
  "ipc_fits (Inline sender tx data hs) = (length data \<le> 256 \<and> length hs \<le> 16)"
| "ipc_fits (ZeroCopy sender tx vmo off sz hs) = (length hs \<le> 15)"

type_synonym ipc_content = "task_id \<times> u64 \<times> (u8 list + vmo_reference) \<times> handle list"

fun ipc_content :: "ipc_request \<Rightarrow> ipc_content" where
  "ipc_content (Inline sender tx data hs) = (sender, tx, Inl data, hs)"
| "ipc_content (ZeroCopy sender tx vmo off sz hs) =
     (sender, tx, Inr \<lparr>vr_handle = Handle_to_raw vmo, vr_offset = off, vr_size = sz\<rparr>, vmo # hs)"

text \<open>The receiver reads the header and the payload, or the memory object, and takes the handles out.\<close>

definition ipc_read :: "message \<Rightarrow> ipc_content option" where
  "ipc_read m = do {
     payload \<leftarrow> Message_payload m;
     (hs, m') \<leftarrow> Message_take_handles m;
     Some (mh_sender (ms_header m), mh_tx_id (ms_header m),
       (case Message_vmo_reference m of Some r \<Rightarrow> Inr r | None \<Rightarrow> Inl payload), hs) }"

lemma ipc_read_message_of:
  assumes "message_of data hs m"
  shows "ipc_read m = Some (mh_sender (ms_header m), mh_tx_id (ms_header m),
    (case Message_vmo_reference m of Some r \<Rightarrow> Inr r | None \<Rightarrow> Inl data), hs)"
  using message_of_accessors(1) [OF assms] message_of_take [OF assms] by (auto simp: ipc_read_def)

text \<open>A request that fits is built, and read back as it was.\<close>

lemma ipc_build_read:
  assumes "ipc_fits q"
  shows "\<exists>m. ipc_build q = Some (Inr m) \<and> ipc_read m = Some (ipc_content q)"
proof (cases q)
  case (Inline sender tx data hs)
  with assms new_inline_message_of [of data hs sender tx] obtain m where
    "Message_new_inline sender tx data hs = Some (Inr m)" "message_of data hs m"
    "mh_sender (ms_header m) = sender" "mh_tx_id (ms_header m) = tx" "mh_flags (ms_header m) = INLINE_PAYLOAD"
    by auto
  with Inline ipc_read_message_of vmo_of_inline show ?thesis by auto
next
  case (ZeroCopy sender tx vmo off sz hs)
  with assms new_zero_copy_message_of [of hs sender tx vmo off sz] obtain m where
    "Message_new_zero_copy sender tx vmo off sz hs = Some (Inr m)"
    "message_of (VmoReference_bytes \<lparr>vr_handle = Handle_to_raw vmo, vr_offset = off, vr_size = sz\<rparr>) (vmo # hs) m"
    "mh_sender (ms_header m) = sender" "mh_tx_id (ms_header m) = tx" "mh_flags (ms_header m) = ZERO_COPY_VMO"
    by auto
  with ZeroCopy ipc_read_message_of vmo_of_zero_copy show ?thesis by auto
qed

lemma ipc_build_unfit: "\<not> ipc_fits q \<Longrightarrow> \<exists>e. ipc_build q = Some (Inl e)"
  by (cases q)
    (auto simp: Message_new_inline_def Message_new_zero_copy_def MAX_INLINE_PAYLOAD_def MAX_HANDLES_def)

section \<open>A session\<close>

text \<open>
  One access of the sender, which sends this request next when it is idle, or of the receiver. A
  request that is rejected does not reach the ring.
\<close>

datatype ipc_event = Send ipc_request | Receive

fun ring_event :: "ipc_event \<Rightarrow> message spsc_event list" where
  "ring_event (Send q) = (case ipc_build q of Some (Inr m) \<Rightarrow> [Producer m] | _ \<Rightarrow> [])"
| "ring_event Receive = [Consumer]"

abbreviation ring_events :: "ipc_event list \<Rightarrow> message spsc_event list" where
  "ring_events es \<equiv> concat (map ring_event es)"

lemma ring_events_length: "length (ring_events es) \<le> length es"
proof (induction es)
  case (Cons e es)
  have "length (ring_event e) \<le> 1" by (cases e) (auto split: option.splits sum.splits)
  with Cons show ?case by simp
qed simp

text \<open>Only messages that the producer was given are sent.\<close>

fun prod_msg :: "'m prod_pc \<Rightarrow> 'm set" where
  "prod_msg PIdle = {}"
| "prod_msg (PHead m i) = {m}" | "prod_msg (PRoom m i) = {m}"
| "prod_msg (PWritten m i) = {m}" | "prod_msg (PMarked m i) = {m}"

lemma cons_step_sent: "cons_step pc s = Some s' \<Longrightarrow> sy_sent s' = sy_sent s \<and> sy_prod s' = sy_prod s"
  by (cases pc) (auto split: Option.bind_splits if_splits)

lemma prod_step_sent:
  "prod_step m (sy_prod s) s = Some s' \<Longrightarrow>
    set (sy_sent s') \<union> prod_msg (sy_prod s') \<subseteq> insert m (set (sy_sent s) \<union> prod_msg (sy_prod s))"
  by (cases "sy_prod s") (auto split: Option.bind_splits if_splits)

lemma spsc_run_sent:
  "spsc_run es s = Some s' \<Longrightarrow> set (sy_sent s) \<union> prod_msg (sy_prod s) \<subseteq> M \<Longrightarrow>
    \<forall>m. Producer m \<in> set es \<longrightarrow> m \<in> M \<Longrightarrow> set (sy_sent s') \<subseteq> M"
proof (induction es arbitrary: s)
  case (Cons e es)
  then obtain s1 where s1: "spsc_step e s = Some s1" "spsc_run es s1 = Some s'"
    by (auto simp: bind_eq_Some_conv)
  have "set (sy_sent s1) \<union> prod_msg (sy_prod s1) \<subseteq> M"
    using s1(1) Cons.prems(2,3) by (cases e) (auto dest!: prod_step_sent cons_step_sent)
  with Cons.IH [OF s1(2)] Cons.prems(3) show ?case by simp
qed simp

text \<open>
  C5: However sender and receiver interleave on a ring of \<open>c\<close> slots, what the receiver reads out
  of the messages it gets is exactly what the sender asked for, request by request and in order:
  payload or memory object, handles, sender and transaction id. Only requests that fit were sent,
  and at most \<open>c\<close> of them are still under way.
\<close>

theorem ipc_delivers_requests:
  assumes "SpscRing_new c = Some r" "length es < 2 ^ 64"
  shows "\<exists>s qs. spsc_run (ring_events es) (spsc_init r) = Some s
    \<and> map ipc_build qs = map (Some \<circ> Inr) (sy_sent s)
    \<and> set qs \<subseteq> {q. Send q \<in> set es \<and> ipc_fits q}
    \<and> map (\<lambda>m. Option.bind m ipc_read) (sy_got s) = map (Some \<circ> ipc_content) (take (length (sy_got s)) qs)
    \<and> length qs \<le> length (sy_got s) + c"
proof -
  have "length (ring_events es) < 2 ^ 64" using ring_events_length [of es] assms(2) by linarith
  from spsc_run_fifo [OF assms(1) this] obtain s where
    s: "spsc_run (ring_events es) (spsc_init r) = Some s"
    "sy_got s = map Some (take (length (sy_got s)) (sy_sent s))" "length (sy_sent s) \<le> length (sy_got s) + c"
    by blast
  let ?asked = "{q. Send q \<in> set es \<and> ipc_fits q}"
  have "set (sy_sent s) \<subseteq> {m. \<exists>q \<in> ?asked. ipc_build q = Some (Inr m)}"
  proof (rule spsc_run_sent [OF s(1)])
    show "\<forall>m. Producer m \<in> set (ring_events es) \<longrightarrow> m \<in> {m. \<exists>q \<in> ?asked. ipc_build q = Some (Inr m)}"
    proof (intro allI impI)
      fix m assume "Producer m \<in> set (ring_events es)"
      then obtain e where e: "e \<in> set es" "Producer m \<in> set (ring_event e)" by auto
      from e(2) obtain q where "e = Send q" "ipc_build q = Some (Inr m)"
        by (cases e) (auto split: option.splits sum.splits)
      with e(1) ipc_build_unfit [of q] show "m \<in> {m. \<exists>q \<in> ?asked. ipc_build q = Some (Inr m)}" by fastforce
    qed
  qed (simp add: spsc_init_def)
  then have "\<forall>m \<in> set (sy_sent s). \<exists>q. q \<in> ?asked \<and> ipc_build q = Some (Inr m)" by blast
  then obtain f where f: "\<And>m. m \<in> set (sy_sent s) \<Longrightarrow> f m \<in> ?asked \<and> ipc_build (f m) = Some (Inr m)" by metis
  let ?qs = "map f (sy_sent s)"
  have read: "ipc_read m = Some (ipc_content (f m))" if "m \<in> set (sy_sent s)" for m
    using ipc_build_read [of "f m"] f [OF that] by auto
  have "map (\<lambda>m. Option.bind m ipc_read) (sy_got s) = map ipc_read (take (length (sy_got s)) (sy_sent s))"
    by (subst s(2)) simp
  also have "\<dots> = map (Some \<circ> ipc_content) (take (length (sy_got s)) ?qs)"
    using read by (auto simp: take_map dest: in_set_takeD)
  finally show ?thesis using s(1,3) f by (intro exI [of _ s] exI [of _ ?qs]) auto
qed

text \<open>One zero-copy message that goes all the way through a ring of two slots.\<close>

definition demo_request :: ipc_request where
  "demo_request = ZeroCopy (TaskId 7) 1 (Handle 3) 64 4096 [Handle 9]"

definition demo_session :: "ipc_event list" where
  "demo_session = [Send demo_request, Send demo_request, Send demo_request, Send demo_request, Send demo_request,
     Receive, Receive, Receive, Receive, Receive, Receive]"

theorem ipc_delivers_requests_witness:
  "\<exists>r s q. SpscRing_new 2 = Some r \<and> spsc_run (ring_events demo_session) (spsc_init r) = Some s
    \<and> length (sy_got s) = 1 \<and> q \<in> set [demo_request]
    \<and> map (\<lambda>m. Option.bind m ipc_read) (sy_got s) = [Some (ipc_content q)]"
proof -
  have "is_power_of_two 2"
    unfolding is_power_of_two_def list_ex_iff by (rule bexI [of _ 1]) simp_all
  then obtain r :: "message spsc_ring" where r: "SpscRing_new 2 = Some r"
    "r = \<lparr>rg_head = 0, rg_tail = 0, rg_slots = [\<lparr>sl_occupied = 0, sl_message = None\<rparr>,
       \<lparr>sl_occupied = 0, sl_message = None\<rparr>], rg_capacity = 2\<rparr>"
    by (simp add: SpscRing_new_def numeral_2_eq_2)
  have "length demo_session < 2 ^ 64" by (simp add: demo_session_def)
  from ipc_delivers_requests [OF r(1) this] obtain s qs where
    s: "spsc_run (ring_events demo_session) (spsc_init r) = Some s"
    "set qs \<subseteq> {q. Send q \<in> set demo_session \<and> ipc_fits q}" "map ipc_build qs = map (Some \<circ> Inr) (sy_sent s)"
    "map (\<lambda>m. Option.bind m ipc_read) (sy_got s) = map (Some \<circ> ipc_content) (take (length (sy_got s)) qs)"
    by blast
  have "ipc_fits demo_request" by (simp add: demo_request_def)
  from ipc_build_read [OF this] obtain m where "ipc_build demo_request = Some (Inr m)" by blast
  with s(1) r(2) have got: "length (sy_got s) = 1" "length (sy_sent s) = 1"
    by (auto simp: demo_session_def spsc_init_def usize_sub_def usize_add_def upd_slot_def slot_index_def upd_def)
  have "length qs = length (sy_sent s)" using arg_cong [OF s(3), of length] by simp
  with got(2) obtain q where q: "qs = [q]" by (auto simp: length_Suc_conv)
  with s(2) have "q \<in> set [demo_request]" by (auto simp: demo_session_def)
  with r(1) s(1,4) got(1) q show ?thesis by auto
qed

end
