(* ===== verification/WaitQueue.thy ===== *)
theory WaitQueue
  imports Interfaces Heapless
begin

text \<open>
  The intrusive wait queue, \<open>src/primitives/wait_queue.rs\<close>: a doubly linked list of nodes that
  live in the waiting futures, kept in order of priority. Nodes are addresses into a heap of
  nodes; the whole critical section of the queue's spinlock is one operation. Then the
  refinement of the pointer code to lists of nodes.
\<close>

section \<open>Nodes and queues\<close>

record 'w wait_node =
  wn_waker :: "'w option"
  wn_priority :: i32
  wn_next :: ptr
  wn_prev :: ptr
  wn_linked :: bool

type_synonym 'w node_heap = "addr \<Rightarrow> 'w wait_node"

record wait_queue =
  wq_head :: ptr
  wq_tail :: ptr
  wq_len :: usize

definition WaitNode_new :: "'w wait_node" where
  "WaitNode_new = \<lparr>wn_waker = None, wn_priority = 0, wn_next = None, wn_prev = None, wn_linked = False\<rparr>"

definition WaitNode_set_waker :: "'w \<Rightarrow> 'w wait_node \<Rightarrow> 'w wait_node" where
  "WaitNode_set_waker w n = n\<lparr>wn_waker := Some w\<rparr>"

definition WaitNode_set_priority :: "i32 \<Rightarrow> 'w wait_node \<Rightarrow> 'w wait_node" where
  "WaitNode_set_priority p n = n\<lparr>wn_priority := p\<rparr>"

definition WaitNode_is_linked :: "'w wait_node \<Rightarrow> bool" where
  "WaitNode_is_linked n = wn_linked n"

definition WaitNode_priority :: "'w wait_node \<Rightarrow> i32" where
  "WaitNode_priority n = wn_priority n"

definition WaitQueue_new :: wait_queue where
  "WaitQueue_new = \<lparr>wq_head = None, wq_tail = None, wq_len = 0\<rparr>"

text \<open>\<open>(*p).field = ...\<close>, and the same through a pointer that may be null.\<close>

definition put_node :: "addr \<Rightarrow> ('w wait_node \<Rightarrow> 'w wait_node) \<Rightarrow> 'w node_heap \<Rightarrow> 'w node_heap" where
  "put_node a f h = h(a := f (h a))"

text \<open>
  One turn of the insertion sort: the node changes places with the \<open>cursor\<close> before it. The next
  cursor is the node's new predecessor.
\<close>

definition swap_back ::
  "addr \<Rightarrow> addr \<Rightarrow> 'w node_heap \<times> wait_queue \<Rightarrow> ptr \<times> 'w node_heap \<times> wait_queue" where
  "swap_back node cursor s = (let (h, q) = s;
     h = put_node node (\<lambda>n. n\<lparr>wn_prev := wn_prev (h cursor)\<rparr>) h;
     h = put_node cursor (\<lambda>c. c\<lparr>wn_next := wn_next (h node)\<rparr>) h;
     h = put_node node (\<lambda>n. n\<lparr>wn_next := Some cursor\<rparr>) h;
     h = put_node cursor (\<lambda>c. c\<lparr>wn_prev := Some node\<rparr>) h;
     (h, q) = (case wn_prev (h node) of
         Some p \<Rightarrow> (put_node p (\<lambda>n. n\<lparr>wn_next := Some node\<rparr>) h, q)
       | None \<Rightarrow> (h, q\<lparr>wq_head := Some node\<rparr>));
     (h, q) = (case wn_next (h cursor) of
         Some p \<Rightarrow> (put_node p (\<lambda>n. n\<lparr>wn_prev := Some cursor\<rparr>) h, q)
       | None \<Rightarrow> (h, q\<lparr>wq_tail := Some cursor\<rparr>))
     in (wn_prev (h node), h, q))"

partial_function (option) sort_back ::
  "addr \<Rightarrow> i32 \<Rightarrow> ptr \<Rightarrow> 'w node_heap \<times> wait_queue \<Rightarrow> ('w node_heap \<times> wait_queue) option" where
  "sort_back node prio cursor s = (case cursor of
     None \<Rightarrow> Some s
   | Some c \<Rightarrow>
       if wn_priority (fst s c) <s prio then
         (let (cursor', s') = swap_back node c s in sort_back node prio cursor' s')
       else Some s)"

definition WaitQueue_enqueue ::
  "addr \<Rightarrow> 'w node_heap \<times> wait_queue \<Rightarrow> ('w node_heap \<times> wait_queue) option" where
  "WaitQueue_enqueue node s = (let (h, q) = s in do {
     assert_that (\<not> wn_linked (h node));
     assert_that (wn_waker (h node) \<noteq> None);
     let h = put_node node (\<lambda>n. n\<lparr>wn_next := None, wn_prev := wq_tail q, wn_linked := True\<rparr>) h;
     (h, q) \<leftarrow> (case wq_tail q of
         None \<Rightarrow> do { assert_that (wq_head q = None); Some (h, q\<lparr>wq_head := Some node\<rparr>) }
       | Some t \<Rightarrow> Some (put_node t (\<lambda>n. n\<lparr>wn_next := Some node\<rparr>) h, q));
     let q = q\<lparr>wq_tail := Some node\<rparr>;
     (h, q) \<leftarrow> sort_back node (wn_priority (h node)) (wn_prev (h node)) (h, q);
     Some (h, q\<lparr>wq_len := wq_len q + 1\<rparr>) })"

definition WaitQueue_remove ::
  "addr \<Rightarrow> 'w node_heap \<times> wait_queue \<Rightarrow> 'w node_heap \<times> wait_queue" where
  "WaitQueue_remove node s = (let (h, q) = s in
     if \<not> wn_linked (h node) then s
     else (let
       (h, q) = (case wn_prev (h node) of
           Some p \<Rightarrow> (put_node p (\<lambda>x. x\<lparr>wn_next := wn_next (h node)\<rparr>) h, q)
         | None \<Rightarrow> (h, q\<lparr>wq_head := wn_next (h node)\<rparr>));
       (h, q) = (case wn_next (h node) of
           Some p \<Rightarrow> (put_node p (\<lambda>x. x\<lparr>wn_prev := wn_prev (h node)\<rparr>) h, q)
         | None \<Rightarrow> (h, q\<lparr>wq_tail := wn_prev (h node)\<rparr>));
       h = put_node node (\<lambda>n. n\<lparr>wn_next := None, wn_prev := None, wn_linked := False\<rparr>) h
       in (h, q\<lparr>wq_len := wq_len q - 1\<rparr>)))"

text \<open>Taking the head off the list, as both wakes do: the waker that was in it.\<close>

definition pop_head :: "addr \<Rightarrow> 'w node_heap \<times> wait_queue \<Rightarrow> 'w option \<times> 'w node_heap \<times> wait_queue" where
  "pop_head node s = (let (h, q) = s;
     q = q\<lparr>wq_head := wn_next (h node)\<rparr>;
     (h, q) = (case wq_head q of
         None \<Rightarrow> (h, q\<lparr>wq_tail := None\<rparr>)
       | Some p \<Rightarrow> (put_node p (\<lambda>x. x\<lparr>wn_prev := None\<rparr>) h, q));
     waker = wn_waker (h node);
     h = put_node node (\<lambda>n. n\<lparr>wn_waker := None, wn_next := None, wn_prev := None, wn_linked := False\<rparr>) h
     in (waker, h, q))"

text \<open>
  What becomes of a waker that left the list: \<open>Wake\<close> is \<open>w.wake()\<close>, which consumes it, \<open>Drop\<close>
  is its drop. Each may happen to a waker once.
\<close>

datatype 'w waker_event = Wake 'w | Drop 'w

definition WaitQueue_wake_one ::
  "'w node_heap \<times> wait_queue \<Rightarrow> (bool \<times> 'w waker_event list) \<times> 'w node_heap \<times> wait_queue" where
  "WaitQueue_wake_one s = (case wq_head (snd s) of
     None \<Rightarrow> ((False, []), s)
   | Some node \<Rightarrow> (let (waker, h, q) = pop_head node s; q = q\<lparr>wq_len := wq_len q - 1\<rparr> in
       case waker of
         Some w \<Rightarrow> ((True, [Wake w]), h, q)
       | None \<Rightarrow> ((False, []), h, q)))"

text \<open>The loop of \<open>wake_all\<close>: the wakers kept, and what happened to the others.\<close>

partial_function (option) wake_all_loop ::
  "'w node_heap \<times> wait_queue \<Rightarrow> 'w list \<Rightarrow> 'w waker_event list
    \<Rightarrow> ('w list \<times> 'w waker_event list \<times> 'w node_heap \<times> wait_queue) option" where
  "wake_all_loop s wakers evs = (case wq_head (snd s) of
     None \<Rightarrow> Some (wakers, evs, s)
   | Some node \<Rightarrow> (let (waker, s') = pop_head node s in
       case waker of
         None \<Rightarrow> wake_all_loop s' wakers evs
       | Some w \<Rightarrow> (case heapless_push 64 w wakers of
           (Inr _, wakers') \<Rightarrow> wake_all_loop s' wakers' evs
         | (Inl v, wakers') \<Rightarrow> wake_all_loop s' wakers' (evs @ [Drop v]))))"

text \<open>
  \<open>for w in wakers { w.wake(); }\<close>: the iterator copies each waker out of the vector, and when it
  is dropped at the end the vector drops all its elements.
\<close>

definition IntoIter_wake :: "'w list \<Rightarrow> 'w waker_event list" where
  "IntoIter_wake wakers = map Wake wakers @ map Drop wakers"

definition WaitQueue_wake_all ::
  "'w node_heap \<times> wait_queue \<Rightarrow> ('w waker_event list \<times> 'w node_heap \<times> wait_queue) option" where
  "WaitQueue_wake_all s = do {
     (wakers, evs, h, q) \<leftarrow> wake_all_loop s heapless_new [];
     Some (evs @ IntoIter_wake wakers, h, q\<lparr>wq_len := 0\<rparr>) }"

definition WaitQueue_len :: "wait_queue \<Rightarrow> usize" where
  "WaitQueue_len q = wq_len q"

definition WaitQueue_is_empty :: "wait_queue \<Rightarrow> bool" where
  "WaitQueue_is_empty q \<longleftrightarrow> WaitQueue_len q = 0"

section \<open>Doubly linked lists\<close>

definition first_or :: "addr list \<Rightarrow> ptr \<Rightarrow> ptr" where
  "first_or xs n = (case xs of [] \<Rightarrow> n | x # _ \<Rightarrow> Some x)"

definition last_or :: "ptr \<Rightarrow> addr list \<Rightarrow> ptr" where
  "last_or p xs = (if xs = [] then p else Some (last xs))"

lemma first_or_simps [simp]: "first_or [] n = n" "first_or (x # xs) n = Some x"
  "first_or (xs @ ys) n = first_or xs (first_or ys n)"
  by (simp_all add: first_or_def split: list.split)

lemma last_or_simps [simp]: "last_or p [] = p" "last_or p (xs @ [x]) = Some x"
  "last_or p (x # xs) = last_or (Some x) xs"
  by (simp_all add: last_or_def)

lemma last_or_append [simp]: "last_or p (xs @ ys) = last_or (last_or p xs) ys"
  by (simp add: last_or_def)

text \<open>The nodes \<open>xs\<close> are linked both ways, between the neighbours \<open>p\<close> and \<open>n\<close>.\<close>

fun dll :: "'w node_heap \<Rightarrow> ptr \<Rightarrow> addr list \<Rightarrow> ptr \<Rightarrow> bool" where
  "dll h p [] n \<longleftrightarrow> True"
| "dll h p (x # xs) n \<longleftrightarrow>
     wn_prev (h x) = p \<and> wn_next (h x) = first_or xs n \<and> dll h (Some x) xs n"

lemma dll_append [simp]:
  "dll h p (xs @ ys) n \<longleftrightarrow> dll h p xs (first_or ys n) \<and> dll h (last_or p xs) ys n"
  by (induction xs arbitrary: p) auto

lemma dll_put [simp]: "x \<notin> set xs \<Longrightarrow> dll (put_node x f h) p xs n = dll h p xs n"
  by (induction xs arbitrary: p) (auto simp: put_node_def)

lemma put_node_other [simp]: "y \<noteq> x \<Longrightarrow> put_node x f h y = h y"
  by (simp add: put_node_def)

lemma put_node_same [simp]: "put_node x f h x = f (h x)"
  by (simp add: put_node_def)

text \<open>
  The invariant of a queue: the list \<open>xs\<close> of its nodes, linked from head to tail, all marked as
  linked and with a waker.
\<close>

definition wf_wq :: "'w node_heap \<times> wait_queue \<Rightarrow> addr list \<Rightarrow> bool" where
  "wf_wq s xs \<longleftrightarrow> (let (h, q) = s in
     dll h None xs None \<and> distinct xs \<and> wq_head q = first_or xs None \<and> wq_tail q = last_or None xs
     \<and> (\<forall>x \<in> set xs. wn_linked (h x) \<and> wn_waker (h x) \<noteq> None)
     \<and> wq_len q = of_nat (length xs))"

definition links :: "'w node_heap \<times> wait_queue \<Rightarrow> addr list \<Rightarrow> bool" where
  "links s xs \<longleftrightarrow> (let (h, q) = s in
     dll h None xs None \<and> distinct xs \<and> wq_head q = first_or xs None \<and> wq_tail q = last_or None xs)"

text \<open>Only the links of the nodes in \<open>A\<close> change; the other nodes are untouched.\<close>

definition relinks :: "addr set \<Rightarrow> 'w node_heap \<Rightarrow> 'w node_heap \<Rightarrow> bool" where
  "relinks A h h' \<longleftrightarrow> (\<forall>x. x \<notin> A \<longrightarrow> h' x = h x) \<and>
     (\<forall>x. wn_waker (h' x) = wn_waker (h x) \<and> wn_priority (h' x) = wn_priority (h x)
        \<and> wn_linked (h' x) = wn_linked (h x))"

lemma relinks_refl: "relinks A h h"
  by (simp add: relinks_def)

lemma relinks_trans: "relinks A h h' \<Longrightarrow> relinks A h' h'' \<Longrightarrow> relinks A h h''"
  by (auto simp: relinks_def)

lemma relinks_put:
  assumes "x \<in> A" "\<And>n. wn_waker (f n) = wn_waker n" "\<And>n. wn_priority (f n) = wn_priority n"
    "\<And>n. wn_linked (f n) = wn_linked n"
  shows "relinks A h h' \<Longrightarrow> relinks A h (put_node x f h')"
  using assms by (auto simp: relinks_def put_node_def)

lemma swap_back_links:
  assumes "links (h, q) (ys @ c # n # zs)"
  shows "\<exists>h' q'. swap_back n c (h, q) = (last_or None ys, h', q')
    \<and> links (h', q') (ys @ n # c # zs) \<and> relinks (set (ys @ c # n # zs)) h h'
    \<and> wq_len q' = wq_len q"
proof (cases ys rule: rev_cases)
  case Nil
  with assms show ?thesis
    by (cases zs) (auto simp: links_def swap_back_def Let_def intro!: relinks_put relinks_refl)
next
  case (snoc us u)
  with assms show ?thesis
    by (cases zs) (auto simp: links_def swap_back_def Let_def intro!: relinks_put relinks_refl)
qed

section \<open>Enqueueing\<close>

text \<open>
  Where the insertion sort puts the node: after \<open>ys\<close> and before \<open>zs\<close>, the longest final part of
  the list with lower priorities.
\<close>

definition place :: "('a \<Rightarrow> i32) \<Rightarrow> i32 \<Rightarrow> 'a list \<Rightarrow> 'a list \<times> 'a list" where
  "place prio p xs = (rev (dropWhile (\<lambda>c. prio c <s p) (rev xs)),
     rev (takeWhile (\<lambda>c. prio c <s p) (rev xs)))"

lemma place_split: "place prio p xs = (ys, zs) \<Longrightarrow> xs = ys @ zs"
  by (auto simp: place_def simp flip: rev_append)

lemma place_low: "place prio p xs = (ys, zs) \<Longrightarrow> z \<in> set zs \<Longrightarrow> prio z <s p"
  by (auto simp: place_def dest: set_takeWhileD)

lemma place_high: "place prio p xs = (ys, zs) \<Longrightarrow> ys \<noteq> [] \<Longrightarrow> \<not> prio (last ys) <s p"
  by (auto simp: place_def last_rev) (metis hd_dropWhile dropWhile_eq_Nil_conv set_rev)

lemma place_snoc:
  "prio c <s p \<Longrightarrow> place prio p (xs @ [c]) = (fst (place prio p xs), snd (place prio p xs) @ [c])"
  "\<not> prio c <s p \<Longrightarrow> place prio p (xs @ [c]) = (xs @ [c], [])"
  by (simp_all add: place_def)

lemma place_cong: "(\<And>c. prio c = prio' c) \<Longrightarrow> place prio p xs = place prio' p xs"
  by (simp add: place_def)

lemma relinks_mono: "relinks A h h' \<Longrightarrow> A \<subseteq> B \<Longrightarrow> relinks B h h'"
  by (auto simp: relinks_def)

lemma sort_back_links:
  assumes "links (h, q) (xs @ n # zs)" "place (\<lambda>c. wn_priority (h c)) p xs = (ys, ws)"
  shows "\<exists>h' q'. sort_back n p (last_or None xs) (h, q) = Some (h', q')
    \<and> links (h', q') (ys @ n # ws @ zs) \<and> relinks (set (xs @ n # zs)) h h' \<and> wq_len q' = wq_len q"
  using assms
proof (induction xs arbitrary: h q zs ys ws rule: rev_induct)
  case Nil
  then show ?case by (subst sort_back.simps) (simp add: place_def relinks_refl)
next
  case (snoc c xs)
  show ?case
  proof (cases "wn_priority (h c) <s p")
    case False
    with snoc.prems(2) have "ys = xs @ [c]" "ws = []" by (simp_all add: place_snoc)
    with snoc.prems(1) False show ?thesis
      by (subst sort_back.simps) (simp add: relinks_refl)
  next
    case True
    from snoc.prems(1) have "links (h, q) (xs @ c # n # zs)" by simp
    from swap_back_links [OF this] obtain h1 q1 where
      s: "swap_back n c (h, q) = (last_or None xs, h1, q1)" "links (h1, q1) (xs @ n # c # zs)"
      "relinks (set (xs @ c # n # zs)) h h1" "wq_len q1 = wq_len q" by blast
    have same: "wn_priority (h1 x) = wn_priority (h x)" for x
      using s(3) by (simp add: relinks_def)
    obtain ws' where ws': "place (\<lambda>c. wn_priority (h1 c)) p xs = (ys, ws')" "ws = ws' @ [c]"
      using snoc.prems(2) True by (auto simp: place_snoc same prod_eq_iff)
    from snoc.IH [OF s(2) ws'(1)] obtain h' q' where
      r: "sort_back n p (last_or None xs) (h1, q1) = Some (h', q')"
      "links (h', q') (ys @ n # ws' @ c # zs)" "relinks (set (xs @ n # c # zs)) h1 h'"
      "wq_len q' = wq_len q1" by blast
    have "sort_back n p (last_or None (xs @ [c])) (h, q) = Some (h', q')"
      using True s(1) r(1) by (subst sort_back.simps) simp
    moreover have "relinks (set ((xs @ [c]) @ n # zs)) h h'"
      using relinks_trans [OF s(3) relinks_mono [OF r(3)]] by (simp add: insert_commute)
    ultimately show ?thesis using r(2,4) s(4) ws'(2) by auto
  qed
qed

lemma wf_wq_links: "wf_wq s xs \<longleftrightarrow> links s xs
    \<and> (\<forall>x \<in> set xs. wn_linked (fst s x) \<and> wn_waker (fst s x) \<noteq> None)
    \<and> wq_len (snd s) = of_nat (length xs)"
  by (auto simp: wf_wq_def links_def split: prod.splits)

text \<open>Linking the node in at the tail, before the sort.\<close>

lemma append_links:
  assumes "links (h, q) xs" "n \<notin> set xs"
  defines "h1 \<equiv> put_node n (\<lambda>n. n\<lparr>wn_next := None, wn_prev := wq_tail q, wn_linked := True\<rparr>) h"
  shows "\<exists>h2 q2. (case wq_tail q of
         None \<Rightarrow> do { assert_that (wq_head q = None); Some (h1, q\<lparr>wq_head := Some n\<rparr>) }
       | Some t \<Rightarrow> Some (put_node t (\<lambda>x. x\<lparr>wn_next := Some n\<rparr>) h1, q)) = Some (h2, q2)
    \<and> links (h2, q2\<lparr>wq_tail := Some n\<rparr>) (xs @ [n]) \<and> relinks (insert n (set xs)) h1 h2
    \<and> wq_len q2 = wq_len q \<and> wn_prev (h2 n) = last_or None xs"
  using assms(1,2) unfolding h1_def
  by (cases xs rule: rev_cases) (auto simp: links_def intro!: relinks_put relinks_refl)

lemma enqueue_wf:
  assumes wf: "wf_wq (h, q) xs" and n: "\<not> wn_linked (h n)" "wn_waker (h n) \<noteq> None"
    and place: "place (\<lambda>c. wn_priority (h c)) (wn_priority (h n)) xs = (ys, zs)"
  shows "\<exists>h' q'. WaitQueue_enqueue n (h, q) = Some (h', q') \<and> wf_wq (h', q') (ys @ n # zs)
    \<and> (\<forall>x. x \<notin> insert n (set xs) \<longrightarrow> h' x = h x)
    \<and> (\<forall>x. wn_waker (h' x) = wn_waker (h x) \<and> wn_priority (h' x) = wn_priority (h x)
        \<and> wn_linked (h' x) = (x = n \<or> wn_linked (h x)))"
proof -
  have new: "n \<notin> set xs" using wf n(1) by (auto simp: wf_wq_def)
  define h1 where "h1 = put_node n (\<lambda>n. n\<lparr>wn_next := None, wn_prev := wq_tail q, wn_linked := True\<rparr>) h"
  obtain h2 q2 where a: "(case wq_tail q of
         None \<Rightarrow> do { assert_that (wq_head q = None); Some (h1, q\<lparr>wq_head := Some n\<rparr>) }
       | Some t \<Rightarrow> Some (put_node t (\<lambda>x. x\<lparr>wn_next := Some n\<rparr>) h1, q)) = Some (h2, q2)"
    and l2: "links (h2, q2\<lparr>wq_tail := Some n\<rparr>) (xs @ [n])"
    and r2: "relinks (insert n (set xs)) h1 h2" and q2: "wq_len q2 = wq_len q"
    and p2: "wn_prev (h2 n) = last_or None xs"
    using append_links [of h q xs n] wf new unfolding h1_def wf_wq_links by blast
  have prio: "wn_priority (h2 x) = wn_priority (h x)" for x
    using r2 by (cases "x = n") (simp_all add: relinks_def h1_def)
  from l2 place sort_back_links [of h2 "q2\<lparr>wq_tail := Some n\<rparr>" xs n "[]" "wn_priority (h n)" ys zs]
  obtain h3 q3 where s: "sort_back n (wn_priority (h n)) (last_or None xs) (h2, q2\<lparr>wq_tail := Some n\<rparr>)
      = Some (h3, q3)" "links (h3, q3) (ys @ n # zs)" "relinks (set (xs @ [n])) h2 h3"
      "wq_len q3 = wq_len q2"
    by (auto simp: prio)
  have r3: "relinks (insert n (set xs)) h1 h3"
    using relinks_trans [OF r2 relinks_mono [OF s(3)]] by simp
  have eq: "WaitQueue_enqueue n (h, q) = Some (h3, q3\<lparr>wq_len := wq_len q3 + 1\<rparr>)"
    unfolding WaitQueue_enqueue_def Let_def prod.case h1_def [symmetric] a
    using n s(1) p2 prio by simp
  have same: "wn_waker (h3 x) = wn_waker (h x)" "wn_priority (h3 x) = wn_priority (h x)"
    "wn_linked (h3 x) = (x = n \<or> wn_linked (h x))" for x
    using r3 by (cases "x = n"; simp add: relinks_def h1_def)+
  have other: "h3 x = h x" if "x \<notin> insert n (set xs)" for x
    using r3 that by (simp add: relinks_def h1_def)
  have "length ys + length zs = length xs"
    using place_split [OF place] by simp
  then have "wf_wq (h3, q3\<lparr>wq_len := wq_len q3 + 1\<rparr>) (ys @ n # zs)"
    using wf s(2,4) q2 place_split [OF place] n(2) same
    by (auto simp: wf_wq_links links_def algebra_simps simp flip: of_nat_add)
  with eq same other show ?thesis by blast
qed

section \<open>Removing and waking\<close>

text \<open>
  What leaving the queue does to the heap: the nodes of \<open>A\<close> may be relinked, \<open>n\<close> is unlinked,
  and its waker is gone if \<open>took\<close>.
\<close>

definition leaves :: "addr set \<Rightarrow> addr \<Rightarrow> bool \<Rightarrow> 'w node_heap \<Rightarrow> 'w node_heap \<Rightarrow> bool" where
  "leaves A n took h h' \<longleftrightarrow> (\<forall>x. x \<notin> A \<longrightarrow> h' x = h x) \<and>
     (\<forall>x. wn_waker (h' x) = (if x = n \<and> took then None else wn_waker (h x))
        \<and> wn_priority (h' x) = wn_priority (h x) \<and> wn_linked (h' x) = (x \<noteq> n \<and> wn_linked (h x)))"

lemma leaves_relinks:
  assumes "relinks A h h'" "n \<in> A"
  shows "leaves A n False h (put_node n (\<lambda>n. n\<lparr>wn_next := None, wn_prev := None, wn_linked := False\<rparr>) h')"
    and "leaves A n True h (put_node n
      (\<lambda>n. n\<lparr>wn_waker := None, wn_next := None, wn_prev := None, wn_linked := False\<rparr>) h')"
  using assms by (auto simp: leaves_def relinks_def put_node_def)

lemma remove_wf:
  assumes wf: "wf_wq (h, q) (ys @ n # zs)"
  shows "\<exists>h' q'. WaitQueue_remove n (h, q) = (h', q') \<and> wf_wq (h', q') (ys @ zs)
    \<and> leaves (set (ys @ n # zs)) n False h h'"
proof -
  define r where "r = (case wn_prev (h n) of
      Some p \<Rightarrow> (put_node p (\<lambda>x. x\<lparr>wn_next := wn_next (h n)\<rparr>) h, q)
    | None \<Rightarrow> (h, q\<lparr>wq_head := wn_next (h n)\<rparr>))"
  define r' where "r' = (case wn_next (fst r n) of
      Some p \<Rightarrow> (put_node p (\<lambda>x. x\<lparr>wn_prev := wn_prev (fst r n)\<rparr>) (fst r), snd r)
    | None \<Rightarrow> (fst r, (snd r)\<lparr>wq_tail := wn_prev (fst r n)\<rparr>))"
  let ?h = "put_node n (\<lambda>n. n\<lparr>wn_next := None, wn_prev := None, wn_linked := False\<rparr>) (fst r')"
  let ?q = "(snd r')\<lparr>wq_len := wq_len (snd r') - 1\<rparr>"
  have eq: "WaitQueue_remove n (h, q) = (?h, ?q)"
    using wf by (simp add: WaitQueue_remove_def wf_wq_def r_def r'_def Let_def split: prod.splits option.splits)
  have rel: "relinks (set (ys @ n # zs)) h (fst r')"
    and new: "links (?h, ?q) (ys @ zs)" and len: "wq_len (snd r') = wq_len q"
    using wf unfolding r'_def r_def
    by (cases ys rule: rev_cases; cases zs;
      auto simp: wf_wq_def links_def intro!: relinks_put relinks_refl)+
  have lv: "leaves (set (ys @ n # zs)) n False h ?h"
    by (rule leaves_relinks(1) [OF rel]) simp
  obtain h' q' where hq: "h' = ?h" "q' = ?q" by blast
  have "n \<notin> set (ys @ zs)" using wf by (simp add: wf_wq_def)
  moreover have "wq_len q' = of_nat (length (ys @ zs))"
    using wf len unfolding hq by (simp add: wf_wq_def)
  ultimately have "wf_wq (h', q') (ys @ zs)"
    using new [folded hq] lv [folded hq] wf by (auto simp: wf_wq_links leaves_def)
  with eq lv show ?thesis unfolding hq by blast
qed

lemma remove_unlinked: "\<not> wn_linked (fst s n) \<Longrightarrow> WaitQueue_remove n s = s"
  by (cases s) (simp add: WaitQueue_remove_def)

lemma pop_head_links:
  assumes wf: "links (h, q) (x # xs)"
  shows "\<exists>h' q'. pop_head x (h, q) = (wn_waker (h x), h', q') \<and> links (h', q') xs
    \<and> leaves (set (x # xs)) x True h h' \<and> wq_len q' = wq_len q"
proof (cases xs)
  case Nil
  with wf show ?thesis
    by (auto simp: links_def pop_head_def Let_def intro!: leaves_relinks relinks_put relinks_refl)
next
  case (Cons y ys)
  with wf show ?thesis
    by (auto simp: links_def pop_head_def Let_def intro!: leaves_relinks relinks_put relinks_refl)
qed

lemma wake_one_wf:
  assumes wf: "wf_wq (h, q) (x # xs)"
  shows "\<exists>w h' q'. wn_waker (h x) = Some w
    \<and> WaitQueue_wake_one (h, q) = ((True, [Wake w]), h', q') \<and> wf_wq (h', q') xs
    \<and> leaves (set (x # xs)) x True h h'"
proof -
  obtain w where w: "wn_waker (h x) = Some w" using wf by (auto simp: wf_wq_def)
  obtain h' q' where p: "pop_head x (h, q) = (Some w, h', q')" "links (h', q') xs"
    "leaves (set (x # xs)) x True h h'" "wq_len q' = wq_len q"
    using pop_head_links [of h q x xs] wf w by (auto simp: wf_wq_links)
  have "x \<notin> set xs" using wf by (simp add: wf_wq_def)
  then have "wf_wq (h', q'\<lparr>wq_len := wq_len q' - 1\<rparr>) xs"
    using p wf by (auto simp: wf_wq_links links_def leaves_def)
  moreover have "WaitQueue_wake_one (h, q) = ((True, [Wake w]), h', q'\<lparr>wq_len := wq_len q' - 1\<rparr>)"
    using wf p(1) by (simp add: WaitQueue_wake_one_def wf_wq_def)
  ultimately show ?thesis using w p(3) by blast
qed

lemma wake_one_empty: "wf_wq s [] \<Longrightarrow> WaitQueue_wake_one s = ((False, []), s)"
  by (simp add: WaitQueue_wake_one_def wf_wq_def split: prod.splits)

text \<open>The drain loop of \<open>wake_all\<close>: it ends, and what it keeps and drops.\<close>

definition waker_of :: "'w node_heap \<Rightarrow> addr \<Rightarrow> 'w" where
  "waker_of h x = the (wn_waker (h x))"

lemma wake_all_loop_links:
  assumes "links (h, q) xs" "\<And>x. x \<in> set xs \<Longrightarrow> wn_waker (h x) \<noteq> None" "length ws \<le> 64"
  shows "\<exists>h' q'. wake_all_loop (h, q) ws evs
      = Some (take 64 (ws @ map (waker_of h) xs), evs @ map Drop (drop 64 (ws @ map (waker_of h) xs)), h', q')
    \<and> links (h', q') [] \<and> (\<forall>x. wn_linked (h' x) = (x \<notin> set xs \<and> wn_linked (h x)))
    \<and> (\<forall>x. wn_priority (h' x) = wn_priority (h x))"
  using assms
proof (induction xs arbitrary: h q ws evs)
  case Nil
  then show ?case by (subst wake_all_loop.simps) (simp add: links_def)
next
  case (Cons x xs)
  obtain w where w: "wn_waker (h x) = Some w" using Cons.prems(2) [of x] by auto
  obtain h1 q1 where p: "pop_head x (h, q) = (Some w, h1, q1)" "links (h1, q1) xs"
    "leaves (set (x # xs)) x True h h1"
    using pop_head_links [OF Cons.prems(1)] w by auto
  have x: "x \<notin> set xs" using Cons.prems(1) by (simp add: links_def)
  have wk: "wn_waker (h1 y) = wn_waker (h y)" if "y \<in> set xs" for y
    using p(3) that x by (auto simp: leaves_def)
  have ws: "map (waker_of h1) xs = map (waker_of h) xs" by (simp add: waker_of_def wk)
  have ne: "wn_waker (h1 y) \<noteq> None" if "y \<in> set xs" for y
    using Cons.prems(2) [of y] wk [OF that] that by simp
  have wx: "waker_of h x = w" by (simp add: waker_of_def w)
  have hd: "wq_head q = Some x" using Cons.prems(1) by (simp add: links_def)
  have link: "wn_linked (h1 y) = (y \<noteq> x \<and> wn_linked (h y))" "wn_priority (h1 y) = wn_priority (h y)" for y
    using p(3) by (simp_all add: leaves_def)
  show ?case
  proof (cases "length ws < 64")
    case True
    then have "length (ws @ [w]) \<le> 64" by simp
    from Cons.IH [OF p(2) ne this, of evs] hd p(1) True show ?thesis
      by (subst wake_all_loop.simps) (auto simp: heapless_push_def wx ws link)
  next
    case False
    with Cons.prems(3) have len: "length ws = 64" by simp
    from Cons.IH [OF p(2) ne Cons.prems(3), of "evs @ [Drop w]"] hd p(1) len show ?thesis
      by (subst wake_all_loop.simps) (auto simp: heapless_push_def wx ws link)
  qed
qed

lemma wake_all_wf:
  assumes wf: "wf_wq (h, q) xs"
  shows "\<exists>h' q'. WaitQueue_wake_all (h, q)
      = Some (map Drop (drop 64 (map (waker_of h) xs)) @ map Wake (take 64 (map (waker_of h) xs))
          @ map Drop (take 64 (map (waker_of h) xs)), h', q')
    \<and> wf_wq (h', q') [] \<and> (\<forall>x. wn_linked (h' x) = (x \<notin> set xs \<and> wn_linked (h x)))
    \<and> (\<forall>x. wn_priority (h' x) = wn_priority (h x))"
proof -
  from wake_all_loop_links [of h q xs "[]" "[]"] wf obtain h' q' where
    "wake_all_loop (h, q) [] [] = Some (take 64 (map (waker_of h) xs),
       map Drop (drop 64 (map (waker_of h) xs)), h', q')"
    "links (h', q') []" "\<forall>x. wn_linked (h' x) = (x \<notin> set xs \<and> wn_linked (h x))"
    "\<forall>x. wn_priority (h' x) = wn_priority (h x)"
    by (auto simp: wf_wq_links)
  then show ?thesis
    by (auto simp: WaitQueue_wake_all_def heapless_new_def IntoIter_wake_def wf_wq_links links_def)
qed

section \<open>What the queue promises\<close>

interpretation wait_queue: waiter_queue wf_wq "\<lambda>s x. Wake (waker_of (fst s) x)" WaitQueue_wake_one
proof unfold_locales
  fix s :: "'a node_heap \<times> wait_queue" and x xs
  show "WaitQueue_wake_one s = ((False, []), s)" if "wf_wq s []"
    by (rule wake_one_empty [OF that])
  assume wf: "wf_wq s (x # xs)"
  obtain h q where s: "s = (h, q)" by (cases s)
  obtain w h' q' where r: "wn_waker (h x) = Some w"
    "WaitQueue_wake_one (h, q) = ((True, [Wake w]), h', q')" "wf_wq (h', q') xs"
    "leaves (set (x # xs)) x True h h'"
    using wake_one_wf wf unfolding s by blast
  have "x \<notin> set xs" using wf by (simp add: wf_wq_def s)
  then have "waker_of h' y = waker_of h y" if "y \<in> set xs" for y
    using r(4) that by (auto simp: leaves_def waker_of_def)
  with r(1-3) show "\<exists>s'. WaitQueue_wake_one s = ((True, [Wake (waker_of (fst s) x)]), s')
      \<and> wf_wq s' xs \<and> (\<forall>y \<in> set xs. Wake (waker_of (fst s') y) = Wake (waker_of (fst s) y))"
    by (simp add: s waker_of_def)
qed

text \<open>A list of nodes in order of priority, the highest first.\<close>

definition by_priority :: "'w node_heap \<Rightarrow> addr list \<Rightarrow> bool" where
  "by_priority h xs \<longleftrightarrow> sorted_wrt (\<lambda>x y. wn_priority (h y) \<le>s wn_priority (h x)) xs"

lemma by_priority_insert:
  assumes "by_priority h (ys @ zs)" "\<And>z. z \<in> set zs \<Longrightarrow> wn_priority (h z) <s p"
    "ys \<noteq> [] \<Longrightarrow> \<not> wn_priority (h (last ys)) <s p" "wn_priority (h n) = p"
  shows "by_priority h (ys @ n # zs)"
proof -
  have "p \<le>s wn_priority (h y)" if y: "y \<in> set ys" for y
  proof -
    from y obtain us where ys: "ys = us @ [last ys]" by (metis append_butlast_last_id empty_iff list.set(1))
    have "y = last ys \<or> wn_priority (h (last ys)) \<le>s wn_priority (h y)"
      using assms(1) y by (subst (asm) (2) ys, subst (asm) ys) (auto simp: by_priority_def sorted_wrt_append)
    moreover have "p \<le>s wn_priority (h (last ys))"
      using assms(3) length_pos_if_in_set [OF y] by (simp add: word_sle_eq word_sless_alt not_less)
    ultimately show ?thesis by (auto simp: word_sle_eq)
  qed
  with assms(1,2,4) show ?thesis
    by (auto simp: by_priority_def sorted_wrt_append word_sle_eq word_sless_alt less_imp_le)
qed

text \<open>
  C20: Enqueueing an unlinked node with a waker never panics or loops; the pointer surgery puts
  it before exactly the nodes of lower priority at the end of the list, so that a queue in order
  of priority stays so, first come first served among equals.
\<close>

theorem WaitQueue_enqueue_by_priority:
  assumes "wf_wq (h, q) xs" "\<not> wn_linked (h n)" "wn_waker (h n) \<noteq> None"
  shows "\<exists>h' q' ys zs. WaitQueue_enqueue n (h, q) = Some (h', q') \<and> xs = ys @ zs
    \<and> wf_wq (h', q') (ys @ n # zs)
    \<and> (\<forall>z \<in> set zs. wn_priority (h z) <s wn_priority (h n))
    \<and> (ys \<noteq> [] \<longrightarrow> \<not> wn_priority (h (last ys)) <s wn_priority (h n))
    \<and> (by_priority h xs \<longrightarrow> by_priority h' (ys @ n # zs))"
proof -
  obtain ys zs where p: "place (\<lambda>c. wn_priority (h c)) (wn_priority (h n)) xs = (ys, zs)"
    by (cases "place (\<lambda>c. wn_priority (h c)) (wn_priority (h n)) xs")
  from enqueue_wf [OF assms p] obtain h' q' where e: "WaitQueue_enqueue n (h, q) = Some (h', q')"
    "wf_wq (h', q') (ys @ n # zs)" "\<And>x. wn_priority (h' x) = wn_priority (h x)" by blast
  note place = place_split [OF p] place_low [OF p] place_high [OF p]
  have "by_priority h' (ys @ n # zs)" if "by_priority h xs"
    using by_priority_insert [of h' ys zs "wn_priority (h n)" n] that place
    by (simp add: by_priority_def e(3))
  with e(1,2) place show ?thesis by blast
qed

text \<open>
  Removing a node unlinks it wherever it stands and keeps the others in order; removing a
  node that is not linked (any more) changes nothing.
\<close>

theorem WaitQueue_remove_anywhere:
  assumes "wf_wq (h, q) xs" "wn_linked (h n) \<longrightarrow> n \<in> set xs"
  shows "\<exists>h' q'. WaitQueue_remove n (h, q) = (h', q') \<and> wf_wq (h', q') (remove1 n xs)
    \<and> \<not> wn_linked (h' n) \<and> (\<not> wn_linked (h n) \<longrightarrow> (h', q') = (h, q))"
proof (cases "wn_linked (h n)")
  case True
  with assms(2) obtain ys zs where xs: "xs = ys @ n # zs" by (meson split_list)
  have "n \<notin> set ys" using assms(1) by (simp add: wf_wq_def xs)
  then have "remove1 n xs = ys @ zs" by (simp add: xs remove1_append)
  with remove_wf [of h q ys n zs] assms(1) xs True show ?thesis by (auto simp: leaves_def)
next
  case False
  then have "n \<notin> set xs" using assms(1) by (auto simp: wf_wq_def)
  with False assms(1) remove_unlinked [of "(h, q)" n] show ?thesis by (simp add: remove1_idem)
qed

text \<open>
  \<open>wake_one\<close> takes the first node off, wakes its waker and reports true; in a queue in order
  of priority no waiter that stays has a higher priority. On an empty queue it reports false.
\<close>

theorem WaitQueue_wake_one_highest:
  assumes "wf_wq (h, q) xs"
  shows "case xs of
      [] \<Rightarrow> WaitQueue_wake_one (h, q) = ((False, []), h, q)
    | x # ys \<Rightarrow> \<exists>h' q'. WaitQueue_wake_one (h, q) = ((True, [Wake (waker_of h x)]), h', q')
        \<and> wf_wq (h', q') ys \<and> \<not> wn_linked (h' x)
        \<and> (by_priority h xs \<longrightarrow> (\<forall>y \<in> set ys. \<not> wn_priority (h x) <s wn_priority (h y)))"
proof (cases xs)
  case Nil
  with assms wake_one_empty show ?thesis by simp
next
  case (Cons x ys)
  with assms wake_one_wf [of h q x ys] obtain w h' q' where r: "wn_waker (h x) = Some w"
    "WaitQueue_wake_one (h, q) = ((True, [Wake w]), h', q')" "wf_wq (h', q') ys"
    "leaves (set (x # ys)) x True h h'" by blast
  have "\<forall>y \<in> set ys. \<not> wn_priority (h x) <s wn_priority (h y)" if "by_priority h xs"
    using that Cons by (auto simp: by_priority_def word_sle_eq word_sless_alt)
  moreover have "\<not> wn_linked (h' x)" using r(4) unfolding leaves_def by blast
  ultimately show ?thesis using r Cons by (simp add: waker_of_def)
qed

fun woken :: "'w waker_event list \<Rightarrow> 'w list" where
  "woken [] = []"
| "woken (Wake w # es) = w # woken es"
| "woken (Drop w # es) = woken es"

fun dropped :: "'w waker_event list \<Rightarrow> 'w list" where
  "dropped [] = []"
| "dropped (Wake w # es) = dropped es"
| "dropped (Drop w # es) = w # dropped es"

lemma woken_append [simp]: "woken (es @ fs) = woken es @ woken fs"
  by (induction es rule: woken.induct) simp_all

lemma dropped_append [simp]: "dropped (es @ fs) = dropped es @ dropped fs"
  by (induction es rule: dropped.induct) simp_all

lemma woken_maps [simp]: "woken (map Wake ws) = ws" "woken (map Drop ws) = []"
  "dropped (map Wake ws) = []" "dropped (map Drop ws) = ws"
  by (induction ws) simp_all

text \<open>
  \<open>wake_all\<close> ends and empties the queue, but it wakes only the first 64 waiters; the wakers
  of all further ones are dropped, so those tasks sleep on without being in any queue. And
  every waker that is woken, and so consumed, is dropped once more.
\<close>

theorem WaitQueue_wake_all_first_64:
  assumes "wf_wq (h, q) xs"
  shows "\<exists>es h' q'. WaitQueue_wake_all (h, q) = Some (es, h', q') \<and> wf_wq (h', q') []
    \<and> (\<forall>x \<in> set xs. \<not> wn_linked (h' x))
    \<and> woken es = map (waker_of h) (take 64 xs)
    \<and> dropped es = map (waker_of h) (drop 64 xs) @ map (waker_of h) (take 64 xs)"
proof -
  from wake_all_wf [OF assms] obtain h' q' where r: "WaitQueue_wake_all (h, q)
      = Some (map Drop (drop 64 (map (waker_of h) xs)) @ map Wake (take 64 (map (waker_of h) xs))
          @ map Drop (take 64 (map (waker_of h) xs)), h', q')" (is "_ = Some (?es, _, _)")
    "wf_wq (h', q') []" "\<forall>x. wn_linked (h' x) = (x \<notin> set xs \<and> wn_linked (h x))" by blast
  have "woken ?es = map (waker_of h) (take 64 xs)"
    "dropped ?es = map (waker_of h) (drop 64 xs) @ map (waker_of h) (take 64 xs)"
    by (simp_all only: woken_append dropped_append woken_maps take_map drop_map append_Nil append_Nil2)
  with r show ?thesis by blast
qed

definition demo_heap :: "nat node_heap" where
  "demo_heap = (\<lambda>x. WaitNode_new)(3 := \<lparr>wn_waker = Some 30, wn_priority = 1, wn_next = None,
     wn_prev = None, wn_linked = True\<rparr>, 5 := \<lparr>wn_waker = Some 50, wn_priority = 2,
     wn_next = None, wn_prev = None, wn_linked = False\<rparr>)"

definition demo_queue :: wait_queue where
  "demo_queue = \<lparr>wq_head = Some 3, wq_tail = Some 3, wq_len = 1\<rparr>"

lemma demo_wf: "wf_wq (demo_heap, demo_queue) [3]"
  by (simp add: wf_wq_def demo_heap_def demo_queue_def)

theorem WaitQueue_enqueue_by_priority_witness:
  "\<exists>h' q' ys zs. WaitQueue_enqueue 5 (demo_heap, demo_queue) = Some (h', q') \<and> [3] = ys @ zs
    \<and> wf_wq (h', q') (ys @ 5 # zs)"
  using WaitQueue_enqueue_by_priority [OF demo_wf, of 5] by (fastforce simp: demo_heap_def)

theorem WaitQueue_remove_anywhere_witness:
  "\<exists>h' q'. WaitQueue_remove 3 (demo_heap, demo_queue) = (h', q') \<and> wf_wq (h', q') []"
  using WaitQueue_remove_anywhere [OF demo_wf, of 3] by auto

theorem WaitQueue_wake_one_highest_witness:
  "\<exists>h' q'. WaitQueue_wake_one (demo_heap, demo_queue) = ((True, [Wake 30]), h', q') \<and> wf_wq (h', q') []"
  using WaitQueue_wake_one_highest [OF demo_wf] by (auto simp: waker_of_def demo_heap_def)

theorem WaitQueue_wake_all_first_64_witness:
  "\<exists>es h' q'. WaitQueue_wake_all (demo_heap, demo_queue) = Some (es, h', q')
    \<and> woken es = [30] \<and> dropped es = [30]"
  using WaitQueue_wake_all_first_64 [OF demo_wf] by (auto simp: waker_of_def demo_heap_def)

section \<open>What waking leaves alone\<close>

text \<open>
  Waking up to \<open>k\<close> waiters unlinks exactly the first \<open>k\<close> nodes, takes their wakers, and touches
  no node outside the queue.
\<close>

lemma wake_upto_frame:
  "wf_wq (h, q) xs \<Longrightarrow> wake_upto WaitQueue_wake_one k (h, q) = (r, h', q') \<Longrightarrow>
    (\<forall>x. x \<notin> set xs \<longrightarrow> h' x = h x)
    \<and> (\<forall>x. wn_linked (h' x) = (wn_linked (h x) \<and> x \<notin> set (take k xs))
        \<and> wn_priority (h' x) = wn_priority (h x)
        \<and> wn_waker (h' x) = (if x \<in> set (take k xs) then None else wn_waker (h x)))"
proof (induction k arbitrary: h q xs r)
  case 0
  then show ?case by simp
next
  case (Suc k)
  show ?case
  proof (cases xs)
    case Nil
    with Suc.prems(1) have "WaitQueue_wake_one (h, q) = ((False, []), h, q)"
      using wake_one_empty by blast
    with Suc.prems(2) Nil show ?thesis by simp
  next
    case (Cons x ys)
    with Suc.prems(1) wake_one_wf obtain w h1 q1 where
      s1: "WaitQueue_wake_one (h, q) = ((True, [Wake w]), h1, q1)" "wf_wq (h1, q1) ys"
      "leaves (set (x # ys)) x True h h1" by blast
    from s1(1) Suc.prems(2) obtain r' where "wake_upto WaitQueue_wake_one k (h1, q1) = (r', h', q')"
      by (auto split: prod.splits)
    from Suc.IH [OF s1(2) this] s1(3) Cons show ?thesis by (auto simp: leaves_def)
  qed
qed

lemma dll_cong: "(\<And>x. x \<in> set xs \<Longrightarrow> h' x = h x) \<Longrightarrow> dll h' p xs n = dll h p xs n"
  by (induction xs arbitrary: p) auto

lemma wf_wq_cong:
  assumes "wf_wq (h, q) xs" "\<And>x. x \<in> set xs \<Longrightarrow> h' x = h x"
  shows "wf_wq (h', q) xs"
  using assms dll_cong [of xs h' h None None] by (simp add: wf_wq_def)

lemma wf_wq_outside:
  "wf_wq (h, q) xs \<Longrightarrow> x \<notin> set xs \<Longrightarrow> wf_wq (h(x := n), q) xs"
  "wf_wq (h, q) xs \<Longrightarrow> x \<notin> set xs \<Longrightarrow> wf_wq (put_node x f h, q) xs"
  by (erule wf_wq_cong, auto simp: put_node_def)+

lemma place_all_equal:
  "(\<And>x. x \<in> set xs \<Longrightarrow> \<not> prio x <s p) \<Longrightarrow> place prio p xs = (xs, [])"
  by (cases xs rule: rev_cases) (simp_all add: place_def)

lemma wf_wq_set: "wf_wq (h, q) xs \<Longrightarrow> distinct xs" "wf_wq (h, q) xs \<Longrightarrow> x \<in> set xs \<Longrightarrow> wn_linked (h x)"
  by (auto simp: wf_wq_def)

section \<open>What the futures that park rely on\<close>

text \<open>
  A future that parks keeps the priority 0 of a new node. Seen from such clients the queue is a
  plain FIFO: enqueueing appends, removing takes a node out wherever it is, and waking takes the
  first. Each comes with what it does to the nodes.
\<close>

lemma enqueue_last:
  assumes wf: "wf_wq (h, q) xs" and n: "\<not> wn_linked (h n)" "wn_waker (h n) \<noteq> None"
    and prio: "\<And>x. wn_priority (h x) = 0"
  shows "\<exists>h' q'. WaitQueue_enqueue n (h, q) = Some (h', q') \<and> wf_wq (h', q') (xs @ [n])
    \<and> (\<forall>x. x \<notin> insert n (set xs) \<longrightarrow> h' x = h x)
    \<and> (\<forall>x. wn_waker (h' x) = wn_waker (h x) \<and> wn_priority (h' x) = 0
        \<and> wn_linked (h' x) = (x = n \<or> wn_linked (h x)))"
proof -
  have "place (\<lambda>c. wn_priority (h c)) (wn_priority (h n)) xs = (xs, [])"
    by (rule place_all_equal) (simp add: prio)
  from enqueue_wf [OF wf n this] show ?thesis by (simp add: prio)
qed

lemma remove_any:
  assumes wf: "wf_wq (h, q) xs" and n: "wn_linked (h n) \<longleftrightarrow> n \<in> set xs"
  shows "\<exists>h' q'. WaitQueue_remove n (h, q) = (h', q') \<and> wf_wq (h', q') (remove1 n xs)
    \<and> leaves (set xs) n False h h'"
proof (cases "n \<in> set xs")
  case True
  then obtain ys zs where xs: "xs = ys @ n # zs" by (meson split_list)
  with wf_wq_set(1) [OF wf] have "remove1 n xs = ys @ zs" by (simp add: remove1_append)
  with remove_wf [of h q ys n zs] wf xs show ?thesis by simp
next
  case False
  with n remove_unlinked [of "(h, q)" n] wf show ?thesis
    by (auto simp: remove1_idem leaves_def)
qed

lemma wake_one_any:
  assumes wf: "wf_wq (h, q) xs"
  shows "\<exists>h' q'. WaitQueue_wake_one (h, q)
      = ((xs \<noteq> [], map (\<lambda>x. Wake (waker_of h x)) (take (Suc 0) xs)), h', q') \<and> wf_wq (h', q') (tl xs)
    \<and> (\<forall>x. x \<notin> set xs \<longrightarrow> h' x = h x)
    \<and> (\<forall>x. wn_waker (h' x) = (if x \<in> set (take (Suc 0) xs) then None else wn_waker (h x))
        \<and> wn_priority (h' x) = wn_priority (h x)
        \<and> wn_linked (h' x) = (x \<notin> set (take (Suc 0) xs) \<and> wn_linked (h x)))"
proof (cases xs)
  case Nil
  with wf wake_one_empty [of "(h, q)"] show ?thesis by simp
next
  case (Cons x ys)
  with wake_one_wf [of h q x ys] wf obtain w h' q' where "wn_waker (h x) = Some w"
    "WaitQueue_wake_one (h, q) = ((True, [Wake w]), h', q')" "wf_wq (h', q') ys"
    "leaves (set (x # ys)) x True h h'" by blast
  with Cons show ?thesis by (auto simp: leaves_def waker_of_def)
qed

text \<open>The sort stops at once at the front of the queue, and at a node that is not lower.\<close>

lemma sort_back_stops [simp]:
  "sort_back n p None s = Some s"
  "\<not> wn_priority (fst s c) <s p \<Longrightarrow> sort_back n p (Some c) s = Some s"
  by (subst sort_back.simps, simp)+

lemma is_empty_iff:
  assumes "wf_wq (h, q) xs" "length xs < 2 ^ 64"
  shows "WaitQueue_is_empty q \<longleftrightarrow> xs = []"
proof -
  have "unat (of_nat (length xs) :: usize) = length xs" using assms(2) by (simp add: unat_of_nat)
  with assms(1) show ?thesis
    by (auto simp: WaitQueue_is_empty_def WaitQueue_len_def wf_wq_def)
qed

section \<open>Two queues over the same nodes\<close>

text \<open>
  A channel has one queue for its senders and one for its receivers; their nodes are disjoint, and
  an operation on one leaves the other alone. The facts are stated for the first queue; the two
  can be exchanged.
\<close>

definition two_queues ::
  "'w node_heap \<Rightarrow> wait_queue \<Rightarrow> wait_queue \<Rightarrow> addr list \<Rightarrow> addr list \<Rightarrow> bool" where
  "two_queues h p q xs ys \<longleftrightarrow> wf_wq (h, p) xs \<and> wf_wq (h, q) ys \<and> set xs \<inter> set ys = {}
     \<and> (\<forall>x. wn_linked (h x) \<longleftrightarrow> x \<in> set xs \<union> set ys) \<and> (\<forall>x. wn_priority (h x) = 0)"

lemma two_queues_sym: "two_queues h p q xs ys \<Longrightarrow> two_queues h q p ys xs"
  by (auto simp: two_queues_def)

lemma two_queues_distinct: "two_queues h p q xs ys \<Longrightarrow> distinct xs \<and> distinct ys"
  by (auto simp: two_queues_def dest: wf_wq_set(1))

lemma two_queues_wake:
  assumes "two_queues h p q xs ys"
  shows "\<exists>h' p'. WaitQueue_wake_one (h, p)
      = ((xs \<noteq> [], map (\<lambda>x. Wake (waker_of h x)) (take (Suc 0) xs)), h', p')
    \<and> two_queues h' p' q (tl xs) ys"
proof -
  from assms have wf: "wf_wq (h, p) xs" "wf_wq (h, q) ys" and disj: "set xs \<inter> set ys = {}"
    and l: "\<And>x. wn_linked (h x) \<longleftrightarrow> x \<in> set xs \<union> set ys" "\<And>x. wn_priority (h x) = 0"
    by (auto simp: two_queues_def)
  from wake_one_any [OF wf(1)] obtain h' p' where
    w: "WaitQueue_wake_one (h, p) = ((xs \<noteq> [], map (\<lambda>x. Wake (waker_of h x)) (take (Suc 0) xs)), h', p')"
    "wf_wq (h', p') (tl xs)" "\<forall>x. x \<notin> set xs \<longrightarrow> h' x = h x"
    "\<forall>x. wn_priority (h' x) = wn_priority (h x)
      \<and> wn_linked (h' x) = (x \<notin> set (take (Suc 0) xs) \<and> wn_linked (h x))" by blast
  have "wf_wq (h', q) ys" by (rule wf_wq_cong [OF wf(2)]) (use w(3) disj in blast)
  moreover have "x \<in> set (tl xs) \<longleftrightarrow> x \<in> set xs \<and> x \<notin> set (take (Suc 0) xs)" for x
    using wf_wq_set(1) [OF wf(1)] by (cases xs) auto
  moreover have "set (take (Suc 0) xs) \<inter> set ys = {}" using disj by (cases xs) auto
  ultimately have "two_queues h' p' q (tl xs) ys"
    unfolding two_queues_def using w(2,4) l disj by auto
  with w(1) show ?thesis by blast
qed

lemma two_queues_remove:
  assumes "two_queues h p q xs ys" "n \<notin> set ys"
  shows "\<exists>h' p'. WaitQueue_remove n (h, p) = (h', p') \<and> two_queues h' p' q (remove1 n xs) ys"
proof -
  from assms(1) have wf: "wf_wq (h, p) xs" "wf_wq (h, q) ys" and disj: "set xs \<inter> set ys = {}"
    and l: "\<And>x. wn_linked (h x) \<longleftrightarrow> x \<in> set xs \<union> set ys" "\<And>x. wn_priority (h x) = 0"
    by (auto simp: two_queues_def)
  from remove_any [OF wf(1), of n] l(1) assms(2) obtain h' p' where
    r: "WaitQueue_remove n (h, p) = (h', p')" "wf_wq (h', p') (remove1 n xs)"
    "leaves (set xs) n False h h'" by blast
  have "wf_wq (h', q) ys" by (rule wf_wq_cong [OF wf(2)]) (use r(3) disj in \<open>auto simp: leaves_def\<close>)
  then have "two_queues h' p' q (remove1 n xs) ys"
    unfolding two_queues_def using r(2,3) l disj assms(2) wf_wq_set(1) [OF wf(1)]
    by (auto simp: leaves_def set_remove1_eq)
  with r(1) show ?thesis by blast
qed

lemma two_queues_enqueue:
  assumes "two_queues h p q xs ys" "n \<notin> set xs \<union> set ys" "wn_waker (h n) \<noteq> None"
  shows "\<exists>h' p'. WaitQueue_enqueue n (h, p) = Some (h', p') \<and> two_queues h' p' q (xs @ [n]) ys"
proof -
  from assms(1) have wf: "wf_wq (h, p) xs" "wf_wq (h, q) ys" and disj: "set xs \<inter> set ys = {}"
    and l: "\<And>x. wn_linked (h x) \<longleftrightarrow> x \<in> set xs \<union> set ys" "\<And>x. wn_priority (h x) = 0"
    by (auto simp: two_queues_def)
  have "\<not> wn_linked (h n)" using l(1) assms(2) by simp
  from enqueue_last [OF wf(1) this assms(3) l(2)] obtain h' p' where
    e: "WaitQueue_enqueue n (h, p) = Some (h', p')" "wf_wq (h', p') (xs @ [n])"
    "\<forall>x. x \<notin> insert n (set xs) \<longrightarrow> h' x = h x"
    "\<forall>x. wn_waker (h' x) = wn_waker (h x) \<and> wn_priority (h' x) = 0
      \<and> wn_linked (h' x) = (x = n \<or> wn_linked (h x))" by blast
  have "wf_wq (h', q) ys" by (rule wf_wq_cong [OF wf(2)]) (rule e(3) [rule_format], use disj assms(2) in auto)
  then have "two_queues h' p' q (xs @ [n]) ys"
    unfolding two_queues_def using e(2,4) l disj assms(2) by auto
  with e(1) show ?thesis by blast
qed

text \<open>A new node outside the queues, and a new waker in any node.\<close>

lemma two_queues_new_node:
  "two_queues h p q xs ys \<Longrightarrow> n \<notin> set xs \<union> set ys \<Longrightarrow> two_queues (h(n := WaitNode_new)) p q xs ys"
  unfolding two_queues_def by (auto intro!: wf_wq_outside(1) simp: WaitNode_new_def)

lemma dll_set_waker [simp]: "dll (put_node n (WaitNode_set_waker w) h) a xs b = dll h a xs b"
  by (induction xs arbitrary: a) (auto simp: put_node_def WaitNode_set_waker_def)

lemma set_waker_fields [simp]:
  "wn_linked (put_node n (WaitNode_set_waker w) h x) = wn_linked (h x)"
  "wn_priority (put_node n (WaitNode_set_waker w) h x) = wn_priority (h x)"
  "wn_waker (put_node n (WaitNode_set_waker w) h x) = (if x = n then Some w else wn_waker (h x))"
  by (simp_all add: put_node_def WaitNode_set_waker_def)

lemma wf_wq_set_waker: "wf_wq (h, q) xs \<Longrightarrow> wf_wq (put_node n (WaitNode_set_waker w) h, q) xs"
  unfolding wf_wq_def by simp

lemma two_queues_set_waker:
  "two_queues h p q xs ys \<Longrightarrow> two_queues (put_node n (WaitNode_set_waker w) h) p q xs ys"
  unfolding two_queues_def by (simp add: wf_wq_set_waker)

end
