(* ===== verification/Futex.thy ===== *)
theory Futex
  imports WaitQueue
begin

text \<open>
  The async futex, \<open>src/primitives/futex.rs\<close>: a table of 256 wait queues indexed by a hash of
  the physical address, and the future that waits in one of them. The translation of addresses,
  \<open>virt_to_phys\<close>, is code outside the repository's Rust sources and a parameter \<open>vtp\<close>. Futures
  live at addresses, at which the heap holds their wait node.
\<close>

section \<open>The table\<close>

datatype futex_result = Woken | WouldBlock | TimedOut | Interrupted

definition FUTEX_BUCKETS :: nat where "FUTEX_BUCKETS = 256"

record futex_future =
  ff_addr :: usize
  ff_expected :: u32
  ff_timeout :: "nat option"
  ff_registered :: bool

record 'w futex_sys =
  fx_heap :: "'w node_heap"
  fx_buckets :: "wait_queue list"
  fx_futures :: "addr \<Rightarrow> futex_future"
  fx_live :: "addr set" \<comment> \<open>the futures that exist\<close>

definition FutexTable_new :: "wait_queue list" where
  "FutexTable_new = replicate FUTEX_BUCKETS WaitQueue_new"

text \<open>The index of the bucket.\<close>

definition bucket_for :: "(usize \<Rightarrow> usize) \<Rightarrow> usize \<Rightarrow> nat" where
  "bucket_for vtp address =
     (let phys = vtp address;
          hash = 0xcbf29ce484222325;
          hash = hash XOR phys;
          hash = hash * 0x100000001b3
      in unat hash mod FUTEX_BUCKETS)"

text \<open>\<open>wait\<close> builds the future, at the address \<open>n\<close>.\<close>

definition FutexTable_wait ::
  "addr \<Rightarrow> usize \<Rightarrow> u32 \<Rightarrow> nat option \<Rightarrow> 'w futex_sys \<Rightarrow> 'w futex_sys" where
  "FutexTable_wait n address expected timeout s = s\<lparr>
     fx_heap := (fx_heap s)(n := WaitNode_new),
     fx_futures := (fx_futures s)(n := \<lparr>ff_addr = address, ff_expected = expected,
       ff_timeout = timeout, ff_registered = False\<rparr>),
     fx_live := insert n (fx_live s)\<rparr>"

definition FutexTable_wake ::
  "(usize \<Rightarrow> usize) \<Rightarrow> usize \<Rightarrow> nat \<Rightarrow> 'w futex_sys
    \<Rightarrow> ((nat \<times> 'w waker_event list) \<times> 'w futex_sys) option" where
  "FutexTable_wake vtp address count s = do {
     let i = bucket_for vtp address;
     q \<leftarrow> idx (fx_buckets s) i;
     let (r, h, q') = wake_upto WaitQueue_wake_one count (fx_heap s, q);
     bs \<leftarrow> upd (fx_buckets s) i q';
     Some (r, s\<lparr>fx_heap := h, fx_buckets := bs\<rparr>) }"

text \<open>Polling the future at \<open>n\<close>: \<open>None\<close> inside is \<open>Pending\<close>.\<close>

definition set_registered :: "addr \<Rightarrow> bool \<Rightarrow> 'w futex_sys \<Rightarrow> 'w futex_sys" where
  "set_registered n b s = s\<lparr>fx_futures := (fx_futures s)(n := (fx_futures s n)\<lparr>ff_registered := b\<rparr>)\<rparr>"

definition FutexWait_poll ::
  "(usize \<Rightarrow> usize) \<Rightarrow> addr \<Rightarrow> 'w \<Rightarrow> 'w futex_sys \<Rightarrow> (futex_result option \<times> 'w futex_sys) option" where
  "FutexWait_poll vtp n waker s = do {
     let i = bucket_for vtp (ff_addr (fx_futures s n));
     q \<leftarrow> idx (fx_buckets s) i;
     if \<not> ff_registered (fx_futures s n) then do {
       let h = put_node n (\<lambda>x. WaitNode_set_priority 0 (WaitNode_set_waker waker x)) (fx_heap s);
       (h', q') \<leftarrow> WaitQueue_enqueue n (h, q);
       bs \<leftarrow> upd (fx_buckets s) i q';
       Some (None, set_registered n True (s\<lparr>fx_heap := h', fx_buckets := bs\<rparr>)) }
     else if \<not> wn_linked (fx_heap s n) then Some (Some Woken, set_registered n False s)
     else Some (None, s) }"

definition FutexWait_drop :: "(usize \<Rightarrow> usize) \<Rightarrow> addr \<Rightarrow> 'w futex_sys \<Rightarrow> 'w futex_sys option" where
  "FutexWait_drop vtp n s = do {
     s' \<leftarrow> (if ff_registered (fx_futures s n) then do {
         let i = bucket_for vtp (ff_addr (fx_futures s n));
         q \<leftarrow> idx (fx_buckets s) i;
         let (h, q') = WaitQueue_remove n (fx_heap s, q);
         bs \<leftarrow> upd (fx_buckets s) i q';
         Some (s\<lparr>fx_heap := h, fx_buckets := bs\<rparr>) }
       else Some s);
     Some (s'\<lparr>fx_live := fx_live s' - {n}\<rparr>) }"

section \<open>The hash\<close>

text \<open>The multiplier is odd, so modulo 256 it can be undone: \<open>0xb3 * 123 = 1\<close>.\<close>

lemma mult_179_inj:
  assumes "(a * 179) mod 256 = (b * 179) mod (256 :: nat)"
  shows "a mod 256 = b mod 256"
proof -
  have undo: "(x * 179 * 123) mod 256 = x mod 256" for x :: nat
  proof -
    have "x * 179 * 123 = x + 256 * (86 * x)" by simp
    then show ?thesis by (simp only: mod_mult_self2)
  qed
  have "(a * 179 * 123) mod 256 = (b * 179 * 123) mod 256"
    using assms by (metis mod_mult_left_eq)
  then show ?thesis by (simp only: undo)
qed

lemma unat_mod_256: "unat (x :: u64) mod 256 = unat (take_bit 8 x)"
proof -
  have "unat (take_bit 8 x) = take_bit 8 (unat x)" by (rule unsigned_take_bit_eq)
  then show ?thesis unfolding take_bit_eq_mod by simp
qed

lemma mult_179_iff:
  "(a * 179) mod 256 = (b * 179) mod (256 :: nat) \<longleftrightarrow> a mod 256 = b mod 256"
  using mult_179_inj mod_mult_cong [of a 256 b 179 179] by blast

lemma take_bit_xor_cancel:
  "take_bit 8 (c XOR p) = take_bit 8 (c XOR p') \<longleftrightarrow> take_bit 8 p = take_bit 8 (p' :: u64)"
  by (auto simp: bit_eq_iff bit_simps)

lemma unat_mult_mod_256: "unat (x * y :: u64) mod 256 = (unat x * unat y) mod 256"
proof -
  have "unat (x * y) = (unat x * unat y) mod 2 ^ 64" by (simp add: unat_word_ariths)
  then show ?thesis by (simp add: mod_mod_cancel)
qed

text \<open>
  Two futex addresses share a bucket exactly when their physical addresses agree modulo 256:
  the hash distributes like the low byte of the address, and words of different pages collide.
\<close>

theorem futex_bucket_collisions:
  "bucket_for vtp a = bucket_for vtp b \<longleftrightarrow> unat (vtp a) mod 256 = unat (vtp b) mod 256"
proof -
  let ?c = "0xcbf29ce484222325 :: u64"
  have b: "bucket_for vtp x = (unat (?c XOR vtp x) * 0x100000001b3) mod 256" for x
    by (simp add: bucket_for_def FUTEX_BUCKETS_def Let_def unat_mult_mod_256)
  have k: "(m * 0x100000001b3) mod 256 = (m * 179) mod (256 :: nat)" for m
  proof -
    have "m * 0x100000001b3 = m * 179 + 256 * (m * 4294967297)" by simp
    then show ?thesis by (simp only: mod_mult_self2)
  qed
  have "bucket_for vtp a = bucket_for vtp b \<longleftrightarrow> unat (?c XOR vtp a) mod 256 = unat (?c XOR vtp b) mod 256"
    unfolding b k by (rule mult_179_iff)
  also have "\<dots> \<longleftrightarrow> take_bit 8 (vtp a) = take_bit 8 (vtp b)"
    by (simp only: unat_mod_256 word_unat_eq_iff [symmetric] take_bit_xor_cancel)
  finally show ?thesis by (simp only: unat_mod_256 word_unat_eq_iff [symmetric])
qed

lemma bucket_for_less: "bucket_for vtp a < 256"
  by (simp add: bucket_for_def FUTEX_BUCKETS_def Let_def)

section \<open>The table of queues\<close>

text \<open>
  The invariant: \<open>L i\<close> are the futures waiting in bucket \<open>i\<close>, first come first; they exist, are
  registered under an address of that bucket, and nothing else is linked anywhere.
\<close>

definition wf_fx :: "(usize \<Rightarrow> usize) \<Rightarrow> 'w futex_sys \<Rightarrow> (nat \<Rightarrow> addr list) \<Rightarrow> bool" where
  "wf_fx vtp s L \<longleftrightarrow> length (fx_buckets s) = FUTEX_BUCKETS
     \<and> (\<forall>i < FUTEX_BUCKETS. wf_wq (fx_heap s, fx_buckets s ! i) (L i))
     \<and> (\<forall>i < FUTEX_BUCKETS. \<forall>n \<in> set (L i). n \<in> fx_live s \<and> ff_registered (fx_futures s n)
          \<and> bucket_for vtp (ff_addr (fx_futures s n)) = i \<and> wn_priority (fx_heap s n) = 0)
     \<and> (\<forall>n. wn_linked (fx_heap s n) \<longrightarrow> n \<in> set (L (bucket_for vtp (ff_addr (fx_futures s n)))))"

lemma wf_fxI:
  assumes "length (fx_buckets s) = FUTEX_BUCKETS"
    and "\<And>i. i < FUTEX_BUCKETS \<Longrightarrow> wf_wq (fx_heap s, fx_buckets s ! i) (L i)"
    and "\<And>i n. i < FUTEX_BUCKETS \<Longrightarrow> n \<in> set (L i) \<Longrightarrow> n \<in> fx_live s \<and> ff_registered (fx_futures s n)
      \<and> bucket_for vtp (ff_addr (fx_futures s n)) = i \<and> wn_priority (fx_heap s n) = 0"
    and "\<And>n. wn_linked (fx_heap s n) \<Longrightarrow> n \<in> set (L (bucket_for vtp (ff_addr (fx_futures s n))))"
  shows "wf_fx vtp s L"
  using assms unfolding wf_fx_def by blast

lemma wf_fxD:
  assumes "wf_fx vtp s L"
  shows "length (fx_buckets s) = FUTEX_BUCKETS"
    and "i < FUTEX_BUCKETS \<Longrightarrow> wf_wq (fx_heap s, fx_buckets s ! i) (L i)"
    and "i < FUTEX_BUCKETS \<Longrightarrow> n \<in> set (L i) \<Longrightarrow> n \<in> fx_live s \<and> ff_registered (fx_futures s n)
      \<and> bucket_for vtp (ff_addr (fx_futures s n)) = i \<and> wn_priority (fx_heap s n) = 0"
    and "wn_linked (fx_heap s n) \<Longrightarrow> n \<in> set (L (bucket_for vtp (ff_addr (fx_futures s n))))"
  using assms unfolding wf_fx_def by blast+

lemma bucket_in: "bucket_for vtp a < FUTEX_BUCKETS"
  using bucket_for_less [of vtp a] by (simp add: FUTEX_BUCKETS_def)

lemma wf_fx_disjoint:
  "wf_fx vtp s L \<Longrightarrow> i < FUTEX_BUCKETS \<Longrightarrow> j < FUTEX_BUCKETS \<Longrightarrow> n \<in> set (L i) \<Longrightarrow> n \<in> set (L j) \<Longrightarrow> i = j"
  using wf_fxD(3) by metis

text \<open>
  An operation on one bucket: it keeps the invariant if the new queue is well-formed, nothing
  outside the old queue and the node \<open>n\<close> changed, and the links that remain are accounted for.
\<close>

lemma wf_fx_bucket:
  assumes wf: "wf_fx vtp s L" and i: "i < FUTEX_BUCKETS"
    and new: "wf_wq (h, q) xs" and other: "\<And>x. x \<notin> A \<Longrightarrow> h x = fx_heap s x"
    and A: "\<And>j x. j < FUTEX_BUCKETS \<Longrightarrow> j \<noteq> i \<Longrightarrow> x \<in> set (L j) \<Longrightarrow> x \<notin> A"
    and s': "fx_heap s' = h" "fx_buckets s' = (fx_buckets s)[i := q]"
    and same: "\<And>x. x \<notin> A \<Longrightarrow> fx_futures s' x = fx_futures s x \<and> (x \<in> fx_live s \<longrightarrow> x \<in> fx_live s')"
    and xs: "\<And>x. x \<in> set xs \<Longrightarrow> x \<in> fx_live s' \<and> ff_registered (fx_futures s' x)
      \<and> bucket_for vtp (ff_addr (fx_futures s' x)) = i \<and> wn_priority (h x) = 0"
    and lnk: "\<And>x. x \<in> A \<Longrightarrow> wn_linked (h x) \<Longrightarrow> x \<in> set xs"
    and L: "\<And>x. x \<in> set (L i) \<Longrightarrow> x \<in> A"
  shows "wf_fx vtp s' (L(i := xs))"
proof (rule wf_fxI)
  note D = wf_fxD [OF wf]
  show "length (fx_buckets s') = FUTEX_BUCKETS" using D(1) s' by simp
  fix j assume j: "j < FUTEX_BUCKETS"
  show "wf_wq (fx_heap s', fx_buckets s' ! j) ((L(i := xs)) j)"
  proof (cases "j = i")
    case True
    with new s' D(1) i show ?thesis by simp
  next
    case False
    have "wf_wq (h, fx_buckets s ! j) (L j)"
      by (rule wf_wq_cong [OF D(2) [OF j]]) (use other A [OF j False] in auto)
    with False s' show ?thesis by simp
  qed
next
  note D = wf_fxD [OF wf]
  fix j n assume j: "j < FUTEX_BUCKETS" and n: "n \<in> set ((L(i := xs)) j)"
  show "n \<in> fx_live s' \<and> ff_registered (fx_futures s' n)
      \<and> bucket_for vtp (ff_addr (fx_futures s' n)) = j \<and> wn_priority (fx_heap s' n) = 0"
  proof (cases "j = i")
    case True
    with n xs s' show ?thesis by simp
  next
    case False
    with n have "n \<in> set (L j)" by simp
    with D(3) [OF j this] A [OF j False this] same [of n] other [of n] s' show ?thesis by simp
  qed
next
  note D = wf_fxD [OF wf]
  fix n assume l: "wn_linked (fx_heap s' n)"
  show "n \<in> set ((L(i := xs)) (bucket_for vtp (ff_addr (fx_futures s' n))))"
  proof (cases "n \<in> A")
    case True
    with lnk [of n] l s' have "n \<in> set xs" by simp
    with xs show ?thesis by simp
  next
    case False
    with other [of n] l s' D(4) [of n] same [of n]
    have m: "n \<in> set (L (bucket_for vtp (ff_addr (fx_futures s' n))))" by simp
    with L [of n] False have "bucket_for vtp (ff_addr (fx_futures s' n)) \<noteq> i" by auto
    with m show ?thesis by simp
  qed
qed

lemma wake_fx:
  assumes wf: "wf_fx vtp s L" and i: "i = bucket_for vtp address"
  shows "\<exists>s'. FutexTable_wake vtp address count s = Some
      ((min count (length (L i)), map (\<lambda>n. Wake (waker_of (fx_heap s) n)) (take count (L i))), s')
    \<and> wf_fx vtp s' (L(i := drop count (L i))) \<and> fx_futures s' = fx_futures s
    \<and> fx_live s' = fx_live s
    \<and> (\<forall>n. wn_linked (fx_heap s' n) = (wn_linked (fx_heap s n) \<and> n \<notin> set (take count (L i))))"
proof -
  note D = wf_fxD [OF wf]
  have lt: "i < FUTEX_BUCKETS" using bucket_in i by simp
  note wq = D(2) [OF lt]
  obtain h q where w: "wake_upto WaitQueue_wake_one count (fx_heap s, fx_buckets s ! i)
      = ((min count (length (L i)), map (\<lambda>n. Wake (waker_of (fx_heap s) n)) (take count (L i))), h, q)"
    and new: "wf_wq (h, q) (drop count (L i))"
    using wait_queue.wake_upto_prefix [OF wq, of count] by auto
  note fr = wake_upto_frame [OF wq w]
  have split: "x \<in> set (L i) \<longleftrightarrow> x \<in> set (take count (L i)) \<or> x \<in> set (drop count (L i))" for x
    by (metis Un_iff append_take_drop_id set_append)
  let ?s = "s\<lparr>fx_heap := h, fx_buckets := (fx_buckets s)[i := q]\<rparr>"
  have r1: "wf_fx vtp ?s (L(i := drop count (L i)))"
  proof (rule wf_fx_bucket [OF wf lt new, where A = "set (L i)"])
    show "h x = fx_heap s x" if "x \<notin> set (L i)" for x using fr that by blast
    show "x \<notin> set (L i)" if "j < FUTEX_BUCKETS" "j \<noteq> i" "x \<in> set (L j)" for j x
      using wf_fx_disjoint [OF wf that(1) lt that(3)] that(2) by blast
    show "x \<in> set (drop count (L i))" if "x \<in> set (L i)" "wn_linked (h x)" for x
      using fr that split by blast
    show "x \<in> fx_live ?s \<and> ff_registered (fx_futures ?s x)
        \<and> bucket_for vtp (ff_addr (fx_futures ?s x)) = i \<and> wn_priority (h x) = 0"
      if "x \<in> set (drop count (L i))" for x
      using D(3) [OF lt, of x] that split [of x] fr by simp
  qed simp_all
  have r2: "FutexTable_wake vtp address count s = Some
      ((min count (length (L i)), map (\<lambda>n. Wake (waker_of (fx_heap s) n)) (take count (L i))), ?s)"
    unfolding FutexTable_wake_def Let_def i [symmetric] using w lt D(1) by simp
  have r3: "\<forall>n. wn_linked (fx_heap ?s n) = (wn_linked (fx_heap s n) \<and> n \<notin> set (take count (L i)))"
    using fr by simp
  show ?thesis
    by (rule exI, intro conjI, rule r2, rule r1, simp_all only: r3, simp_all)
qed

lemma fresh_not_linked:
  "wf_fx vtp s L \<Longrightarrow> \<not> ff_registered (fx_futures s n) \<Longrightarrow> \<not> wn_linked (fx_heap s n)"
  using wf_fxD(4) [of vtp s L n] wf_fxD(3) [of vtp s L _ n, OF _ bucket_in] by blast

lemma poll_fx_park:
  assumes wf: "wf_fx vtp s L" and live: "n \<in> fx_live s" and reg: "\<not> ff_registered (fx_futures s n)"
    and i: "i = bucket_for vtp (ff_addr (fx_futures s n))"
  shows "\<exists>s'. FutexWait_poll vtp n w s = Some (None, s') \<and> wf_fx vtp s' (L(i := L i @ [n]))
    \<and> ff_registered (fx_futures s' n)"
proof -
  note D = wf_fxD [OF wf]
  have lt: "i < FUTEX_BUCKETS" using bucket_in i by simp
  have un: "\<not> wn_linked (fx_heap s n)" by (rule fresh_not_linked [OF wf reg])
  have out: "n \<notin> set (L j)" if "j < FUTEX_BUCKETS" for j using D(3) [OF that, of n] reg by blast
  let ?h = "put_node n (\<lambda>x. WaitNode_set_priority 0 (WaitNode_set_waker w x)) (fx_heap s)"
  have wq: "wf_wq (?h, fx_buckets s ! i) (L i)"
    by (rule wf_wq_cong [OF D(2) [OF lt]]) (use out [OF lt] in \<open>auto simp: put_node_def\<close>)
  have p0: "wn_priority (?h n) = 0" "\<not> wn_linked (?h n)" "wn_waker (?h n) \<noteq> None"
    using un by (simp_all add: WaitNode_set_priority_def WaitNode_set_waker_def)
  have pr: "wn_priority (?h x) = 0" if "x \<in> set (L i)" for x
    using D(3) [OF lt that] out [OF lt] that by (cases "x = n") auto
  have "place (\<lambda>c. wn_priority (?h c)) (wn_priority (?h n)) (L i) = (L i, [])"
    by (rule place_all_equal) (subst pr, assumption, subst p0(1), simp)
  from enqueue_wf [OF wq p0(2,3) this] obtain h q where
    e: "WaitQueue_enqueue n (?h, fx_buckets s ! i) = Some (h, q)" "wf_wq (h, q) (L i @ [n])"
    "\<And>x. x \<notin> insert n (set (L i)) \<Longrightarrow> h x = ?h x"
    "\<And>x. wn_priority (h x) = wn_priority (?h x)" by blast
  let ?s = "set_registered n True (s\<lparr>fx_heap := h, fx_buckets := (fx_buckets s)[i := q]\<rparr>)"
  have "wf_fx vtp ?s (L(i := L i @ [n]))"
  proof (rule wf_fx_bucket [OF wf lt e(2), where A = "insert n (set (L i))"])
    show "h x = fx_heap s x" if "x \<notin> insert n (set (L i))" for x
      using e(3) [OF that] that by simp
    show "x \<notin> insert n (set (L i))" if "j < FUTEX_BUCKETS" "j \<noteq> i" "x \<in> set (L j)" for j x
      using wf_fx_disjoint [OF wf that(1) lt that(3)] that out by auto
    show "x \<in> fx_live ?s \<and> ff_registered (fx_futures ?s x)
        \<and> bucket_for vtp (ff_addr (fx_futures ?s x)) = i \<and> wn_priority (h x) = 0"
      if "x \<in> set (L i @ [n])" for x
      using that D(3) [OF lt, of x] live i p0(1) pr [of x] by (auto simp: set_registered_def e(4))
  qed (simp_all add: set_registered_def)
  moreover have "FutexWait_poll vtp n w s = Some (None, ?s)"
    unfolding FutexWait_poll_def Let_def i [symmetric] using reg e(1) lt D(1) by simp
  ultimately show ?thesis by (auto simp: set_registered_def)
qed

lemma poll_fx_woken:
  assumes wf: "wf_fx vtp s L" and reg: "ff_registered (fx_futures s n)"
  shows "FutexWait_poll vtp n w s = Some
    (if wn_linked (fx_heap s n) then (None, s) else (Some Woken, set_registered n False s))"
    and "\<not> wn_linked (fx_heap s n) \<Longrightarrow> wf_fx vtp (set_registered n False s) L"
proof -
  note D = wf_fxD [OF wf]
  show "FutexWait_poll vtp n w s = Some
      (if wn_linked (fx_heap s n) then (None, s) else (Some Woken, set_registered n False s))"
    using reg D(1) bucket_in by (simp add: FutexWait_poll_def Let_def)
  assume un: "\<not> wn_linked (fx_heap s n)"
  then have out: "n \<notin> set (L i)" if "i < FUTEX_BUCKETS" for i
    using wf_wq_set(2) [OF D(2) [OF that]] by blast
  show "wf_fx vtp (set_registered n False s) L"
  proof (rule wf_fxI)
    fix i m assume "i < FUTEX_BUCKETS" "m \<in> set (L i)"
    with out D(3) show "m \<in> fx_live (set_registered n False s)
        \<and> ff_registered (fx_futures (set_registered n False s) m)
        \<and> bucket_for vtp (ff_addr (fx_futures (set_registered n False s) m)) = i
        \<and> wn_priority (fx_heap (set_registered n False s) m) = 0"
      by (cases "m = n") (auto simp: set_registered_def)
  next
    fix m assume "wn_linked (fx_heap (set_registered n False s) m)"
    with un D(4) [of m] show "m \<in> set (L (bucket_for vtp (ff_addr (fx_futures (set_registered n False s) m))))"
      by (cases "m = n") (simp_all add: set_registered_def)
  qed (use D(1,2) in \<open>simp_all add: set_registered_def\<close>)
qed

lemma drop_fx_outside:
  assumes wf: "wf_fx vtp s L" and out: "\<And>j. j < FUTEX_BUCKETS \<Longrightarrow> n \<notin> set (L j)"
  shows "\<exists>s'. FutexWait_drop vtp n s = Some s' \<and> wf_fx vtp s' L \<and> fx_live s' = fx_live s - {n}"
proof -
  note D = wf_fxD [OF wf]
  let ?i = "bucket_for vtp (ff_addr (fx_futures s n))" and ?s = "s\<lparr>fx_live := fx_live s - {n}\<rparr>"
  have "\<not> wn_linked (fx_heap s n)" using D(4) [of n] out [OF bucket_in] by blast
  then have "WaitQueue_remove n (fx_heap s, fx_buckets s ! ?i) = (fx_heap s, fx_buckets s ! ?i)"
    by (intro remove_unlinked) simp
  then have "FutexWait_drop vtp n s = Some ?s"
    using bucket_in D(1) by (simp add: FutexWait_drop_def Let_def)
  moreover have "wf_fx vtp ?s L"
  proof (rule wf_fxI)
    fix j m assume "j < FUTEX_BUCKETS" "m \<in> set (L j)"
    with D(3) out show "m \<in> fx_live ?s \<and> ff_registered (fx_futures ?s m)
        \<and> bucket_for vtp (ff_addr (fx_futures ?s m)) = j \<and> wn_priority (fx_heap ?s m) = 0" by auto
  qed (use D(1,2,4) in simp_all)
  ultimately show ?thesis by simp
qed

lemma drop_fx:
  assumes wf: "wf_fx vtp s L" and i: "i = bucket_for vtp (ff_addr (fx_futures s n))"
  shows "\<exists>s'. FutexWait_drop vtp n s = Some s' \<and> wf_fx vtp s' (L(i := remove1 n (L i)))
    \<and> fx_live s' = fx_live s - {n}"
proof -
  note D = wf_fxD [OF wf]
  have lt: "i < FUTEX_BUCKETS" using bucket_in i by simp
  note wq = D(2) [OF lt]
  have dist: "distinct (L i)" by (rule wf_wq_set(1) [OF wq])
  have outside: "n \<notin> set (L j)" if "j < FUTEX_BUCKETS" "j \<noteq> i" for j
    using D(3) [OF that(1), of n] that(2) i by blast
  show ?thesis
  proof (cases "n \<in> set (L i)")
    case False
    with outside have out: "n \<notin> set (L j)" if "j < FUTEX_BUCKETS" for j using that by blast
    with drop_fx_outside [OF wf] i False show ?thesis by (simp add: remove1_idem)
  next
    case True
    then obtain ys zs where L: "L i = ys @ n # zs" by (meson split_list)
    with dist have rm: "remove1 n (L i) = ys @ zs" by (simp add: remove1_append)
    obtain h q where r: "WaitQueue_remove n (fx_heap s, fx_buckets s ! i) = (h, q)"
      "wf_wq (h, q) (ys @ zs)" "leaves (set (ys @ n # zs)) n False (fx_heap s) h"
      using remove_wf [of "fx_heap s" "fx_buckets s ! i" ys n zs] wq L by auto
    let ?s = "s\<lparr>fx_heap := h, fx_buckets := (fx_buckets s)[i := q], fx_live := fx_live s - {n}\<rparr>"
    have "wf_fx vtp ?s (L(i := ys @ zs))"
    proof (rule wf_fx_bucket [OF wf lt r(2), where A = "set (L i)"])
      show "h x = fx_heap s x" if "x \<notin> set (L i)" for x
        using r(3) that unfolding leaves_def L by blast
      show "x \<notin> set (L i)" if "j < FUTEX_BUCKETS" "j \<noteq> i" "x \<in> set (L j)" for j x
        using wf_fx_disjoint [OF wf that(1) lt that(3)] that(2) by blast
      show "fx_futures ?s x = fx_futures s x \<and> (x \<in> fx_live s \<longrightarrow> x \<in> fx_live ?s)"
        if "x \<notin> set (L i)" for x using that True by auto
      show "x \<in> fx_live ?s \<and> ff_registered (fx_futures ?s x)
          \<and> bucket_for vtp (ff_addr (fx_futures ?s x)) = i \<and> wn_priority (h x) = 0"
        if "x \<in> set (ys @ zs)" for x
      proof -
        have "x \<noteq> n" "x \<in> set (L i)" using that dist L by auto
        with D(3) [OF lt this(2)] r(3) show ?thesis by (simp add: leaves_def)
      qed
      show "x \<in> set (ys @ zs)" if "x \<in> set (L i)" "wn_linked (h x)" for x
        using that r(3) L by (auto simp: leaves_def)
    qed simp_all
    moreover have "FutexWait_drop vtp n s = Some ?s"
      unfolding FutexWait_drop_def Let_def i [symmetric] using r(1) lt D(1) D(3) [OF lt True] by simp
    ultimately show ?thesis using rm by auto
  qed
qed

lemma wait_fx:
  assumes wf: "wf_fx vtp s L" and dead: "n \<notin> fx_live s"
  shows "wf_fx vtp (FutexTable_wait n address e t s) L"
proof (rule wf_fxI)
  note D = wf_fxD [OF wf]
  have out: "n \<notin> set (L j)" if "j < FUTEX_BUCKETS" for j using D(3) [OF that] dead by blast
  fix j assume j: "j < FUTEX_BUCKETS"
  show "wf_wq (fx_heap (FutexTable_wait n address e t s), fx_buckets (FutexTable_wait n address e t s) ! j) (L j)"
  proof -
    have "wf_wq ((fx_heap s)(n := WaitNode_new), fx_buckets s ! j) (L j)"
      by (rule wf_wq_cong [OF D(2) [OF j]]) (use out [OF j] in auto)
    then show ?thesis by (simp add: FutexTable_wait_def)
  qed
  fix m assume "m \<in> set (L j)"
  with out [OF j] D(3) [OF j, of m] show "m \<in> fx_live (FutexTable_wait n address e t s)
      \<and> ff_registered (fx_futures (FutexTable_wait n address e t s) m)
      \<and> bucket_for vtp (ff_addr (fx_futures (FutexTable_wait n address e t s) m)) = j
      \<and> wn_priority (fx_heap (FutexTable_wait n address e t s) m) = 0"
    by (cases "m = n") (auto simp: FutexTable_wait_def)
next
  fix m assume "wn_linked (fx_heap (FutexTable_wait n address e t s) m)"
  with wf_fxD(4) [OF wf, of m] show
    "m \<in> set (L (bucket_for vtp (ff_addr (fx_futures (FutexTable_wait n address e t s) m))))"
    by (cases "m = n") (auto simp: FutexTable_wait_def WaitNode_new_def)
qed (use wf_fxD(1) [OF wf] in \<open>simp add: FutexTable_wait_def\<close>)

section \<open>Waiting and waking\<close>

text \<open>
  What the tasks may do, in any order: create a future, poll one, drop one, wake. An event that
  the ownership of futures rules out (using one that does not exist) has no effect.
\<close>

datatype 'w fx_event = Wait addr usize u32 "nat option" | Poll addr 'w | Cancel addr | WakeUp usize nat

datatype 'w fx_res = NoResult | Polled "futex_result option" | WokeUp nat "'w waker_event list"

definition fx_step ::
  "(usize \<Rightarrow> usize) \<Rightarrow> 'w fx_event \<Rightarrow> 'w futex_sys \<Rightarrow> ('w fx_res \<times> 'w futex_sys) option" where
  "fx_step vtp e s = (case e of
     Wait n a v t \<Rightarrow> Some (NoResult, if n \<in> fx_live s then s else FutexTable_wait n a v t s)
   | Poll n w \<Rightarrow> (if n \<in> fx_live s then map_option (map_prod Polled id) (FutexWait_poll vtp n w s)
       else Some (NoResult, s))
   | Cancel n \<Rightarrow> (if n \<in> fx_live s then map_option (Pair NoResult) (FutexWait_drop vtp n s)
       else Some (NoResult, s))
   | WakeUp a k \<Rightarrow> map_option (\<lambda>((n, es), s'). (WokeUp n es, s')) (FutexTable_wake vtp a k s))"

definition fx_init :: "'w futex_sys" where
  "fx_init = \<lparr>fx_heap = (\<lambda>_. WaitNode_new), fx_buckets = FutexTable_new,
     fx_futures = (\<lambda>_. \<lparr>ff_addr = 0, ff_expected = 0, ff_timeout = None, ff_registered = False\<rparr>),
     fx_live = {}\<rparr>"

lemma wf_fx_init: "wf_fx vtp fx_init (\<lambda>_. [])"
  by (rule wf_fxI) (simp_all add: fx_init_def FutexTable_new_def WaitQueue_new_def WaitNode_new_def
      wf_wq_def)

lemma fx_step_wf:
  assumes wf: "wf_fx vtp s L"
  shows "\<exists>r s' L'. fx_step vtp e s = Some (r, s') \<and> wf_fx vtp s' L'"
proof (cases e)
  case (Wait n a v t)
  with wf wait_fx [OF wf, of n a v t] show ?thesis by (cases "n \<in> fx_live s") (auto simp: fx_step_def)
next
  case (Poll n w)
  show ?thesis
  proof (cases "n \<in> fx_live s \<and> \<not> ff_registered (fx_futures s n)")
    case True
    with Poll poll_fx_park [where n = n and w = w, OF wf _ _ refl] show ?thesis by (fastforce simp: fx_step_def)
  next
    case False
    with Poll poll_fx_woken(1) [OF wf, of n w] poll_fx_woken(2) [OF wf, of n] wf show ?thesis
      by (cases "n \<in> fx_live s"; cases "wn_linked (fx_heap s n)") (auto simp: fx_step_def)
  qed
next
  case (Cancel n)
  with drop_fx [where n = n, OF wf refl] wf show ?thesis
    by (cases "n \<in> fx_live s") (auto simp: fx_step_def)
next
  case (WakeUp a k)
  with wake_fx [where address = a and count = k, OF wf refl] show ?thesis by (auto simp: fx_step_def)
qed

text \<open>
  C14: Whatever tasks create, poll, cancel and wake in whatever order, the table never panics, and
  every bucket remains a well-formed queue of exactly the existing, registered and not yet woken
  futures whose address hashes to it.
\<close>

theorem futex_table_invariant:
  fixes es :: "'w fx_event list"
  shows "\<exists>rs s L. run_ops (fx_step vtp) es fx_init = Some (rs, s) \<and> wf_fx vtp s L"
  using run_ops_invariant [where I = "\<lambda>s. \<exists>L. wf_fx vtp s L" and step = "fx_step vtp" and s = fx_init]
    wf_fx_init fx_step_wf by blast

text \<open>
  \<open>wake\<close> wakes the first \<open>count\<close> futures of the bucket, in the order they came, returns how
  many, and each of them reports \<open>Woken\<close> when polled. It does not look at their addresses: a
  future that waits for another word of the same bucket is woken and counted in place of one
  that waits for this word.
\<close>

theorem futex_wake_takes_bucket:
  assumes "wf_fx vtp s L" "bucket_for vtp address = i"
  shows "\<exists>s'. FutexTable_wake vtp address count s = Some
      ((min count (length (L i)), map (\<lambda>n. Wake (waker_of (fx_heap s) n)) (take count (L i))), s')
    \<and> wf_fx vtp s' (L(i := drop count (L i)))
    \<and> (\<forall>n \<in> set (take count (L i)). \<forall>w.
        \<exists>s''. FutexWait_poll vtp n w s' = Some (Some Woken, s''))"
proof -
  have i: "i = bucket_for vtp address" "i < FUTEX_BUCKETS" using assms(2) bucket_in by auto
  from wake_fx [OF assms(1) i(1), of count] obtain s' where s': "FutexTable_wake vtp address count s = Some
      ((min count (length (L i)), map (\<lambda>n. Wake (waker_of (fx_heap s) n)) (take count (L i))), s')"
    "wf_fx vtp s' (L(i := drop count (L i)))" "fx_futures s' = fx_futures s"
    "\<forall>n. wn_linked (fx_heap s' n) = (wn_linked (fx_heap s n) \<and> n \<notin> set (take count (L i)))"
    by blast
  have "\<exists>s''. FutexWait_poll vtp n w s' = Some (Some Woken, s'')" if n: "n \<in> set (take count (L i))" for n w
  proof -
    have "ff_registered (fx_futures s' n)"
      using wf_fxD(3) [OF assms(1) i(2), of n] n s'(3) by (auto dest: in_set_takeD)
    from poll_fx_woken(1) [OF s'(2) this] s'(4) n show ?thesis by auto
  qed
  with s'(1,2) show ?thesis by blast
qed

text \<open>
  A new wait always parks at its first poll: neither the word in memory nor \<open>expected\<close> is
  looked at, so a wake that comes between the caller's own check and the poll is lost, and no
  poll ever returns \<open>WouldBlock\<close> or \<open>TimedOut\<close>.
\<close>

theorem futex_wait_always_parks:
  assumes "wf_fx vtp s L" "n \<notin> fx_live s"
  shows "\<exists>s'. FutexWait_poll vtp n w (FutexTable_wait n address expected timeout s) = Some (None, s')
    \<and> (\<exists>L'. wf_fx vtp s' L' \<and> n \<in> set (L' (bucket_for vtp address)))"
proof -
  let ?s = "FutexTable_wait n address expected timeout s"
  have "wf_fx vtp ?s L" by (rule wait_fx [OF assms])
  from poll_fx_park [OF this, of n "bucket_for vtp address" w] show ?thesis
    by (fastforce simp: FutexTable_wait_def)
qed

lemma poll_results: "FutexWait_poll vtp n w s = Some (r, s') \<Longrightarrow> r = None \<or> r = Some Woken"
  by (auto simp: FutexWait_poll_def Let_def bind_eq_Some_conv split: if_splits)

theorem futex_wake_takes_bucket_witness:
  "\<exists>s'. FutexTable_wake id 256 1 (fx_init :: nat futex_sys) = Some ((0, []), s')"
  using futex_wake_takes_bucket [OF wf_fx_init refl, of id 256 1] by auto

theorem futex_wait_always_parks_witness:
  "\<exists>s'. FutexWait_poll id 3 (7 :: nat) (FutexTable_wait 3 4096 1 None fx_init) = Some (None, s')"
  using futex_wait_always_parks [OF wf_fx_init, of 3 id 7 4096 1 None] by (auto simp: fx_init_def)

end
