(* ===== verification/Tcb.thy ===== *)
theory Tcb
  imports TaskId TaskState WaitQueue
begin

text \<open>
  The task control block, \<open>src/task/task_control_block.rs\<close>: identity, state, priorities, quantum,
  affinity and the links of the queues it can be in. The async body is of the opaque type \<open>'f\<close>,
  wakers of the opaque type \<open>'w\<close>.
\<close>

definition KERNEL_STACK_SIZE :: nat where "KERNEL_STACK_SIZE = 8192"

text \<open>The opaque register save area.\<close>

definition CpuContext_new :: "u8 list" where
  "CpuContext_new = replicate 512 0"

record ('f, 'w) tcb =
  tc_id :: task_id
  tc_state :: u32
  tc_effective_priority :: i32
  tc_base_priority :: i32
  tc_quantum_remaining :: i32
  tc_affinity :: u64
  tc_future :: 'f
  tc_waker :: "'w option"
  tc_wait_node :: "'w wait_node"
  tc_saved_context :: "u8 list"
  tc_kernel_stack :: ptr
  tc_current_core :: u32
  tc_decay_counter :: u32
  tc_user_tid :: u64
  tc_run_queue_next :: ptr

definition TCB_new :: "task_id \<Rightarrow> 'f \<Rightarrow> ('f, 'w) tcb" where
  "TCB_new i future = \<lparr>
     tc_id = i,
     tc_state = AtomicTaskState_new Created,
     tc_effective_priority = 0,
     tc_base_priority = 0,
     tc_quantum_remaining = 0,
     tc_affinity = - 1,
     tc_future = future,
     tc_waker = None,
     tc_wait_node = WaitNode_new,
     tc_saved_context = CpuContext_new,
     tc_kernel_stack = None,
     tc_current_core = - 1,
     tc_decay_counter = 0,
     tc_user_tid = 0,
     tc_run_queue_next = None\<rparr>"

definition TCB_set_waker :: "'w \<Rightarrow> ('f, 'w) tcb \<Rightarrow> ('f, 'w) tcb" where
  "TCB_set_waker w t = t\<lparr>tc_waker := Some w\<rparr>"

text \<open>The compare-exchange loop; with nobody else around it does not come round again.\<close>

partial_function (option) TCB_wake :: "('f, 'w) tcb \<Rightarrow> ('f, 'w) tcb option" where
  "TCB_wake t = do {
     current \<leftarrow> AtomicTaskState_get (tc_state t);
     case current of
       Blocked \<Rightarrow> do {
         (r, cell) \<leftarrow> AtomicTaskState_transition Blocked Ready (tc_state t);
         case r of Inr _ \<Rightarrow> Some (t\<lparr>tc_state := cell\<rparr>) | Inl _ \<Rightarrow> TCB_wake t }
     | Created \<Rightarrow> do {
         (r, cell) \<leftarrow> AtomicTaskState_transition Created Ready (tc_state t);
         case r of Inr _ \<Rightarrow> Some (t\<lparr>tc_state := cell\<rparr>) | Inl _ \<Rightarrow> TCB_wake t }
     | _ \<Rightarrow> Some t }"

definition TCB_set_priority :: "i32 \<Rightarrow> ('f, 'w) tcb \<Rightarrow> ('f, 'w) tcb" where
  "TCB_set_priority priority t = (let
     t = t\<lparr>tc_base_priority := priority\<rparr>;
     effective = tc_effective_priority t in
     if effective <=s priority \<or> effective = tc_base_priority t
     then t\<lparr>tc_effective_priority := priority\<rparr> else t)"

text \<open>\<open>spurious n\<close> says whether the weak compare-exchange of turn \<open>n\<close> fails for no reason.\<close>

partial_function (option) TCB_boost_priority ::
  "(nat \<Rightarrow> bool) \<Rightarrow> nat \<Rightarrow> i32 \<Rightarrow> ('f, 'w) tcb \<Rightarrow> ('f, 'w) tcb option" where
  "TCB_boost_priority spurious n boost_to t =
     (if boost_to <=s tc_effective_priority t then Some t
      else if \<not> spurious n then Some (t\<lparr>tc_effective_priority := boost_to\<rparr>)
      else TCB_boost_priority spurious (Suc n) boost_to t)"

definition TCB_unboost_priority :: "('f, 'w) tcb \<Rightarrow> ('f, 'w) tcb" where
  "TCB_unboost_priority t = t\<lparr>tc_effective_priority := tc_base_priority t\<rparr>"

definition TCB_reset_quantum :: "i32 \<Rightarrow> ('f, 'w) tcb \<Rightarrow> ('f, 'w) tcb" where
  "TCB_reset_quantum quantum t = t\<lparr>tc_quantum_remaining := quantum\<rparr>"

text \<open>\<open>fetch_sub\<close> wraps, the subtraction after it panics on overflow.\<close>

definition TCB_consume_tick :: "('f, 'w) tcb \<Rightarrow> (i32 \<times> ('f, 'w) tcb) option" where
  "TCB_consume_tick t = (let prev = tc_quantum_remaining t in do {
     assert_that (- (2 ^ 31) < sint prev);
     Some (prev - 1, t\<lparr>tc_quantum_remaining := prev - 1\<rparr>) })"

definition TCB_can_run_on :: "u32 \<Rightarrow> ('f, 'w) tcb \<Rightarrow> bool option" where
  "TCB_can_run_on core_id t = do {
     bit1 \<leftarrow> shl_chk 1 (unat core_id);
     Some (tc_affinity t AND bit1 \<noteq> 0) }"

section \<open>Waking\<close>

definition tc_task_state :: "('f, 'w) tcb \<Rightarrow> task_state option" where
  "tc_task_state t = TaskState_from_u32 (tc_state t)"

lemma task_state_cell: "tc_task_state t = Some s \<longleftrightarrow> tc_state t = TaskState_to_u32 s"
  using to_from_u32 by (fastforce simp: tc_task_state_def)

lemma TCB_wake_cell:
  "tc_state t = TaskState_to_u32 s \<Longrightarrow> TCB_wake t = Some (if s = Blocked \<or> s = Created
      then t\<lparr>tc_state := TaskState_to_u32 Ready\<rparr> else t)"
  by (subst TCB_wake.simps) (cases s; simp only: get_to_u32 transition_to_u32; simp)

text \<open>
  \<open>wake\<close> returns, makes a blocked or created task ready and leaves every other task alone; so
  a second wake changes nothing. It never touches the run queue link.
\<close>

theorem TCB_wake_makes_ready:
  assumes "tc_task_state t = Some s"
  shows "TCB_wake t = Some (if s = Blocked \<or> s = Created
      then t\<lparr>tc_state := TaskState_to_u32 Ready\<rparr> else t)
    \<and> (TCB_wake t \<bind> TCB_wake) = TCB_wake t"
proof -
  have cell: "tc_state t = TaskState_to_u32 s" using assms by (simp add: task_state_cell)
  show ?thesis
    using TCB_wake_cell [OF cell] TCB_wake_cell [of "t\<lparr>tc_state := TaskState_to_u32 Ready\<rparr>" Ready] by simp
qed

theorem TCB_wake_makes_ready_witness:
  "TCB_wake (TCB_new (TaskId 5) () :: (unit, unit) tcb) = Some ((TCB_new (TaskId 5) ())\<lparr>tc_state := 1\<rparr>)"
  using TCB_wake_makes_ready [of "TCB_new (TaskId 5) () :: (unit, unit) tcb" Created]
  by (simp add: tc_task_state_def TCB_new_def AtomicTaskState_new_def TaskState_from_u32_def)

section \<open>Priorities\<close>

lemma boost_priority_eq:
  assumes "\<not> spurious m" "n \<le> m"
  shows "TCB_boost_priority spurious n p t = Some
    (if p <=s tc_effective_priority t then t else t\<lparr>tc_effective_priority := p\<rparr>)"
  using assms(2)
proof (induction "m - n" arbitrary: n)
  case 0
  with assms(1) show ?case by (subst TCB_boost_priority.simps) simp
next
  case (Suc k)
  then have "TCB_boost_priority spurious (Suc n) p t = Some
    (if p <=s tc_effective_priority t then t else t\<lparr>tc_effective_priority := p\<rparr>)" by simp
  then show ?case by (subst TCB_boost_priority.simps) simp
qed

text \<open>
  Boosting raises the effective priority to at least the given one and \<open>unboost\<close> restores
  the base priority. But \<open>set_priority\<close> is no assignment: the effective priority becomes the
  maximum of the old one and the new base, so that lowering the priority of a task that has no
  boost leaves it at its old level.
\<close>

theorem priorities_move:
  assumes "\<not> spurious m"
  shows "\<exists>t'. TCB_boost_priority spurious 0 p t = Some t'
      \<and> sint (tc_effective_priority t') = max (sint (tc_effective_priority t)) (sint p)
      \<and> TCB_unboost_priority t' = TCB_unboost_priority t
      \<and> tc_effective_priority (TCB_unboost_priority t) = tc_base_priority t
      \<and> tc_base_priority (TCB_set_priority p t) = p
      \<and> sint (tc_effective_priority (TCB_set_priority p t)) = max (sint (tc_effective_priority t)) (sint p)"
  using boost_priority_eq [of spurious m 0 p t] assms
  by (auto simp: TCB_unboost_priority_def TCB_set_priority_def Let_def word_sle_eq max_def)

theorem priorities_move_witness:
  "\<exists>t'. TCB_boost_priority (\<lambda>n. n < 2) 0 7 (TCB_new (TaskId 5) () :: (unit, unit) tcb) = Some t'
    \<and> sint (tc_effective_priority t') = 7"
  using priorities_move [of "\<lambda>n. n < 2" 2 7 "TCB_new (TaskId 5) () :: (unit, unit) tcb"]
  by (auto simp: TCB_new_def)

lemma can_run_on_bit:
  "TCB_can_run_on c t = (if unat c < 64 then Some (bit (tc_affinity t) (unat c)) else None)"
proof -
  have "w AND push_bit k 1 \<noteq> 0 \<longleftrightarrow> bit w k" if "k < 64" for w :: u64 and k
    using that by (fastforce simp: bit_eq_iff [where ?'a = u64] bit_simps)
  then show ?thesis by (simp add: TCB_can_run_on_def shl_chk_def)
qed

end
