(* ===== verification/RunQueue.thy ===== *)
theory RunQueue
  imports Tcb
begin

text \<open>
  The per-core run queue, \<open>src/task/run_queue.rs\<close>: 32 intrusive queues threaded through the task
  control blocks, and a bitmap of the levels that are not empty. A critical section of a level's
  spinlock is one step. \<open>dequeue\<close> is given in the pieces between which other cores may act.
\<close>

section \<open>Operations\<close>

definition NUM_LEVELS :: nat where "NUM_LEVELS = 32"

record level_queue =
  lq_head :: ptr
  lq_tail :: ptr
  lq_count :: u32

record run_queue =
  rq_levels :: "level_queue list"
  rq_occupancy :: u32
  rq_len :: u32

type_synonym ('f, 'w) task_heap = "addr \<Rightarrow> ('f, 'w) tcb"

definition LevelQueue_new :: level_queue where
  "LevelQueue_new = \<lparr>lq_head = None, lq_tail = None, lq_count = 0\<rparr>"

definition LevelQueue_is_empty :: "level_queue \<Rightarrow> bool" where
  "LevelQueue_is_empty q \<longleftrightarrow> lq_count q = 0"

definition set_next :: "addr \<Rightarrow> ptr \<Rightarrow> ('f, 'w) task_heap \<Rightarrow> ('f, 'w) task_heap" where
  "set_next a p h = h(a := (h a)\<lparr>tc_run_queue_next := p\<rparr>)"

definition LevelQueue_push ::
  "addr \<Rightarrow> ('f, 'w) task_heap \<times> level_queue \<Rightarrow> (('f, 'w) task_heap \<times> level_queue) option" where
  "LevelQueue_push task s = (let (h, q) = s; h = set_next task None h in do {
     (h, q) \<leftarrow> (case lq_tail q of
         None \<Rightarrow> do { assert_that (lq_head q = None);
           Some (h, q\<lparr>lq_head := Some task, lq_tail := Some task\<rparr>) }
       | Some t \<Rightarrow> Some (set_next t (Some task) h, q\<lparr>lq_tail := Some task\<rparr>));
     c \<leftarrow> add_chk (lq_count q) 1;
     Some (h, q\<lparr>lq_count := c\<rparr>) })"

definition LevelQueue_pop ::
  "('f, 'w) task_heap \<times> level_queue \<Rightarrow> (addr option \<times> ('f, 'w) task_heap \<times> level_queue) option" where
  "LevelQueue_pop s = (let (h, q) = s in
     case lq_head q of
       None \<Rightarrow> Some (None, h, q)
     | Some task \<Rightarrow> (let
         nxt = tc_run_queue_next (h task);
         q = q\<lparr>lq_head := nxt\<rparr>;
         q = (if nxt = None then q\<lparr>lq_tail := None\<rparr> else q);
         h = set_next task None h in do {
         c \<leftarrow> sub_chk (lq_count q) 1;
         Some (Some task, h, q\<lparr>lq_count := c\<rparr>) }))"

definition RunQueue_new :: run_queue where
  "RunQueue_new = \<lparr>rq_levels = replicate NUM_LEVELS LevelQueue_new, rq_occupancy = 0, rq_len = 0\<rparr>"

text \<open>\<open>priority.max(-16).min(15)\<close>, plus 16.\<close>

definition priority_to_level :: "i32 \<Rightarrow> nat" where
  "priority_to_level priority = nat (min (max (sint priority) (- 16)) 15 + 16)"

definition RunQueue_enqueue ::
  "addr \<Rightarrow> ('f, 'w) task_heap \<times> run_queue \<Rightarrow> (('f, 'w) task_heap \<times> run_queue) option" where
  "RunQueue_enqueue task s = (let (h, rq) = s;
     level = priority_to_level (tc_effective_priority (h task)) in do {
     q \<leftarrow> idx (rq_levels rq) level;
     (h', q') \<leftarrow> LevelQueue_push task (h, q);
     ls \<leftarrow> upd (rq_levels rq) level q';
     bit1 \<leftarrow> shl_chk 1 level;
     Some (h', rq\<lparr>rq_levels := ls, rq_occupancy := rq_occupancy rq OR bit1, rq_len := rq_len rq + 1\<rparr>) })"

text \<open>Popping from the highest level of the \<open>bitmap\<close> that was loaded.\<close>

definition top_level :: "u32 \<Rightarrow> nat" where
  "top_level bitmap = 31 - leading_zeros bitmap"

definition dequeue_pop ::
  "nat \<Rightarrow> ('f, 'w) task_heap \<times> run_queue \<Rightarrow> (addr option \<times> ('f, 'w) task_heap \<times> run_queue) option" where
  "dequeue_pop level s = (let (h, rq) = s in do {
     q \<leftarrow> idx (rq_levels rq) level;
     (t, h', q') \<leftarrow> LevelQueue_pop (h, q);
     ls \<leftarrow> upd (rq_levels rq) level q';
     Some (t, h', rq\<lparr>rq_levels := ls\<rparr>) })"

text \<open>The look at the level afterwards, under the lock again.\<close>

definition dequeue_check :: "nat \<Rightarrow> run_queue \<Rightarrow> bool option" where
  "dequeue_check level rq = do { q \<leftarrow> idx (rq_levels rq) level; Some (LevelQueue_is_empty q) }"

text \<open>What follows when a task was popped and the level was seen empty, or not.\<close>

definition dequeue_finish :: "nat \<Rightarrow> bool \<Rightarrow> run_queue \<Rightarrow> run_queue option" where
  "dequeue_finish level drained rq = do {
     rq' \<leftarrow> (if drained then do { bit1 \<leftarrow> shl_chk 1 level;
         Some (rq\<lparr>rq_occupancy := rq_occupancy rq AND NOT bit1\<rparr>) } else Some rq);
     Some (rq'\<lparr>rq_len := rq_len rq' - 1\<rparr>) }"

partial_function (option) RunQueue_dequeue ::
  "('f, 'w) task_heap \<times> run_queue \<Rightarrow> (addr option \<times> ('f, 'w) task_heap \<times> run_queue) option" where
  "RunQueue_dequeue s = (let bitmap = rq_occupancy (snd s) in
     if bitmap = 0 then Some (None, s)
     else (let level = top_level bitmap in do {
       (t, h, rq) \<leftarrow> dequeue_pop level s;
       case t of
         Some task \<Rightarrow> do {
           drained \<leftarrow> dequeue_check level rq;
           rq' \<leftarrow> dequeue_finish level drained rq;
           Some (Some task, h, rq') }
       | None \<Rightarrow> RunQueue_dequeue (h, rq) }))"

definition RunQueue_len :: "run_queue \<Rightarrow> u32" where
  "RunQueue_len rq = rq_len rq"

definition RunQueue_is_empty :: "run_queue \<Rightarrow> bool" where
  "RunQueue_is_empty rq \<longleftrightarrow> RunQueue_len rq = 0"

section \<open>Levels\<close>

lemma priority_to_level_less: "priority_to_level p < 32"
  by (simp add: priority_to_level_def)

text \<open>
  Every priority has a level; priorities from -16 to 15 have 32 different ones, in their
  order, and all others saturate. Priority 0 has level 16.
\<close>

theorem priority_levels:
  "priority_to_level p < NUM_LEVELS
    \<and> (sint p \<le> sint q \<longrightarrow> priority_to_level p \<le> priority_to_level q)
    \<and> (- 16 \<le> sint p \<and> sint p \<le> 15 \<longrightarrow> int (priority_to_level p) = sint p + 16)
    \<and> priority_to_level 0 = 16"
  by (auto simp: priority_to_level_def NUM_LEVELS_def)

text \<open>The list of a level: chained from head to tail through the blocks.\<close>

fun chain :: "('f, 'w) task_heap \<Rightarrow> ptr \<Rightarrow> addr list \<Rightarrow> bool" where
  "chain h p [] \<longleftrightarrow> p = None"
| "chain h p (x # xs) \<longleftrightarrow> p = Some x \<and> chain h (tc_run_queue_next (h x)) xs"

lemma set_next_simps [simp]:
  "tc_run_queue_next (set_next a p h x) = (if x = a then p else tc_run_queue_next (h x))"
  "tc_effective_priority (set_next a p h x) = tc_effective_priority (h x)"
  by (simp_all add: set_next_def)

lemma chain_cong: "(\<And>x. x \<in> set xs \<Longrightarrow> tc_run_queue_next (h' x) = tc_run_queue_next (h x)) \<Longrightarrow>
    chain h' p xs = chain h p xs"
  by (induction xs arbitrary: p) auto

lemma chain_set_next [simp]: "x \<notin> set xs \<Longrightarrow> chain (set_next x p h) q xs = chain h q xs"
  by (rule chain_cong) auto

lemma chain_snoc:
  "chain h p (xs @ [t]) \<Longrightarrow> distinct (xs @ [t]) \<Longrightarrow> n \<notin> set (xs @ [t]) \<Longrightarrow>
    tc_run_queue_next (h n) = None \<Longrightarrow> chain (set_next t (Some n) h) p (xs @ [t, n])"
  by (induction xs arbitrary: p) auto

definition wf_level :: "('f, 'w) task_heap \<Rightarrow> level_queue \<Rightarrow> addr list \<Rightarrow> bool" where
  "wf_level h q xs \<longleftrightarrow> chain h (lq_head q) xs \<and> distinct xs \<and> lq_tail q = last_opt xs
     \<and> unat (lq_count q) = length xs"

text \<open>Only the links of the blocks in \<open>A\<close> change.\<close>

definition only_next :: "addr set \<Rightarrow> ('f, 'w) task_heap \<Rightarrow> ('f, 'w) task_heap \<Rightarrow> bool" where
  "only_next A h h' \<longleftrightarrow> (\<forall>x. (x \<notin> A \<longrightarrow> h' x = h x)
     \<and> h' x = (h x)\<lparr>tc_run_queue_next := tc_run_queue_next (h' x)\<rparr>)"

lemma only_next_set: "x \<in> A \<Longrightarrow> only_next A h h' \<Longrightarrow> only_next A h (set_next x p h')"
proof -
  assume x: "x \<in> A" and o: "only_next A h h'"
  then have eq: "h' x = (h x)\<lparr>tc_run_queue_next := tc_run_queue_next (h' x)\<rparr>"
    unfolding only_next_def by blast
  have "(h' x)\<lparr>tc_run_queue_next := p\<rparr> = (h x)\<lparr>tc_run_queue_next := p\<rparr>" by (subst eq) simp
  with x o show ?thesis by (auto simp: only_next_def set_next_def)
qed

lemma only_next_refl: "only_next A h h"
  by (simp add: only_next_def)

lemma only_next_prio: "only_next A h h' \<Longrightarrow> tc_effective_priority (h' x) = tc_effective_priority (h x)"
proof -
  assume "only_next A h h'"
  then have eq: "h' x = (h x)\<lparr>tc_run_queue_next := tc_run_queue_next (h' x)\<rparr>"
    unfolding only_next_def by blast
  show ?thesis by (subst eq) simp
qed

lemma push_wf:
  assumes wf: "wf_level h q xs" and n: "n \<notin> set xs" and room: "length xs < 2 ^ 32 - 1"
  shows "\<exists>h' q'. LevelQueue_push n (h, q) = Some (h', q') \<and> wf_level h' q' (xs @ [n])
    \<and> only_next (insert n (set xs)) h h'"
proof -
  have c: "add_chk (lq_count q) 1 = Some (lq_count q + 1)" "unat (lq_count q + 1) = Suc (length xs)"
    using wf room by (auto simp: wf_level_def add_chk_def unat_word_ariths)
  show ?thesis
  proof (cases xs rule: rev_cases)
    case Nil
    with wf c show ?thesis
      by (auto simp: LevelQueue_push_def wf_level_def Let_def intro!: only_next_set only_next_refl)
  next
    case (snoc ys t)
    have "chain (set_next n None h) (lq_head q) (ys @ [t])"
      using wf n snoc by (auto simp: wf_level_def)
    from chain_snoc [OF this, of n] wf n snoc
    have "chain (set_next t (Some n) (set_next n None h)) (lq_head q) (ys @ [t, n])"
      by (simp add: wf_level_def)
    with wf n c snoc show ?thesis
      by (auto simp: LevelQueue_push_def wf_level_def Let_def last_opt_append last_opt_Cons
          intro!: only_next_set only_next_refl)
  qed
qed

lemma pop_wf:
  assumes wf: "wf_level h q (x # xs)"
  shows "\<exists>h' q'. LevelQueue_pop (h, q) = Some (Some x, h', q') \<and> wf_level h' q' xs
    \<and> only_next {x} h h'"
proof -
  have "1 \<le> lq_count q" using wf by (simp add: wf_level_def word_le_nat_alt)
  then have c: "sub_chk (lq_count q) 1 = Some (lq_count q - 1)" "unat (lq_count q - 1) = length xs"
    using wf by (simp_all add: wf_level_def sub_chk_def unat_sub)
  have ch: "chain (set_next x None h) (tc_run_queue_next (h x)) xs"
    using wf by (simp add: wf_level_def)
  have "tc_run_queue_next (h x) = None \<longleftrightarrow> xs = []"
    using wf by (cases xs) (auto simp: wf_level_def)
  with wf c ch show ?thesis
    by (auto simp: LevelQueue_pop_def wf_level_def Let_def last_opt_Cons
        intro!: only_next_set only_next_refl)
qed

lemma pop_empty: "wf_level h q [] \<Longrightarrow> LevelQueue_pop (h, q) = Some (None, h, q)"
  by (simp add: LevelQueue_pop_def wf_level_def)

section \<open>The run queue as 32 lists\<close>

definition rq_total :: "(nat \<Rightarrow> addr list) \<Rightarrow> nat" where
  "rq_total Q = (\<Sum>i < NUM_LEVELS. length (Q i))"

text \<open>
  The invariant: level \<open>i\<close> holds the tasks \<open>Q i\<close>, a task is in one level only, the bitmap has
  exactly the bits of the levels that hold tasks, and \<open>len\<close> is their number.
\<close>

definition wf_rq :: "('f, 'w) task_heap \<Rightarrow> run_queue \<Rightarrow> (nat \<Rightarrow> addr list) \<Rightarrow> bool" where
  "wf_rq h rq Q \<longleftrightarrow> length (rq_levels rq) = NUM_LEVELS
     \<and> (\<forall>i < NUM_LEVELS. wf_level h (rq_levels rq ! i) (Q i))
     \<and> (\<forall>i < NUM_LEVELS. \<forall>j < NUM_LEVELS. i \<noteq> j \<longrightarrow> set (Q i) \<inter> set (Q j) = {})
     \<and> (\<forall>i < NUM_LEVELS. bit (rq_occupancy rq) i \<longleftrightarrow> Q i \<noteq> [])
     \<and> rq_len rq = of_nat (rq_total Q)"

lemma wf_rqI:
  assumes "length (rq_levels rq) = NUM_LEVELS"
    and "\<And>i. i < NUM_LEVELS \<Longrightarrow> wf_level h (rq_levels rq ! i) (Q i)"
    and "\<And>i j x. i < NUM_LEVELS \<Longrightarrow> j < NUM_LEVELS \<Longrightarrow> x \<in> set (Q i) \<Longrightarrow> x \<in> set (Q j) \<Longrightarrow> i = j"
    and "\<And>i. i < NUM_LEVELS \<Longrightarrow> bit (rq_occupancy rq) i \<longleftrightarrow> Q i \<noteq> []"
    and "rq_len rq = of_nat (rq_total Q)"
  shows "wf_rq h rq Q"
  using assms unfolding wf_rq_def by blast

lemma wf_rqD:
  assumes "wf_rq h rq Q"
  shows "length (rq_levels rq) = NUM_LEVELS"
    and "i < NUM_LEVELS \<Longrightarrow> wf_level h (rq_levels rq ! i) (Q i)"
    and "i < NUM_LEVELS \<Longrightarrow> j < NUM_LEVELS \<Longrightarrow> x \<in> set (Q i) \<Longrightarrow> x \<in> set (Q j) \<Longrightarrow> i = j"
    and "i < NUM_LEVELS \<Longrightarrow> bit (rq_occupancy rq) i \<longleftrightarrow> Q i \<noteq> []"
    and "rq_len rq = of_nat (rq_total Q)"
  using assms unfolding wf_rq_def by blast+

lemma wf_level_cong:
  "wf_level h q xs \<Longrightarrow> (\<And>x. x \<in> set xs \<Longrightarrow> h' x = h x) \<Longrightarrow> wf_level h' q xs"
  using chain_cong [of xs h' h "lq_head q"] by (simp add: wf_level_def)

lemma rq_total_update:
  assumes "l < NUM_LEVELS"
  shows "rq_total (Q(l := xs)) + length (Q l) = rq_total Q + length xs"
proof -
  have eq: "(\<Sum>i \<in> {..<NUM_LEVELS} - {l}. length ((Q(l := xs)) i)) = (\<Sum>i \<in> {..<NUM_LEVELS} - {l}. length (Q i))"
    by (rule sum.cong) auto
  show ?thesis
    using assms sum.remove [of "{..<NUM_LEVELS}" l "\<lambda>i. length (Q i)"]
      sum.remove [of "{..<NUM_LEVELS}" l "\<lambda>i. length ((Q(l := xs)) i)"] eq
    by (simp add: rq_total_def)
qed

lemma rq_total_level: "l < NUM_LEVELS \<Longrightarrow> length (Q l) \<le> rq_total Q"
  using rq_total_update [of l Q "[]"] by simp

text \<open>Replacing one level: the others are unaffected if only its blocks change.\<close>

lemma wf_rq_level:
  assumes wf: "wf_rq h rq Q" and l: "l < NUM_LEVELS"
    and new: "wf_level h' q xs" and only: "only_next A h h'"
    and A: "\<And>i x. i < NUM_LEVELS \<Longrightarrow> i \<noteq> l \<Longrightarrow> x \<in> set (Q i) \<Longrightarrow> x \<notin> A \<and> x \<notin> set xs"
    and rq': "rq_levels rq' = (rq_levels rq)[l := q]"
    and occ: "\<And>i. i < NUM_LEVELS \<Longrightarrow> bit (rq_occupancy rq') i \<longleftrightarrow> (if i = l then xs \<noteq> [] else bit (rq_occupancy rq) i)"
    and len: "rq_len rq' = of_nat (rq_total (Q(l := xs)))"
  shows "wf_rq h' rq' (Q(l := xs))"
proof (rule wf_rqI)
  note D = wf_rqD [OF wf]
  show "length (rq_levels rq') = NUM_LEVELS" using D(1) rq' by simp
  show "rq_len rq' = of_nat (rq_total (Q(l := xs)))" by (rule len)
  fix i assume i: "i < NUM_LEVELS"
  show "wf_level h' (rq_levels rq' ! i) ((Q(l := xs)) i)"
  proof (cases "i = l")
    case True
    with new rq' D(1) l show ?thesis by simp
  next
    case False
    have "wf_level h' (rq_levels rq ! i) (Q i)"
    proof (rule wf_level_cong [OF D(2) [OF i]])
      fix x assume "x \<in> set (Q i)"
      with A [OF i False] only show "h' x = h x" unfolding only_next_def by blast
    qed
    with False rq' show ?thesis by simp
  qed
  show "bit (rq_occupancy rq') i \<longleftrightarrow> (Q(l := xs)) i \<noteq> []"
    using occ [OF i] D(4) [OF i] by simp
  fix j x assume "j < NUM_LEVELS" "x \<in> set ((Q(l := xs)) i)" "x \<in> set ((Q(l := xs)) j)"
  with A [OF i] A [of j] D(3) [OF i, of j x] show "i = j" by (auto split: if_splits)
qed

section \<open>Enqueueing and dequeueing\<close>

text \<open>The first task of the highest level that holds one, and its level.\<close>

definition rq_top :: "(nat \<Rightarrow> addr list) \<Rightarrow> nat \<Rightarrow> bool" where
  "rq_top Q l \<longleftrightarrow> l < NUM_LEVELS \<and> Q l \<noteq> [] \<and> (\<forall>i < NUM_LEVELS. l < i \<longrightarrow> Q i = [])"

lemma rq_enqueue_wf:
  assumes wf: "wf_rq h rq Q" and n: "\<And>i. i < NUM_LEVELS \<Longrightarrow> n \<notin> set (Q i)"
    and room: "rq_total Q < 2 ^ 32 - 1" and l: "l = priority_to_level (tc_effective_priority (h n))"
  shows "\<exists>h' rq'. RunQueue_enqueue n (h, rq) = Some (h', rq') \<and> wf_rq h' rq' (Q(l := Q l @ [n]))
    \<and> only_next (insert n (set (Q l))) h h'"
proof -
  note D = wf_rqD [OF wf]
  have lt: "l < NUM_LEVELS" using priority_to_level_less l by (simp add: NUM_LEVELS_def)
  have small: "length (Q l) < 2 ^ 32 - 1" using rq_total_level [OF lt, of Q] room by simp
  obtain h' q where p: "LevelQueue_push n (h, rq_levels rq ! l) = Some (h', q)"
    "wf_level h' q (Q l @ [n])" "only_next (insert n (set (Q l))) h h'"
    using push_wf [OF D(2) [OF lt] n [OF lt] small] by blast
  let ?rq = "rq\<lparr>rq_levels := (rq_levels rq)[l := q],
    rq_occupancy := rq_occupancy rq OR push_bit l 1, rq_len := rq_len rq + 1\<rparr>"
  have "RunQueue_enqueue n (h, rq) = Some (h', ?rq)"
    unfolding RunQueue_enqueue_def Let_def prod.case l [symmetric]
    using p(1) lt D(1) by (simp add: shl_chk_def NUM_LEVELS_def)
  moreover have "wf_rq h' ?rq (Q(l := Q l @ [n]))"
  proof (rule wf_rq_level [OF wf lt p(2,3)])
    fix i x assume i: "i < NUM_LEVELS" "i \<noteq> l" "x \<in> set (Q i)"
    with n [OF i(1)] D(3) [OF i(1) lt i(3)] show "x \<notin> insert n (set (Q l)) \<and> x \<notin> set (Q l @ [n])"
      by auto
  next
    fix i assume "i < NUM_LEVELS"
    then show "bit (rq_occupancy ?rq) i \<longleftrightarrow> (if i = l then Q l @ [n] \<noteq> [] else bit (rq_occupancy rq) i)"
      using lt by (auto simp: bit_simps NUM_LEVELS_def)
  next
    show "rq_len ?rq = of_nat (rq_total (Q(l := Q l @ [n])))"
      using rq_total_update [OF lt, of Q "Q l @ [n]"] D(5) by simp
  qed simp
  ultimately show ?thesis using p(3) by blast
qed

lemma top_level_eq:
  assumes wf: "wf_rq h rq Q" and ne: "rq_occupancy rq \<noteq> 0"
  shows "rq_top Q (top_level (rq_occupancy rq))"
proof -
  note D = wf_rqD [OF wf]
  obtain m where m: "bit (rq_occupancy rq) m" "\<And>i. m < i \<Longrightarrow> \<not> bit (rq_occupancy rq) i" "m < 32"
    using highest_bit [OF ne] by auto
  have "top_level (rq_occupancy rq) = m"
    unfolding top_level_def using leading_zeros_highest [of "rq_occupancy rq" m] m by simp
  with m D(4) show ?thesis by (auto simp: rq_top_def NUM_LEVELS_def)
qed

lemma occupancy_zero:
  assumes wf: "wf_rq h rq Q"
  shows "rq_occupancy rq = 0 \<longleftrightarrow> (\<forall>i < NUM_LEVELS. Q i = [])"
proof -
  have "rq_occupancy rq = 0 \<longleftrightarrow> (\<forall>i < 32. \<not> bit (rq_occupancy rq) i)"
    by (auto simp: bit_eq_iff dest: bit_imp_le_length)
  with wf_rqD(4) [OF wf] show ?thesis by (simp add: NUM_LEVELS_def)
qed

lemma rq_top_unique: "rq_top Q l \<Longrightarrow> rq_top Q m \<Longrightarrow> l = m"
  unfolding rq_top_def by (metis linorder_neqE_nat)

lemma dequeue_wf:
  assumes wf: "wf_rq h rq Q" and top: "rq_top Q l" and Q: "Q l = x # xs"
  shows "\<exists>h' rq'. RunQueue_dequeue (h, rq) = Some (Some x, h', rq') \<and> wf_rq h' rq' (Q(l := xs))
    \<and> only_next {x} h h'"
proof -
  note D = wf_rqD [OF wf]
  have lt: "l < NUM_LEVELS" using top by (simp add: rq_top_def)
  have ne: "rq_occupancy rq \<noteq> 0" using occupancy_zero [OF wf] lt Q by auto
  have lev: "top_level (rq_occupancy rq) = l" using rq_top_unique [OF top_level_eq [OF wf ne] top] .
  obtain h' q where p: "LevelQueue_pop (h, rq_levels rq ! l) = Some (Some x, h', q)"
    "wf_level h' q xs" "only_next {x} h h'"
    using pop_wf [of h "rq_levels rq ! l" x xs] D(2) [OF lt] Q by auto
  have mt: "LevelQueue_is_empty q \<longleftrightarrow> xs = []"
    using p(2) by (auto simp: LevelQueue_is_empty_def wf_level_def unat_eq_0)
  let ?rq = "rq\<lparr>rq_levels := (rq_levels rq)[l := q],
    rq_occupancy := (if xs = [] then rq_occupancy rq AND NOT (push_bit l 1) else rq_occupancy rq),
    rq_len := rq_len rq - 1\<rparr>"
  have "RunQueue_dequeue (h, rq) = Some (Some x, h', ?rq)"
    using ne lev p(1) lt D(1) mt
    by (subst RunQueue_dequeue.simps)
      (simp add: Let_def dequeue_pop_def dequeue_check_def dequeue_finish_def shl_chk_def NUM_LEVELS_def)
  moreover have "wf_rq h' ?rq (Q(l := xs))"
  proof (rule wf_rq_level [OF wf lt p(2,3)])
    fix i y assume i: "i < NUM_LEVELS" "i \<noteq> l" "y \<in> set (Q i)"
    with D(3) [OF i(1) lt i(3)] Q show "y \<notin> {x} \<and> y \<notin> set xs" by auto
  next
    fix i assume "i < NUM_LEVELS"
    then show "bit (rq_occupancy ?rq) i \<longleftrightarrow> (if i = l then xs \<noteq> [] else bit (rq_occupancy rq) i)"
      using lt D(4) [OF lt] Q by (auto simp: bit_simps NUM_LEVELS_def)
  next
    show "rq_len ?rq = of_nat (rq_total (Q(l := xs)))"
    proof -
      have "rq_total Q = Suc (rq_total (Q(l := xs)))" using rq_total_update [OF lt, of Q xs] Q by simp
      with D(5) show ?thesis by simp
    qed
  qed simp
  ultimately show ?thesis using p(3) by blast
qed

section \<open>What the run queue promises\<close>

text \<open>
  The contract, on the 32 lists: a task joins the end of the level of its priority, the first
  task of the highest level that holds one leaves. A task is enqueued once at a time, and there
  are fewer than \<open>2 ^ 32 - 1\<close> tasks.
\<close>

datatype rq_op = Enqueue addr | Dequeue

definition spec_top :: "(nat \<Rightarrow> addr list) \<Rightarrow> nat option" where
  "spec_top Q = find (\<lambda>i. Q i \<noteq> []) (rev [0..<NUM_LEVELS])"

definition rq_spec ::
  "(addr \<Rightarrow> nat) \<Rightarrow> rq_op \<Rightarrow> (nat \<Rightarrow> addr list) \<Rightarrow> (addr option \<times> (nat \<Rightarrow> addr list)) option" where
  "rq_spec level_of op Q = (case op of
     Enqueue n \<Rightarrow>
       (if list_ex (\<lambda>i. n \<in> set (Q i)) [0..<NUM_LEVELS] \<or> 2 ^ 32 - 1 \<le> rq_total Q then None
        else Some (None, Q(level_of n := Q (level_of n) @ [n])))
   | Dequeue \<Rightarrow> (case spec_top Q of
       None \<Rightarrow> Some (None, Q)
     | Some l \<Rightarrow> Some (Some (hd (Q l)), Q(l := tl (Q l)))))"

definition rq_step ::
  "rq_op \<Rightarrow> ('f, 'w) task_heap \<times> run_queue \<Rightarrow> (addr option \<times> ('f, 'w) task_heap \<times> run_queue) option" where
  "rq_step op s = (case op of
     Enqueue n \<Rightarrow> map_option (Pair None) (RunQueue_enqueue n s)
   | Dequeue \<Rightarrow> RunQueue_dequeue s)"

lemma find_rev_upt:
  "find P (rev [0..<n]) = Some l \<longleftrightarrow> l < n \<and> P l \<and> (\<forall>i < n. l < i \<longrightarrow> \<not> P i)"
  "find P (rev [0..<n]) = None \<longleftrightarrow> (\<forall>i < n. \<not> P i)"
  by (induction n) (auto simp: less_Suc_eq)

lemma spec_top_iff: "spec_top Q = Some l \<longleftrightarrow> rq_top Q l" "spec_top Q = None \<longleftrightarrow> (\<forall>i < NUM_LEVELS. Q i = [])"
  unfolding spec_top_def find_rev_upt rq_top_def by auto

lemma rq_step_refines:
  assumes wf: "wf_rq h rq Q" and spec: "rq_spec (\<lambda>n. priority_to_level (tc_effective_priority (h n))) op Q = Some (r, Q')"
  shows "\<exists>h' rq'. rq_step op (h, rq) = Some (r, h', rq') \<and> wf_rq h' rq' Q'
    \<and> (\<forall>x. tc_effective_priority (h' x) = tc_effective_priority (h x))"
proof (cases op)
  case (Enqueue n)
  let ?l = "priority_to_level (tc_effective_priority (h n))"
  from spec Enqueue have r: "r = None" "Q' = Q(?l := Q ?l @ [n])" "rq_total Q < 2 ^ 32 - 1"
    and n: "\<And>i. i < NUM_LEVELS \<Longrightarrow> n \<notin> set (Q i)"
    by (auto simp: rq_spec_def list_ex_iff split: if_splits)
  from rq_enqueue_wf [OF wf n r(3) refl] r Enqueue show ?thesis
    by (auto simp: rq_step_def dest: only_next_prio)
next
  case Dequeue
  show ?thesis
  proof (cases "spec_top Q")
    case None
    with occupancy_zero [OF wf] have "rq_occupancy rq = 0" by (simp add: spec_top_iff)
    then have "RunQueue_dequeue (h, rq) = Some (None, h, rq)"
      by (subst RunQueue_dequeue.simps) simp
    with None spec Dequeue wf show ?thesis by (auto simp: rq_spec_def rq_step_def)
  next
    case (Some l)
    then have top: "rq_top Q l" by (simp add: spec_top_iff)
    then obtain x xs where Q: "Q l = x # xs" by (cases "Q l") (auto simp: rq_top_def)
    from dequeue_wf [OF wf top Q] Some spec Dequeue Q show ?thesis
      by (auto simp: rq_spec_def rq_step_def dest: only_next_prio)
  qed
qed

lemma wf_rq_new: "wf_rq h RunQueue_new (\<lambda>_. [])"
  by (rule wf_rqI) (simp_all add: RunQueue_new_def LevelQueue_new_def wf_level_def rq_total_def)

text \<open>
  C15: Over any sequence of enqueues and dequeues that respects the contract, the pointer code
  never panics or retries and returns exactly the tasks of the abstract queue: always the task
  that has waited longest on the highest level that holds one, and nothing only if all 32 are
  empty.
\<close>

theorem run_queue_refines:
  fixes h :: "('f, 'w) task_heap"
  assumes "run_ops (rq_spec (\<lambda>n. priority_to_level (tc_effective_priority (h n)))) ops (\<lambda>_. []) = Some (rs, Q)"
  shows "\<exists>h' rq'. run_ops rq_step ops (h, RunQueue_new) = Some (rs, h', rq') \<and> wf_rq h' rq' Q"
proof -
  let ?spec = "rq_spec (\<lambda>n. priority_to_level (tc_effective_priority (h n)))"
  let ?rel = "\<lambda>(g, rq) Q. wf_rq g rq Q \<and> (\<forall>x. tc_effective_priority (g x) = tc_effective_priority (h x))"
  have step: "\<exists>s'. rq_step op s = Some (r, s') \<and> ?rel s' Q'" if "?rel s Q" "?spec op Q = Some (r, Q')" for op s Q r Q'
  proof -
    obtain g rq where s: "s = (g, rq)" by (cases s)
    with that have "rq_spec (\<lambda>n. priority_to_level (tc_effective_priority (g n))) op Q = Some (r, Q')" by simp
    with rq_step_refines [of g rq Q op r Q'] that(1) s show ?thesis by fastforce
  qed
  have "?rel (h, RunQueue_new) (\<lambda>_. [])" using wf_rq_new by simp
  from run_ops_refines [where rel = ?rel and step = rq_step, OF assms this] step
  have "\<exists>s'. run_ops rq_step ops (h, RunQueue_new) = Some (rs, s') \<and> ?rel s' Q" by blast
  then show ?thesis by auto
qed

text \<open>
  A task can be lost: when another core enqueues it on a level between the moment a dequeue
  has seen that level empty and the moment it clears the level's bit, the task stays queued and
  counted, but the bit of its level is clear and dequeues return nothing.
\<close>

theorem run_queue_loses_task:
  fixes h :: "('f, 'w) task_heap"
  assumes "wf_rq h rq Q" "rq_top Q l" "Q l = [x]" "\<And>i. i < NUM_LEVELS \<Longrightarrow> i \<noteq> l \<Longrightarrow> Q i = []"
    and "priority_to_level (tc_effective_priority (h y)) = l" "x \<noteq> y"
  shows "\<exists>h1 rq1 h2 rq2 rq3. dequeue_pop l (h, rq) = Some (Some x, h1, rq1)
    \<and> dequeue_check l rq1 = Some True
    \<and> RunQueue_enqueue y (h1, rq1) = Some (h2, rq2)
    \<and> dequeue_finish l True rq2 = Some rq3
    \<and> RunQueue_dequeue (h2, rq3) = Some (None, h2, rq3)
    \<and> RunQueue_len rq3 = 1 \<and> wf_level h2 (rq_levels rq3 ! l) [y]"
proof -
  note D = wf_rqD [OF assms(1)]
  have lt: "l < NUM_LEVELS" using assms(2) by (simp add: rq_top_def)
  obtain h1 q where p: "LevelQueue_pop (h, rq_levels rq ! l) = Some (Some x, h1, q)"
    "wf_level h1 q []" "only_next {x} h h1"
    using pop_wf [of h "rq_levels rq ! l" x "[]"] D(2) [OF lt] assms(3) by auto
  let ?rq1 = "rq\<lparr>rq_levels := (rq_levels rq)[l := q]\<rparr>"
  obtain h2 q2 where e: "LevelQueue_push y (h1, q) = Some (h2, q2)" "wf_level h2 q2 [y]"
    using push_wf [OF p(2), of y] by auto
  let ?rq2 = "rq\<lparr>rq_levels := (rq_levels rq)[l := q2],
    rq_occupancy := rq_occupancy rq OR push_bit l 1, rq_len := rq_len rq + 1\<rparr>"
  let ?rq3 = "?rq2\<lparr>rq_occupancy := rq_occupancy ?rq2 AND NOT (push_bit l 1), rq_len := rq_len rq\<rparr>"
  have "rq_total Q = 1"
  proof -
    have "rq_total (Q(l := [])) = 0"
      unfolding rq_total_def by (rule sum.neutral) (use assms(4) in auto)
    with rq_total_update [OF lt, of Q "[]"] assms(3) show ?thesis by simp
  qed
  then have "rq_len rq = 1" using D(5) by simp
  moreover have "rq_occupancy ?rq3 = 0"
  proof (rule bit_word_eqI)
    fix i assume "i < LENGTH(32)"
    then show "bit (rq_occupancy ?rq3) i \<longleftrightarrow> bit (0 :: u32) i"
      using D(4) [of i] assms(4) [of i] by (auto simp: bit_simps NUM_LEVELS_def)
  qed
  then have "RunQueue_dequeue (h2, ?rq3) = Some (None, h2, ?rq3)"
    by (subst RunQueue_dequeue.simps) simp
  moreover have "RunQueue_enqueue y (h1, ?rq1) = Some (h2, ?rq2)"
    using e(1) lt D(1) assms(5) only_next_prio [OF p(3), of y]
    by (simp add: RunQueue_enqueue_def Let_def shl_chk_def NUM_LEVELS_def)
  moreover have "dequeue_pop l (h, rq) = Some (Some x, h1, ?rq1)" "dequeue_check l ?rq1 = Some True"
    "dequeue_finish l True ?rq2 = Some ?rq3"
    using p(1,2) lt D(1)
    by (simp_all add: dequeue_pop_def dequeue_check_def dequeue_finish_def shl_chk_def
        LevelQueue_is_empty_def wf_level_def NUM_LEVELS_def unat_eq_0)
  moreover have "wf_level h2 (rq_levels ?rq3 ! l) [y]" using e(2) lt D(1) by simp
  ultimately show ?thesis
    unfolding RunQueue_len_def by (intro exI [of _ h1] exI [of _ ?rq1] exI [of _ h2] exI [of _ ?rq2]
        exI [of _ ?rq3]) simp
qed

definition demo_tasks :: "(unit, unit) task_heap" where
  "demo_tasks = (\<lambda>_. TCB_new (TaskId 0) ())"

theorem run_queue_refines_witness:
  "\<exists>h' rq'. run_ops rq_step [Enqueue 3, Enqueue 5, Dequeue] (demo_tasks, RunQueue_new)
      = Some ([None, None, Some 3], h', rq')"
proof -
  have l: "priority_to_level 0 = 16" by (simp add: priority_to_level_def)
  have t: "spec_top ((\<lambda>_. [])(16 := [3, 5])) = Some 16"
    unfolding spec_top_iff rq_top_def by (simp add: NUM_LEVELS_def)
  have total: "rq_total (\<lambda>_. []) = 0" "rq_total ((\<lambda>_. [])(16 := [3])) = 1"
    using rq_total_update [of 16 "\<lambda>_. []" "[3]"] by (simp_all add: rq_total_def NUM_LEVELS_def)
  have "run_ops (rq_spec (\<lambda>n. priority_to_level (tc_effective_priority (demo_tasks n))))
      [Enqueue 3, Enqueue 5, Dequeue] (\<lambda>_. []) = Some ([None, None, Some 3], (\<lambda>_. [])(16 := [5]))"
    using l t total by (simp add: rq_spec_def demo_tasks_def TCB_new_def list_ex_iff)
  from run_queue_refines [OF this] show ?thesis by blast
qed

theorem run_queue_loses_task_witness:
  "\<exists>(h :: (unit, unit) task_heap) rq h1 rq1 h2 rq2 rq3. dequeue_pop 16 (h, rq) = Some (Some 3, h1, rq1)
    \<and> RunQueue_enqueue 5 (h1, rq1) = Some (h2, rq2) \<and> dequeue_finish 16 True rq2 = Some rq3
    \<and> RunQueue_dequeue (h2, rq3) = Some (None, h2, rq3) \<and> RunQueue_len rq3 = 1"
proof -
  have l: "16 = priority_to_level (tc_effective_priority (demo_tasks 3))"
    by (simp add: priority_to_level_def demo_tasks_def TCB_new_def)
  have total: "rq_total (\<lambda>_. []) < 2 ^ 32 - 1" by (simp add: rq_total_def)
  obtain h rq where e: "wf_rq h rq ((\<lambda>_. [])(16 := [] @ [3]))"
    "only_next (insert 3 (set [])) demo_tasks h"
    using rq_enqueue_wf [where h = demo_tasks and n = 3, OF wf_rq_new _ total l] by auto
  have "priority_to_level (tc_effective_priority (h 5)) = 16"
    using only_next_prio [OF e(2)] l by (simp add: demo_tasks_def)
  moreover have "rq_top ((\<lambda>_. [])(16 := [] @ [3])) 16" by (simp add: rq_top_def NUM_LEVELS_def)
  ultimately show ?thesis
    using run_queue_loses_task [OF e(1), of 16 3 5] by fastforce
qed

end
