(* ===== verification/Stealer.thy ===== *)
theory Stealer
  imports Interfaces
begin

text \<open>
  The work-stealing deque, \<open>src/task/stealer.rs\<close>: the owner pushes and pops at the bottom, others
  steal at the top. Indices are \<open>isize\<close> and run on; the buffer is circular, a cell that was never
  written is \<open>None\<close>. The operations that race are also given in pieces, one shared access group
  at a time.
\<close>

section \<open>Operations\<close>

definition MIN_CAPACITY :: nat where "MIN_CAPACITY = 64"
definition MAX_STEAL_BATCH :: nat where "MAX_STEAL_BATCH = 128"

record 'a deque_buffer =
  db_data :: "'a option list"
  db_log_cap :: nat
  db_cap :: nat

record 'a deque_inner =
  dq_bottom :: int
  dq_top :: int
  dq_buffer :: "'a deque_buffer"

text \<open>Checked arithmetic of \<open>isize\<close>.\<close>

definition isize_chk :: "int \<Rightarrow> int option" where
  "isize_chk x = (if - (2 ^ 63) \<le> x \<and> x < 2 ^ 63 then Some x else None)"

text \<open>The allocation is assumed to succeed.\<close>

definition DequeBuffer_new :: "nat \<Rightarrow> 'a deque_buffer option" where
  "DequeBuffer_new log_cap = do {
     assert_that (log_cap < 64);
     let cap = 2 ^ log_cap;
     Some \<lparr>db_data = replicate cap None, db_log_cap = log_cap, db_cap = cap\<rparr> }"

text \<open>\<open>i as usize & self.mask()\<close>.\<close>

definition buf_index :: "'a deque_buffer \<Rightarrow> int \<Rightarrow> nat" where
  "buf_index buf i = nat (i mod 2 ^ 64) AND (db_cap buf - 1)"

definition DequeBuffer_get :: "'a deque_buffer \<Rightarrow> int \<Rightarrow> 'a option" where
  "DequeBuffer_get buf i = do { x \<leftarrow> idx (db_data buf) (buf_index buf i); x }"

definition DequeBuffer_put :: "int \<Rightarrow> 'a \<Rightarrow> 'a deque_buffer \<Rightarrow> 'a deque_buffer option" where
  "DequeBuffer_put i val buf = do {
     xs \<leftarrow> upd (db_data buf) (buf_index buf i) (Some val);
     Some (buf\<lparr>db_data := xs\<rparr>) }"

definition deque :: "'a deque_inner option" where
  "deque = do {
     buf \<leftarrow> DequeBuffer_new (trailing_zeros (of_nat MIN_CAPACITY :: usize));
     Some \<lparr>dq_bottom = 0, dq_top = 0, dq_buffer = buf\<rparr> }"

text \<open>\<open>for i in t..b\<close>: copying the elements into the bigger buffer.\<close>

fun copy_loop :: "int list \<Rightarrow> 'a deque_buffer \<Rightarrow> 'a deque_buffer \<Rightarrow> 'a deque_buffer option" where
  "copy_loop [] old_buf new_buf = Some new_buf"
| "copy_loop (i # is) old_buf new_buf = do {
     val \<leftarrow> DequeBuffer_get old_buf i;
     new_buf' \<leftarrow> DequeBuffer_put i val new_buf;
     copy_loop is old_buf new_buf' }"

definition Worker_grow :: "'a deque_buffer \<Rightarrow> int \<Rightarrow> int \<Rightarrow> 'a deque_buffer option" where
  "Worker_grow old_buf t b = do {
     new_buf \<leftarrow> DequeBuffer_new (db_log_cap old_buf + 1);
     copy_loop [t..b - 1] old_buf new_buf }"

definition Worker_push :: "'a \<Rightarrow> 'a deque_inner \<Rightarrow> 'a deque_inner option" where
  "Worker_push val d = do {
     let b = dq_bottom d;
     let t = dq_top d;
     size \<leftarrow> isize_chk (b - t);
     buf \<leftarrow> (if int (db_cap (dq_buffer d)) \<le> size then Worker_grow (dq_buffer d) t b
       else Some (dq_buffer d));
     buf' \<leftarrow> DequeBuffer_put b val buf;
     b' \<leftarrow> isize_chk (b + 1);
     Some (d\<lparr>dq_buffer := buf', dq_bottom := b'\<rparr>) }"

text \<open>
  \<open>pop\<close>: the claim of the last index by moving the bottom, then the look at the top and what
  follows. The inner option is the result.
\<close>

definition pop_claim :: "'a deque_inner \<Rightarrow> (int \<times> 'a deque_inner) option" where
  "pop_claim d = do { b \<leftarrow> isize_chk (dq_bottom d - 1); Some (b, d\<lparr>dq_bottom := b\<rparr>) }"

definition pop_finish :: "int \<Rightarrow> 'a deque_inner \<Rightarrow> ('a option \<times> 'a deque_inner) option" where
  "pop_finish b d = do {
     let t = dq_top d;
     b1 \<leftarrow> isize_chk (b + 1);
     if t \<le> b then do {
       val \<leftarrow> DequeBuffer_get (dq_buffer d) b;
       if t = b then do {
         t1 \<leftarrow> isize_chk (t + 1);
         Some (Some val, d\<lparr>dq_top := t1, dq_bottom := b1\<rparr>) }
       else Some (Some val, d) }
     else Some (None, d\<lparr>dq_bottom := b1\<rparr>) }"

definition Worker_pop :: "'a deque_inner \<Rightarrow> ('a option \<times> 'a deque_inner) option" where
  "Worker_pop d = do { (b, d') \<leftarrow> pop_claim d; pop_finish b d' }"

definition Worker_len :: "'a deque_inner \<Rightarrow> nat option" where
  "Worker_len d = map_option (\<lambda>n. nat (max n 0)) (isize_chk (dq_bottom d - dq_top d))"

text \<open>
  Stealing: reading the element at the top, and the compare-exchange of the top from the value
  \<open>t\<close> that was loaded.
\<close>

definition cas_top :: "int \<Rightarrow> int \<Rightarrow> 'a deque_inner \<Rightarrow> bool \<times> 'a deque_inner" where
  "cas_top t t' d = (if dq_top d = t then (True, d\<lparr>dq_top := t'\<rparr>) else (False, d))"

definition Stealer_steal :: "'a deque_inner \<Rightarrow> ('a option \<times> 'a deque_inner) option" where
  "Stealer_steal d = do {
     let t = dq_top d;
     let b = dq_bottom d;
     if t < b then do {
       val \<leftarrow> DequeBuffer_get (dq_buffer d) t;
       t1 \<leftarrow> isize_chk (t + 1);
       let (ok, d') = cas_top t t1 d;
       Some (if ok then Some val else None, d') }
     else Some (None, d) }"

text \<open>
  \<open>steal_batch\<close> into a slice of \<open>n\<close> elements: what it reads before the compare-exchange (the
  top it saw and the elements), and the whole.
\<close>

fun read_batch :: "'a deque_buffer \<Rightarrow> int \<Rightarrow> nat list \<Rightarrow> 'a list option" where
  "read_batch buf t [] = Some []"
| "read_batch buf t (i # is) = do {
     x \<leftarrow> DequeBuffer_get buf (t + int i);
     xs \<leftarrow> read_batch buf t is;
     Some (x # xs) }"

definition batch_read :: "nat \<Rightarrow> 'a deque_inner \<Rightarrow> (int \<times> 'a list) option" where
  "batch_read n d = do {
     let t = dq_top d;
     let b = dq_bottom d;
     size \<leftarrow> isize_chk (b - t);
     let available = nat (max size 0);
     let to_steal = min (min available n) MAX_STEAL_BATCH;
     xs \<leftarrow> read_batch (dq_buffer d) t [0..<to_steal];
     Some (t, xs) }"

definition batch_cas :: "int \<times> 'a list \<Rightarrow> 'a deque_inner \<Rightarrow> ('a list \<times> 'a deque_inner) option" where
  "batch_cas r d = (let (t, xs) = r in
     if xs = [] then Some ([], d)
     else do {
       t' \<leftarrow> isize_chk (t + int (length xs));
       let (ok, d') = cas_top t t' d;
       Some (if ok then xs else [], d') })"

definition Stealer_steal_batch :: "nat \<Rightarrow> 'a deque_inner \<Rightarrow> ('a list \<times> 'a deque_inner) option" where
  "Stealer_steal_batch n d = do { r \<leftarrow> batch_read n d; batch_cas r d }"

definition Stealer_len :: "'a deque_inner \<Rightarrow> nat option" where
  "Stealer_len d = map_option (\<lambda>n. nat (max n 0)) (isize_chk (dq_bottom d - dq_top d))"

section \<open>The deque as a list\<close>

definition elem_at :: "'a deque_inner \<Rightarrow> int \<Rightarrow> 'a" where
  "elem_at d i = the (DequeBuffer_get (dq_buffer d) i)"

text \<open>The elements from the top, which was pushed first, to the bottom.\<close>

definition dq_list :: "'a deque_inner \<Rightarrow> 'a list" where
  "dq_list d = map (elem_at d) [dq_top d..dq_bottom d - 1]"

definition wf_buf :: "'a deque_buffer \<Rightarrow> bool" where
  "wf_buf buf \<longleftrightarrow> db_log_cap buf < 64 \<and> db_cap buf = 2 ^ db_log_cap buf
     \<and> length (db_data buf) = db_cap buf"

definition wf_dq :: "'a deque_inner \<Rightarrow> bool" where
  "wf_dq d \<longleftrightarrow> wf_buf (dq_buffer d) \<and> 0 \<le> dq_top d \<and> dq_top d \<le> dq_bottom d \<and> dq_bottom d < 2 ^ 63
     \<and> dq_bottom d - dq_top d \<le> int (db_cap (dq_buffer d))
     \<and> (\<forall>i. dq_top d \<le> i \<and> i < dq_bottom d \<longrightarrow> DequeBuffer_get (dq_buffer d) i \<noteq> None)"

lemma wf_dqD:
  assumes "wf_dq d"
  shows "wf_buf (dq_buffer d)" "0 \<le> dq_top d" "dq_top d \<le> dq_bottom d" "dq_bottom d < 2 ^ 63"
    and "dq_bottom d - dq_top d \<le> int (db_cap (dq_buffer d))"
    and "dq_top d \<le> i \<Longrightarrow> i < dq_bottom d \<Longrightarrow> DequeBuffer_get (dq_buffer d) i = Some (elem_at d i)"
  using assms unfolding wf_dq_def elem_at_def by auto

lemma buf_index_mod:
  assumes "wf_buf buf"
  shows "buf_index buf i = nat (i mod int (db_cap buf))"
proof -
  let ?k = "db_log_cap buf"
  have k: "?k \<le> 64" "db_cap buf = 2 ^ ?k" using assms by (auto simp: wf_buf_def)
  have "nat (i mod 2 ^ 64) AND (2 ^ ?k - 1) = take_bit ?k (nat (i mod 2 ^ 64))"
    by (simp add: take_bit_eq_mask mask_eq_exp_minus_1)
  also have "\<dots> = nat (i mod 2 ^ 64 mod 2 ^ ?k)"
    by (simp add: take_bit_eq_mod nat_mod_distrib nat_power_eq)
  also have "i mod 2 ^ 64 mod 2 ^ ?k = i mod (2 ^ ?k)"
    using k(1) by (intro mod_mod_cancel le_imp_power_dvd)
  finally show ?thesis by (simp add: buf_index_def k(2))
qed

lemma buf_index_less: "wf_buf buf \<Longrightarrow> buf_index buf i < length (db_data buf)"
  by (simp add: buf_index_mod) (simp add: wf_buf_def)

text \<open>Indices less than the capacity apart use different cells.\<close>

lemma buf_index_inj:
  assumes "wf_buf buf" "i \<noteq> j" "i - j < int (db_cap buf)" "j - i < int (db_cap buf)"
  shows "buf_index buf i \<noteq> buf_index buf j"
proof
  have c: "0 < int (db_cap buf)" using assms(1) by (simp add: wf_buf_def)
  assume "buf_index buf i = buf_index buf j"
  then have "i mod int (db_cap buf) = j mod int (db_cap buf)"
    using assms(1) c by (simp add: buf_index_mod eq_nat_nat_iff)
  then have "int (db_cap buf) dvd i - j" by (rule mod_eq_dvd_iff [THEN iffD1])
  then have "int (db_cap buf) dvd i - j" "int (db_cap buf) dvd j - i" by (simp_all add: dvd_diff_commute)
  then have "0 < i - j \<Longrightarrow> int (db_cap buf) \<le> i - j" "0 < j - i \<Longrightarrow> int (db_cap buf) \<le> j - i"
    by (auto intro: zdvd_imp_le)
  with assms(2-4) show False by linarith
qed

lemma get_put:
  assumes "wf_buf buf"
  shows "\<exists>buf'. DequeBuffer_put i x buf = Some buf' \<and> wf_buf buf' \<and> db_cap buf' = db_cap buf
    \<and> DequeBuffer_get buf' i = Some x
    \<and> (\<forall>j. i \<noteq> j \<longrightarrow> i - j < int (db_cap buf) \<longrightarrow> j - i < int (db_cap buf) \<longrightarrow>
        DequeBuffer_get buf' j = DequeBuffer_get buf j)"
proof -
  let ?buf = "buf\<lparr>db_data := (db_data buf)[buf_index buf i := Some x]\<rparr>"
  have ix: "buf_index ?buf j = buf_index buf j" for j by (simp add: buf_index_def)
  have "DequeBuffer_get ?buf j = DequeBuffer_get buf j"
    if "i \<noteq> j" "i - j < int (db_cap buf)" "j - i < int (db_cap buf)" for j
    using buf_index_inj [OF assms that] buf_index_less [OF assms]
    by (simp add: DequeBuffer_get_def ix)
  moreover have "DequeBuffer_get ?buf i = Some x"
    using buf_index_less [OF assms] by (simp add: DequeBuffer_get_def ix)
  moreover have "DequeBuffer_put i x buf = Some ?buf"
    using buf_index_less [OF assms] by (simp add: DequeBuffer_put_def)
  moreover have "wf_buf ?buf" using assms by (simp add: wf_buf_def)
  ultimately show ?thesis by auto
qed

section \<open>One operation at a time\<close>

lemma upto_snoc: "a \<le> b \<Longrightarrow> [a..b] = [a..b - 1] @ [b]" for a b :: int
  by (rule upto_rec2)

lemma dq_list_cong:
  assumes "dq_top d' = dq_top d" "dq_bottom d' = dq_bottom d"
    "\<And>i. dq_top d \<le> i \<Longrightarrow> i < dq_bottom d \<Longrightarrow>
      DequeBuffer_get (dq_buffer d') i = DequeBuffer_get (dq_buffer d) i"
  shows "dq_list d' = dq_list d"
  using assms by (simp add: dq_list_def elem_at_def)

lemma dq_list_length: "length (dq_list d) = nat (dq_bottom d - dq_top d)"
  by (simp add: dq_list_def)

lemma DequeBuffer_new_wf:
  "k < 64 \<Longrightarrow> \<exists>buf. DequeBuffer_new k = Some buf \<and> wf_buf buf \<and> db_cap buf = 2 ^ k"
  by (simp add: DequeBuffer_new_def wf_buf_def Let_def)

text \<open>Growing keeps every element at its index and doubles the capacity.\<close>

lemma copy_loop_copies:
  assumes "wf_buf new" "\<And>i. lo \<le> i \<Longrightarrow> i < hi \<Longrightarrow> DequeBuffer_get old i \<noteq> None"
    "hi - lo \<le> int (db_cap new)" "lo \<le> m" "m \<le> hi"
    "\<And>i. lo \<le> i \<Longrightarrow> i < m \<Longrightarrow> DequeBuffer_get new i = DequeBuffer_get old i"
  shows "\<exists>buf. copy_loop [m..hi - 1] old new = Some buf \<and> wf_buf buf \<and> db_cap buf = db_cap new
    \<and> (\<forall>i. lo \<le> i \<longrightarrow> i < hi \<longrightarrow> DequeBuffer_get buf i = DequeBuffer_get old i)"
  using assms
proof (induction "nat (hi - m)" arbitrary: m new)
  case 0
  then show ?case by auto
next
  case (Suc k)
  then have m: "m < hi" "[m..hi - 1] = m # [m + 1..hi - 1]" by (simp_all add: upto_rec1)
  obtain x where x: "DequeBuffer_get old m = Some x" using Suc.prems(2) [of m] Suc.prems(4) m(1) by auto
  obtain new' where n: "DequeBuffer_put m x new = Some new'" "wf_buf new'" "db_cap new' = db_cap new"
    "DequeBuffer_get new' m = Some x"
    "\<And>j. m \<noteq> j \<Longrightarrow> m - j < int (db_cap new) \<Longrightarrow> j - m < int (db_cap new) \<Longrightarrow>
        DequeBuffer_get new' j = DequeBuffer_get new j"
    using get_put [OF Suc.prems(1), of m x] by blast
  have "DequeBuffer_get new' i = DequeBuffer_get old i" if "lo \<le> i" "i < m + 1" for i
    using that n(4) n(5) [of i] x Suc.prems(3) Suc.prems(6) [of i] m(1) by (cases "i = m") auto
  note new' = this
  have "k = nat (hi - (m + 1))" using Suc.hyps(2) by simp
  from Suc.hyps(1) [OF this, of new'] new' Suc.prems(2-5) m(1) n(2,3)
  obtain buf where "copy_loop [m + 1..hi - 1] old new' = Some buf" "wf_buf buf" "db_cap buf = db_cap new"
    "\<forall>i. lo \<le> i \<longrightarrow> i < hi \<longrightarrow> DequeBuffer_get buf i = DequeBuffer_get old i" by auto
  with m(2) x n(1) show ?case by auto
qed

text \<open>The bounds under which nothing overflows: fewer than \<open>2 ^ 62\<close> pushes, a buffer below \<open>2 ^ 62\<close>.\<close>

lemma grow_keeps:
  fixes d :: "'a deque_inner"
  assumes wf: "wf_dq d" and small: "dq_bottom d < 2 ^ 62"
    and full: "int (db_cap (dq_buffer d)) \<le> dq_bottom d - dq_top d"
  shows "\<exists>buf. Worker_grow (dq_buffer d) (dq_top d) (dq_bottom d) = Some buf \<and> wf_buf buf
    \<and> dq_bottom d - dq_top d < int (db_cap buf)
    \<and> (\<forall>i. dq_top d \<le> i \<longrightarrow> i < dq_bottom d \<longrightarrow> DequeBuffer_get buf i = DequeBuffer_get (dq_buffer d) i)"
proof -
  note D = wf_dqD [OF wf]
  let ?b = "dq_bottom d" and ?t = "dq_top d" and ?buf = "dq_buffer d"
  from small full D(2) have "int (db_cap ?buf) < 2 ^ 62" by linarith
  moreover have "int (db_cap ?buf) = 2 ^ db_log_cap ?buf" using D(1) by (simp add: wf_buf_def)
  ultimately have pw: "(2 :: int) ^ db_log_cap ?buf < 2 ^ 62" by simp
  have "db_log_cap ?buf < 62" by (rule power_less_imp_less_exp [OF _ pw]) simp
  then have k: "db_log_cap ?buf + 1 < 64" by simp
  from DequeBuffer_new_wf [OF k] obtain new :: "'a deque_buffer" where new: "DequeBuffer_new (db_log_cap ?buf + 1) = Some new"
    "wf_buf new" "db_cap new = 2 ^ (db_log_cap ?buf + 1)" by blast
  have cap: "db_cap new = 2 * db_cap ?buf" using new(3) D(1) by (simp add: wf_buf_def)
  have pos: "0 < db_cap ?buf" using D(1) by (simp add: wf_buf_def)
  from copy_loop_copies [OF new(2), of ?t ?b ?buf ?t] D(3,5,6) cap
  obtain buf where "copy_loop [?t..?b - 1] ?buf new = Some buf" "wf_buf buf" "db_cap buf = db_cap new"
    "\<forall>i. ?t \<le> i \<longrightarrow> i < ?b \<longrightarrow> DequeBuffer_get buf i = DequeBuffer_get ?buf i" by auto
  with new(1) cap pos D(5) show ?thesis by (auto simp: Worker_grow_def)
qed

lemma push_list:
  fixes d :: "'a deque_inner"
  assumes wf: "wf_dq d" and small: "dq_bottom d < 2 ^ 62"
  shows "\<exists>d'. Worker_push x d = Some d' \<and> wf_dq d' \<and> dq_list d' = dq_list d @ [x]
    \<and> dq_bottom d' = dq_bottom d + 1 \<and> dq_top d' = dq_top d"
proof -
  note D = wf_dqD [OF wf]
  let ?b = "dq_bottom d" and ?t = "dq_top d" and ?buf = "dq_buffer d"
  have "\<exists>buf. (if int (db_cap ?buf) \<le> ?b - ?t then Worker_grow ?buf ?t ?b else Some ?buf) = Some buf
      \<and> wf_buf buf \<and> ?b - ?t < int (db_cap buf)
      \<and> (\<forall>i. ?t \<le> i \<longrightarrow> i < ?b \<longrightarrow> DequeBuffer_get buf i = DequeBuffer_get ?buf i)"
  proof (cases "int (db_cap ?buf) \<le> ?b - ?t")
    case False
    with D(1) show ?thesis by auto
  next
    case True
    with grow_keeps [OF wf small] show ?thesis by simp
  qed
  then obtain buf where buf: "(if int (db_cap ?buf) \<le> ?b - ?t then Worker_grow ?buf ?t ?b else Some ?buf) = Some buf"
    "wf_buf buf" "?b - ?t < int (db_cap buf)"
    "\<And>i. ?t \<le> i \<Longrightarrow> i < ?b \<Longrightarrow> DequeBuffer_get buf i = DequeBuffer_get ?buf i" by blast
  obtain buf' where buf': "DequeBuffer_put ?b x buf = Some buf'" "wf_buf buf'" "db_cap buf' = db_cap buf"
    "DequeBuffer_get buf' ?b = Some x"
    "\<And>j. ?b \<noteq> j \<Longrightarrow> ?b - j < int (db_cap buf) \<Longrightarrow> j - ?b < int (db_cap buf) \<Longrightarrow>
        DequeBuffer_get buf' j = DequeBuffer_get buf j"
    using get_put [OF buf(2), of ?b x] by blast
  have old: "DequeBuffer_get buf' i = DequeBuffer_get ?buf i" if "?t \<le> i" "i < ?b" for i
    using buf'(5) [of i] buf(3) buf(4) [OF that] that by simp
  let ?d = "d\<lparr>dq_buffer := buf', dq_bottom := ?b + 1\<rparr>"
  have "Worker_push x d = Some ?d"
    using buf(1) buf'(1) D(2,3,4) small by (simp add: Worker_push_def isize_chk_def Let_def)
  moreover have "wf_dq ?d"
    unfolding wf_dq_def
  proof (intro conjI allI impI)
    show "DequeBuffer_get (dq_buffer ?d) i \<noteq> None" if "dq_top ?d \<le> i \<and> i < dq_bottom ?d" for i
      using that old [of i] D(6) [of i] buf'(4) by (cases "i = ?b") auto
  qed (use D buf'(2,3) buf(3) small in auto)
  moreover have "dq_list ?d = dq_list d @ [x]"
  proof -
    have "[?t..?b] = [?t..?b - 1] @ [?b]" using D(3) by (rule upto_snoc)
    with old buf'(4) show ?thesis by (simp add: dq_list_def elem_at_def)
  qed
  ultimately show ?thesis by auto
qed

lemma pop_list:
  assumes wf: "wf_dq d" and small: "dq_bottom d < 2 ^ 62"
  shows "\<exists>d'. Worker_pop d = Some (last_opt (dq_list d), d') \<and> wf_dq d'
    \<and> dq_list d' = butlast (dq_list d) \<and> dq_bottom d' \<le> dq_bottom d"
proof -
  note D = wf_dqD [OF wf]
  let ?b = "dq_bottom d - 1"
  show ?thesis
  proof (cases "dq_top d \<le> ?b")
    case False
    with D(3) have eq: "dq_top d = dq_bottom d" by simp
    with False D(2,4) have "Worker_pop d = Some (None, d)"
      by (simp add: Worker_pop_def pop_claim_def pop_finish_def isize_chk_def Let_def)
    with wf eq show ?thesis by (simp add: dq_list_def)
  next
    case True
    have l: "dq_list d = map (elem_at d) [dq_top d..?b - 1] @ [elem_at d ?b]"
      using True by (simp add: dq_list_def upto_snoc)
    have g: "DequeBuffer_get (dq_buffer d) ?b = Some (elem_at d ?b)" using D(6) [of ?b] True by simp
    show ?thesis
    proof (cases "dq_top d = ?b")
      case e: True
      let ?d = "d\<lparr>dq_top := dq_top d + 1\<rparr>"
      have "Worker_pop d = Some (Some (elem_at d ?b), ?d)"
        using e g D(2,4) by (simp add: Worker_pop_def pop_claim_def pop_finish_def isize_chk_def Let_def)
      moreover have "wf_dq ?d" using D e by (simp add: wf_dq_def)
      moreover have "dq_list ?d = []" using e by (simp add: dq_list_def)
      ultimately show ?thesis using l e by simp
    next
      case ne: False
      let ?d = "d\<lparr>dq_bottom := ?b\<rparr>"
      have "Worker_pop d = Some (Some (elem_at d ?b), ?d)"
        using ne True g D(2,4) by (simp add: Worker_pop_def pop_claim_def pop_finish_def isize_chk_def Let_def)
      moreover have "wf_dq ?d" using D True by (auto simp: wf_dq_def)
      moreover have "dq_list ?d = map (elem_at d) [dq_top d..?b - 1]"
        by (simp add: dq_list_def elem_at_def)
      ultimately show ?thesis using l by simp
    qed
  qed
qed

lemma dq_list_Cons:
  "dq_top d < dq_bottom d \<Longrightarrow> dq_list d = elem_at d (dq_top d) # map (elem_at d) [dq_top d + 1..dq_bottom d - 1]"
  by (simp add: dq_list_def upto_rec1)

lemma steal_list:
  assumes wf: "wf_dq d"
  shows "\<exists>d'. Stealer_steal d = Some (hd_opt (dq_list d), d') \<and> wf_dq d'
    \<and> dq_list d' = tl (dq_list d) \<and> dq_bottom d' = dq_bottom d"
proof -
  note D = wf_dqD [OF wf]
  show ?thesis
  proof (cases "dq_top d < dq_bottom d")
    case False
    with wf show ?thesis by (simp add: Stealer_steal_def dq_list_def Let_def)
  next
    case True
    let ?d = "d\<lparr>dq_top := dq_top d + 1\<rparr>"
    have "Stealer_steal d = Some (Some (elem_at d (dq_top d)), ?d)"
      using True D(2,4) D(6) [of "dq_top d"]
      by (simp add: Stealer_steal_def isize_chk_def Let_def cas_top_def)
    moreover have "wf_dq ?d" using D True by (auto simp: wf_dq_def)
    moreover have "dq_list ?d = map (elem_at d) [dq_top d + 1..dq_bottom d - 1]"
      by (simp add: dq_list_def elem_at_def)
    ultimately show ?thesis using dq_list_Cons [OF True] by simp
  qed
qed

lemma dq_list_nat:
  "dq_list d = map (\<lambda>i. elem_at d (dq_top d + int i)) [0..<nat (dq_bottom d - dq_top d)]"
  by (rule nth_equalityI) (simp_all add: dq_list_def nth_upto)

lemma read_batch_map:
  "(\<And>i. i \<in> set is \<Longrightarrow> DequeBuffer_get buf (t + int i) = Some (f i)) \<Longrightarrow>
    read_batch buf t is = Some (map f is)"
  by (induction "is") auto

lemma batch_read_list:
  assumes wf: "wf_dq d"
  shows "batch_read n d = Some (dq_top d, take (min n 128) (dq_list d))"
proof -
  note D = wf_dqD [OF wf]
  let ?m = "min (min (nat (dq_bottom d - dq_top d)) n) 128"
  have "read_batch (dq_buffer d) (dq_top d) [0..<?m]
      = Some (map (\<lambda>i. elem_at d (dq_top d + int i)) [0..<?m])"
    by (rule read_batch_map, rule D(6)) auto
  moreover have "map (\<lambda>i. elem_at d (dq_top d + int i)) [0..<?m] = take (min n 128) (dq_list d)"
    unfolding dq_list_nat by (rule nth_equalityI) simp_all
  moreover have "isize_chk (dq_bottom d - dq_top d) = Some (dq_bottom d - dq_top d)"
    "max (dq_bottom d - dq_top d) 0 = dq_bottom d - dq_top d"
    using D(2,3,4) by (simp_all add: isize_chk_def)
  ultimately show ?thesis by (simp add: batch_read_def Let_def MAX_STEAL_BATCH_def)
qed

lemma steal_batch_list:
  assumes wf: "wf_dq d"
  shows "\<exists>d'. Stealer_steal_batch n d = Some (take (min n 128) (dq_list d), d') \<and> wf_dq d'
    \<and> dq_list d' = drop (min n 128) (dq_list d) \<and> dq_bottom d' = dq_bottom d"
proof -
  note D = wf_dqD [OF wf]
  let ?xs = "take (min n 128) (dq_list d)"
  show ?thesis
  proof (cases "?xs = []")
    case True
    then have "Stealer_steal_batch n d = Some ([], d)"
      by (simp add: Stealer_steal_batch_def batch_read_list [OF wf] batch_cas_def)
    with True wf show ?thesis by auto
  next
    case False
    let ?t = "dq_top d + int (length ?xs)"
    let ?d = "d\<lparr>dq_top := ?t\<rparr>"
    have le: "?t \<le> dq_bottom d" using D(3) by (simp add: dq_list_length)
    have "Stealer_steal_batch n d = Some (?xs, ?d)"
      using False le D(2,4)
      by (simp add: Stealer_steal_batch_def batch_read_list [OF wf] batch_cas_def isize_chk_def cas_top_def Let_def)
    moreover have "wf_dq ?d" using D le by (auto simp: wf_dq_def)
    moreover have "dq_list ?d = drop (min n 128) (dq_list d)"
    proof (rule nth_equalityI)
      show len: "length (dq_list ?d) = length (drop (min n 128) (dq_list d))"
        using le D(3) by (simp add: dq_list_length) linarith
      fix i assume "i < length (dq_list ?d)"
      with len have i: "min n 128 + i < nat (dq_bottom d - dq_top d)"
        unfolding length_drop dq_list_length by linarith
      then have "length ?xs = min n 128" by (simp add: dq_list_length)
      with i show "dq_list ?d ! i = drop (min n 128) (dq_list d) ! i"
        unfolding dq_list_nat by (simp add: elem_at_def add.assoc)
    qed
    ultimately show ?thesis by simp
  qed
qed

text \<open>
  The contract on lists, oldest element first, for operations that do not overlap: what is
  handed out, and the rest.
\<close>

datatype 'a dq_op = Push 'a | Pop | Steal | StealBatch nat

fun dq_spec :: "'a dq_op \<Rightarrow> 'a list \<Rightarrow> 'a list \<times> 'a list" where
  "dq_spec (Push x) xs = ([], xs @ [x])"
| "dq_spec Pop xs = (if xs = [] then [] else [last xs], butlast xs)"
| "dq_spec Steal xs = (take 1 xs, tl xs)"
| "dq_spec (StealBatch n) xs = (take (min n 128) xs, drop (min n 128) xs)"

fun dq_specs :: "'a dq_op list \<Rightarrow> 'a list \<Rightarrow> 'a list list \<times> 'a list" where
  "dq_specs [] xs = ([], xs)"
| "dq_specs (x # ops) xs =
     (let (r, xs') = dq_spec x xs; (rs, xs'') = dq_specs ops xs' in (r # rs, xs''))"

definition opt_list :: "'a option \<Rightarrow> 'a list" where
  "opt_list x = (case x of None \<Rightarrow> [] | Some y \<Rightarrow> [y])"

fun dq_step :: "'a dq_op \<Rightarrow> 'a deque_inner \<Rightarrow> ('a list \<times> 'a deque_inner) option" where
  "dq_step (Push x) d = map_option (Pair []) (Worker_push x d)"
| "dq_step Pop d = map_option (map_prod opt_list id) (Worker_pop d)"
| "dq_step Steal d = map_option (map_prod opt_list id) (Stealer_steal d)"
| "dq_step (StealBatch n) d = Stealer_steal_batch n d"

lemma opt_list_simps [simp]: "opt_list None = []" "opt_list (Some x) = [x]"
  by (simp_all add: opt_list_def)

lemma opt_list_ends: "opt_list (hd_opt xs) = take 1 xs" "opt_list (last_opt xs) = (if xs = [] then [] else [last xs])"
  by (cases xs; simp add: opt_list_def last_opt_def)+

lemma dq_step_refines:
  assumes "wf_dq d" "dq_bottom d < 2 ^ 62"
  shows "\<exists>d'. dq_step op d = Some (fst (dq_spec op (dq_list d)), d') \<and> wf_dq d'
    \<and> dq_list d' = snd (dq_spec op (dq_list d)) \<and> dq_bottom d' \<le> dq_bottom d + 1"
proof (cases op)
  case (Push x)
  with push_list [OF assms, of x] show ?thesis by auto
next
  case Pop
  with pop_list [OF assms] show ?thesis by (auto simp: opt_list_ends)
next
  case Steal
  with steal_list [OF assms(1)] show ?thesis by (auto simp: opt_list_ends)
next
  case (StealBatch n)
  with steal_batch_list [OF assms(1), of n] show ?thesis by auto
qed

text \<open>The deque keeps the contract of the executor, for fewer than \<open>2 ^ 62\<close> pushes.\<close>

interpretation dq: work_deque wf_dq dq_list "\<lambda>d. nat (2 ^ 62 - dq_bottom d)" "\<lambda>n. min n 128"
  Worker_push Worker_pop Stealer_steal_batch
proof
  fix d :: "'a deque_inner" and x
  assume d: "wf_dq d" "0 < nat (2 ^ 62 - dq_bottom d)"
  then have "dq_bottom d < 2 ^ 62" by simp
  from push_list [OF d(1) this, of x]
  show "\<exists>d'. Worker_push x d = Some d' \<and> wf_dq d' \<and> dq_list d' = dq_list d @ [x]
    \<and> nat (2 ^ 62 - dq_bottom d) = Suc (nat (2 ^ 62 - dq_bottom d'))"
    using \<open>dq_bottom d < 2 ^ 62\<close> by fastforce
  from pop_list [OF d(1) \<open>dq_bottom d < 2 ^ 62\<close>]
  show "\<exists>d'. Worker_pop d = Some (last_opt (dq_list d), d') \<and> wf_dq d' \<and> dq_list d' = butlast (dq_list d)
    \<and> nat (2 ^ 62 - dq_bottom d) \<le> nat (2 ^ 62 - dq_bottom d')"
    by fastforce
next
  fix d :: "'a deque_inner" and n
  assume "wf_dq d"
  from steal_batch_list [OF this, of n]
  show "\<exists>d'. Stealer_steal_batch n d = Some (take (min n 128) (dq_list d), d') \<and> wf_dq d'
    \<and> dq_list d' = drop (min n 128) (dq_list d) \<and> nat (2 ^ 62 - dq_bottom d') = nat (2 ^ 62 - dq_bottom d)"
    by fastforce
qed

lemma MIN_CAPACITY_zeros: "trailing_zeros (of_nat MIN_CAPACITY :: usize) = 6"
proof (rule trailing_zerosI)
  have b: "bit (of_nat MIN_CAPACITY :: usize) i \<longleftrightarrow> i = 6" for i
  proof -
    have "(of_nat MIN_CAPACITY :: usize) = push_bit 6 1" by (simp add: MIN_CAPACITY_def)
    then show ?thesis by (simp only: bit_push_bit_iff bit_1_iff) auto
  qed
  show "\<not> bit (of_nat MIN_CAPACITY :: usize) i" if "i < 6" for i using b that by simp
  show "bit (of_nat MIN_CAPACITY :: usize) 6" using b by simp
qed simp

lemma deque_wf: "\<exists>d. deque = Some d \<and> wf_dq d \<and> dq_list d = [] \<and> dq_bottom d = 0"
  using MIN_CAPACITY_zeros
  by (auto simp: deque_def DequeBuffer_new_def Let_def wf_dq_def wf_buf_def dq_list_def)

text \<open>
  C17: Over any sequence of pushes, pops, steals and batch steals that do not overlap, the
  circular buffer behaves like a list, whatever wraps around and grows: the owner takes the
  newest element, thieves the oldest, and a batch takes as many as fit, up to 128, which may be
  all of them and not half. Nothing panics within \<open>2 ^ 62\<close> operations.
\<close>

theorem deque_refines_list:
  fixes ops :: "'a dq_op list"
  assumes "length ops < 2 ^ 62"
  shows "\<exists>d d'. deque = Some d \<and> run_ops dq_step ops d = Some (fst (dq_specs ops []), d')
    \<and> dq_list d' = snd (dq_specs ops [])"
proof -
  have "\<exists>d'. run_ops dq_step ops d = Some (fst (dq_specs ops (dq_list d)), d')
      \<and> dq_list d' = snd (dq_specs ops (dq_list d))"
    if "wf_dq d" "dq_bottom d + int (length ops) \<le> 2 ^ 62" for d :: "'a deque_inner"
    using that
  proof (induction ops arbitrary: d)
    case (Cons x ops)
    from Cons.prems(2) have "dq_bottom d < 2 ^ 62" by simp
    from dq_step_refines [OF Cons.prems(1) this, of x] obtain d1 where
      d1: "dq_step x d = Some (fst (dq_spec x (dq_list d)), d1)" "wf_dq d1"
      "dq_list d1 = snd (dq_spec x (dq_list d))" "dq_bottom d1 \<le> dq_bottom d + 1" by blast
    from Cons.IH [OF d1(2)] d1 Cons.prems(2) show ?case by (auto split: prod.splits)
  qed simp
  moreover obtain d :: "'a deque_inner" where "deque = Some d" "wf_dq d" "dq_list d = []" "dq_bottom d = 0"
    using deque_wf by blast
  ultimately show ?thesis using assms by fastforce
qed

theorem deque_refines_list_witness:
  "\<exists>d d'. deque = Some d \<and> run_ops dq_step [Push 5, Push 6, Push 7, Pop, Steal, StealBatch 9] d
      = Some ([[], [], [], [7], [5], [6]], d') \<and> dq_list d' = ([] :: nat list)"
  using deque_refines_list [of "[Push 5, Push 6, Push 7, Pop, Steal, StealBatch 9 :: nat dq_op]"]
  by simp

section \<open>A batch against the owner\<close>

text \<open>
  A batch steal and a pop that overlap hand out the same element twice: the thief reads both
  elements, the owner then takes the last one without a compare-exchange, as the top is still
  below it, and the thief's compare-exchange succeeds. The top is then past the bottom, so the
  next element the owner pushes is lost: neither a pop nor a steal finds it.
\<close>

theorem steal_batch_duplicates:
  assumes "wf_dq d" "dq_list d = [x, y]" "2 \<le> n" "dq_bottom d < 2 ^ 62"
  shows "\<exists>r d1 d2 d3 d4. batch_read n d = Some r
    \<and> Worker_pop d = Some (Some y, d1)
    \<and> batch_cas r d1 = Some ([x, y], d2)
    \<and> Worker_push z d2 = Some d3
    \<and> Worker_pop d3 = Some (None, d4) \<and> Stealer_steal d3 = Some (None, d3)"
proof -
  note D = wf_dqD [OF assms(1)]
  let ?t = "dq_top d"
  have "length (dq_list d) = 2" using assms(2) by simp
  then have b: "dq_bottom d = ?t + 2" using D(3) by (simp add: dq_list_length)
  have y: "DequeBuffer_get (dq_buffer d) (?t + 1) = Some y"
  proof -
    have "dq_list d ! 1 = elem_at d (?t + 1)" using b by (subst dq_list_nat) simp
    with assms(2) have "elem_at d (?t + 1) = y" by simp
    with D(6) [of "?t + 1"] b show ?thesis by simp
  qed
  let ?d1 = "d\<lparr>dq_bottom := ?t + 1\<rparr>"
  let ?d2 = "d\<lparr>dq_bottom := ?t + 1, dq_top := ?t + 2\<rparr>"
  have r: "batch_read n d = Some (?t, [x, y])"
    using batch_read_list [OF assms(1), of n] assms(2,3) by (simp add: min_def)
  have pop: "Worker_pop d = Some (Some y, ?d1)"
    using y b D(2) assms(4)
    by (simp add: add.commute Worker_pop_def pop_claim_def pop_finish_def isize_chk_def Let_def)
  have cas: "batch_cas (?t, [x, y]) ?d1 = Some ([x, y], ?d2)"
    using b D(2) assms(4) by (simp add: batch_cas_def isize_chk_def cas_top_def Let_def)
  obtain buf where buf: "DequeBuffer_put (?t + 1) z (dq_buffer d) = Some buf" using get_put [OF D(1)] by blast
  let ?d3 = "?d2\<lparr>dq_buffer := buf, dq_bottom := ?t + 2\<rparr>"
  have cap: "\<not> int (db_cap (dq_buffer d)) \<le> - 1" by simp
  have push: "Worker_push z ?d2 = Some ?d3"
    using buf cap b D(2) assms(4) by (simp add: Worker_push_def isize_chk_def Let_def)
  have "Worker_pop ?d3 = Some (None, ?d3)"
    using b D(2) assms(4) by (simp add: Worker_pop_def pop_claim_def pop_finish_def isize_chk_def Let_def)
  moreover have "Stealer_steal ?d3 = Some (None, ?d3)"
    by (simp add: Stealer_steal_def Let_def)
  ultimately show ?thesis using r pop cas push by blast
qed

theorem steal_batch_duplicates_witness:
  "\<exists>(d :: nat deque_inner) r d1 d2. batch_read 64 d = Some r \<and> Worker_pop d = Some (Some 6, d1)
    \<and> batch_cas r d1 = Some ([5, 6], d2)"
proof -
  obtain d0 :: "nat deque_inner" where d0: "wf_dq d0" "dq_list d0 = []" "dq_bottom d0 = 0"
    using deque_wf by blast
  obtain d1 :: "nat deque_inner" where d1: "wf_dq d1" "dq_list d1 = [5]" "dq_bottom d1 = 1"
    using push_list [of d0 5] d0 by auto
  obtain d2 :: "nat deque_inner" where d2: "wf_dq d2" "dq_list d2 = [5, 6]" "dq_bottom d2 = 2"
    using push_list [of d1 6] d1 by auto
  from steal_batch_duplicates [OF d2(1,2), of 64 0] d2(3) show ?thesis by fastforce
qed

end
