(* ===== verification/ChaseLev.thy ===== *)
theory ChaseLev
  imports Stealer
begin

text \<open>
  The deque of \<open>src/task/stealer.rs\<close> with its owner and any number of thieves at work at once:
  \<open>push\<close>, \<open>pop\<close> and \<open>steal\<close> in steps of one access to shared memory each, under sequential
  consistency. The inductive relation \<open>cl_step\<close> interleaves the steps. A history logs each push,
  pop and successful steal at the access that decides it.
\<close>

section \<open>Owner and thieves\<close>

text \<open>
  Where the owner stands in \<open>push\<close> or \<open>pop\<close>, with the local variables it still needs. An
  \<open>OIdle\<close> owner is in no call.
\<close>

datatype 'a owner_pc =
    OIdle
  | OPushing 'a
  | OPush 'a int int
  | OPut 'a int
  | OStore 'a int
  | OPopping
  | OClaimed int
  | ORead int int
  | ORace int 'a
  | ORestore int

text \<open>
  A thief in \<open>steal\<close>. \<open>TPtr\<close> has loaded the pointer to the array, of allocation number \<open>n\<close>, and
  \<open>TVal\<close> has read through it what may be a cell that was never written. \<open>TFreed\<close> has read through
  a pointer to an array that \<open>grow\<close> has freed meanwhile.
\<close>

datatype 'a thief_pc =
    TIdle
  | TStart
  | TTop int
  | TGo int
  | TPtr int nat
  | TVal int "'a option"
  | TFreed

record 'a cl =
  cl_dq :: "'a deque_inner"
  cl_alloc :: nat
  cl_owner :: "'a owner_pc"
  cl_thief :: "addr \<Rightarrow> 'a thief_pc"
  cl_hist :: "('a dq_op \<times> 'a list) list"

definition cl_init :: "'a cl option" where
  "cl_init = do { d \<leftarrow> deque;
     Some \<lparr>cl_dq = d, cl_alloc = 0, cl_owner = OIdle, cl_thief = (\<lambda>k. TIdle), cl_hist = []\<rparr> }"

text \<open>
  The next access of the owner. \<open>None\<close> is a panic or the use of a cell that was never written.
  Storing the grown buffer drops the old one, which frees its array.
\<close>

fun owner_step :: "'a owner_pc \<Rightarrow> 'a cl \<Rightarrow> 'a cl option" where
  "owner_step OIdle s = Some s"
| "owner_step (OPushing x) s =
     Some (s\<lparr>cl_owner := OPush x (dq_bottom (cl_dq s)) (dq_top (cl_dq s))\<rparr>)"
| "owner_step (OPush x b t) s = do {
     size \<leftarrow> isize_chk (b - t);
     if int (db_cap (dq_buffer (cl_dq s))) \<le> size then do {
       buf \<leftarrow> Worker_grow (dq_buffer (cl_dq s)) t b;
       Some (s\<lparr>cl_dq := (cl_dq s)\<lparr>dq_buffer := buf\<rparr>, cl_alloc := cl_alloc s + 1, cl_owner := OPut x b\<rparr>) }
     else Some (s\<lparr>cl_owner := OPut x b\<rparr>) }"
| "owner_step (OPut x b) s = do {
     buf \<leftarrow> DequeBuffer_put b x (dq_buffer (cl_dq s));
     Some (s\<lparr>cl_dq := (cl_dq s)\<lparr>dq_buffer := buf\<rparr>, cl_owner := OStore x b\<rparr>) }"
| "owner_step (OStore x b) s = do {
     b' \<leftarrow> isize_chk (b + 1);
     Some (s\<lparr>cl_dq := (cl_dq s)\<lparr>dq_bottom := b'\<rparr>, cl_owner := OIdle,
       cl_hist := cl_hist s @ [(Push x, [])]\<rparr>) }"
| "owner_step OPopping s = do {
     (b, d) \<leftarrow> pop_claim (cl_dq s);
     Some (s\<lparr>cl_dq := d, cl_owner := OClaimed b\<rparr>) }"
| "owner_step (OClaimed b) s = (let t = dq_top (cl_dq s) in
     if t \<le> b then Some (s\<lparr>cl_owner := ORead b t\<rparr>)
     else Some (s\<lparr>cl_owner := ORestore b, cl_hist := cl_hist s @ [(Pop, [])]\<rparr>))"
| "owner_step (ORead b t) s = do {
     val \<leftarrow> DequeBuffer_get (dq_buffer (cl_dq s)) b;
     if t = b then Some (s\<lparr>cl_owner := ORace b val\<rparr>)
     else Some (s\<lparr>cl_owner := OIdle, cl_hist := cl_hist s @ [(Pop, [val])]\<rparr>) }"
| "owner_step (ORace b val) s = do {
     t1 \<leftarrow> isize_chk (b + 1);
     let (ok, d) = cas_top b t1 (cl_dq s);
     Some (s\<lparr>cl_dq := d, cl_owner := ORestore b,
       cl_hist := cl_hist s @ [(Pop, if ok then [val] else [])]\<rparr>) }"
| "owner_step (ORestore b) s = do {
     b1 \<leftarrow> isize_chk (b + 1);
     Some (s\<lparr>cl_dq := (cl_dq s)\<lparr>dq_bottom := b1\<rparr>, cl_owner := OIdle\<rparr>) }"

definition set_thief :: "addr \<Rightarrow> 'a thief_pc \<Rightarrow> 'a cl \<Rightarrow> 'a cl" where
  "set_thief k pc s = s\<lparr>cl_thief := (cl_thief s)(k := pc)\<rparr>"

text \<open>
  The next access of a thief. \<open>None\<close> is a panic, or a success that hands out a cell that was
  never written.
\<close>

fun thief_step :: "addr \<Rightarrow> 'a thief_pc \<Rightarrow> 'a cl \<Rightarrow> 'a cl option" where
  "thief_step k TIdle s = Some s"
| "thief_step k TStart s = Some (set_thief k (TTop (dq_top (cl_dq s))) s)"
| "thief_step k (TTop t) s = Some (set_thief k (if t < dq_bottom (cl_dq s) then TGo t else TIdle) s)"
| "thief_step k (TGo t) s = Some (set_thief k (TPtr t (cl_alloc s)) s)"
| "thief_step k (TPtr t n) s = Some (set_thief k
     (if n = cl_alloc s then TVal t (DequeBuffer_get (dq_buffer (cl_dq s)) t) else TFreed) s)"
| "thief_step k (TVal t val) s = do {
     t1 \<leftarrow> isize_chk (t + 1);
     let (ok, d) = cas_top t t1 (cl_dq s);
     if ok then do {
       x \<leftarrow> val;
       Some (set_thief k TIdle (s\<lparr>cl_dq := d, cl_hist := cl_hist s @ [(Steal, [x])]\<rparr>)) }
     else Some (set_thief k TIdle s) }"
| "thief_step k TFreed s = Some s"

inductive cl_step :: "'a cl \<Rightarrow> 'a cl \<Rightarrow> bool" where
  begin_push: "cl_owner s = OIdle \<Longrightarrow> cl_step s (s\<lparr>cl_owner := OPushing x\<rparr>)"
| begin_pop: "cl_owner s = OIdle \<Longrightarrow> cl_step s (s\<lparr>cl_owner := OPopping\<rparr>)"
| owner: "owner_step (cl_owner s) s = Some s' \<Longrightarrow> cl_step s s'"
| begin_steal: "cl_thief s k = TIdle \<Longrightarrow> cl_step s (set_thief k TStart s)"
| thief: "thief_step k (cl_thief s k) s = Some s' \<Longrightarrow> cl_step s s'"

text \<open>The owner alone, and one thief alone, for a number of accesses.\<close>

fun owner_alone :: "nat \<Rightarrow> 'a cl \<Rightarrow> 'a cl option" where
  "owner_alone 0 s = Some s"
| "owner_alone (Suc n) s = do { s' \<leftarrow> owner_step (cl_owner s) s; owner_alone n s' }"

fun thief_alone :: "addr \<Rightarrow> nat \<Rightarrow> 'a cl \<Rightarrow> 'a cl option" where
  "thief_alone k 0 s = Some s"
| "thief_alone k (Suc n) s = do { s' \<leftarrow> thief_step k (cl_thief s k) s; thief_alone k n s' }"

lemma set_thief_simps [simp]:
  "cl_dq (set_thief k pc s) = cl_dq s" "cl_alloc (set_thief k pc s) = cl_alloc s"
  "cl_owner (set_thief k pc s) = cl_owner s" "cl_hist (set_thief k pc s) = cl_hist s"
  "cl_thief (set_thief k pc s) j = (if j = k then pc else cl_thief s j)"
  by (simp_all add: set_thief_def)

lemma owner_alone_steps: "owner_alone n s = Some s' \<Longrightarrow> cl_step\<^sup>*\<^sup>* s s'"
proof (induction n arbitrary: s)
  case (Suc n)
  then obtain s1 where "owner_step (cl_owner s) s = Some s1" "owner_alone n s1 = Some s'"
    by (auto split: Option.bind_splits)
  with Suc.IH show ?case by (blast intro: cl_step.owner converse_rtranclp_into_rtranclp)
qed simp

lemma thief_alone_steps: "thief_alone k n s = Some s' \<Longrightarrow> cl_step\<^sup>*\<^sup>* s s'"
proof (induction n arbitrary: s)
  case (Suc n)
  then obtain s1 where "thief_step k (cl_thief s k) s = Some s1" "thief_alone k n s1 = Some s'"
    by (auto split: Option.bind_splits)
  with Suc.IH show ?case by (blast intro: cl_step.thief converse_rtranclp_into_rtranclp)
qed simp

section \<open>The steps make up the operations\<close>

lemma push_pieces:
  assumes "cl_owner s = OPushing x"
  shows "map_option cl_dq (owner_alone 4 s) = Worker_push x (cl_dq s)"
  using assms by (simp add: eval_nat_numeral Worker_push_def Let_def split: Option.bind_split)

lemma pop_pieces:
  assumes "cl_owner s = OPopping" "dq_bottom (cl_dq s) < 2 ^ 63"
  shows "map_option (\<lambda>s'. (cl_hist s', cl_dq s')) (owner_alone 5 s)
    = map_option (\<lambda>(r, d). (cl_hist s @ [(Pop, opt_list r)], d)) (Worker_pop (cl_dq s))"
  using assms
  by (auto simp: eval_nat_numeral Worker_pop_def pop_claim_def pop_finish_def cas_top_def isize_chk_def Let_def
      split: Option.bind_split)

lemma steal_pieces:
  assumes "cl_thief s k = TStart"
  shows "map_option (\<lambda>s'. (cl_hist s', cl_dq s')) (thief_alone k 5 s)
    = map_option (\<lambda>(r, d). (cl_hist s @ map (Pair Steal) (map (\<lambda>x. [x]) (opt_list r)), d)) (Stealer_steal (cl_dq s))"
  using assms
  by (auto simp: eval_nat_numeral Stealer_steal_def cas_top_def Let_def split: Option.bind_split)

section \<open>The invariant\<close>

text \<open>
  Where the abstract contents end: an owner inside \<open>pop\<close> has moved the bottom down before it is
  decided whether the last element is its own.
\<close>

fun pending :: "'a owner_pc \<Rightarrow> int" where
  "pending (OClaimed b) = 1"
| "pending (ORead b t) = 1"
| "pending (ORace b val) = 1"
| "pending (ORestore b) = 1"
| "pending _ = 0"

definition cl_view :: "'a cl \<Rightarrow> 'a deque_inner" where
  "cl_view s = (cl_dq s)\<lparr>dq_bottom := dq_bottom (cl_dq s) + pending (cl_owner s)\<rparr>"

definition cl_list :: "'a cl \<Rightarrow> 'a list" where
  "cl_list s = dq_list (cl_view s)"

text \<open>What the owner's local variables say of the shared state.\<close>

fun owner_ok :: "'a owner_pc \<Rightarrow> 'a deque_inner \<Rightarrow> bool" where
  "owner_ok (OPush x b t) d \<longleftrightarrow> b = dq_bottom d \<and> 0 \<le> t \<and> t \<le> dq_top d
     \<and> wf_dq (d\<lparr>dq_top := t\<rparr>)"
| "owner_ok (OPut x b) d \<longleftrightarrow> b = dq_bottom d \<and> b - dq_top d < int (db_cap (dq_buffer d))"
| "owner_ok (OStore x b) d \<longleftrightarrow> b = dq_bottom d \<and> b - dq_top d < int (db_cap (dq_buffer d))
     \<and> DequeBuffer_get (dq_buffer d) b = Some x"
| "owner_ok (OClaimed b) d \<longleftrightarrow> b = dq_bottom d"
| "owner_ok (ORead b t) d \<longleftrightarrow> b = dq_bottom d \<and> t \<le> b \<and> (t < b \<longrightarrow> dq_top d \<le> b)
     \<and> t \<le> dq_top d \<and> DequeBuffer_get (dq_buffer d) b \<noteq> None"
| "owner_ok (ORace b val) d \<longleftrightarrow> b = dq_bottom d \<and> b \<le> dq_top d
     \<and> DequeBuffer_get (dq_buffer d) b = Some val"
| "owner_ok (ORestore b) d \<longleftrightarrow> b = dq_bottom d \<and> dq_top d = b + 1"
| "owner_ok _ d \<longleftrightarrow> True"

text \<open>
  Below which index a thief may go on: the end of the contents, unless the owner is about to take
  the last element without a compare-exchange.
\<close>

fun steal_limit :: "'a owner_pc \<Rightarrow> 'a deque_inner \<Rightarrow> int" where
  "steal_limit (ORead b t) d = (if t < b then b else b + 1)"
| "steal_limit pc d = dq_bottom d + pending pc"

fun thief_ok :: "'a thief_pc \<Rightarrow> 'a cl \<Rightarrow> bool" where
  "thief_ok (TTop t) s \<longleftrightarrow> 0 \<le> t \<and> t \<le> dq_top (cl_dq s)"
| "thief_ok (TGo t) s \<longleftrightarrow> 0 \<le> t \<and> t \<le> dq_top (cl_dq s) \<and> t < steal_limit (cl_owner s) (cl_dq s)"
| "thief_ok (TPtr t n) s \<longleftrightarrow> 0 \<le> t \<and> t \<le> dq_top (cl_dq s) \<and> t < steal_limit (cl_owner s) (cl_dq s)"
| "thief_ok (TVal t val) s \<longleftrightarrow> 0 \<le> t \<and> t \<le> dq_top (cl_dq s) \<and> t < steal_limit (cl_owner s) (cl_dq s)
     \<and> (t = dq_top (cl_dq s) \<longrightarrow> val = DequeBuffer_get (dq_buffer (cl_dq s)) t)"
| "thief_ok _ s \<longleftrightarrow> True"

text \<open>The history is a run of the contract on lists, and it leaves the contents.\<close>

definition hist_ok :: "('a dq_op \<times> 'a list) list \<Rightarrow> 'a list \<Rightarrow> bool" where
  "hist_ok h xs \<longleftrightarrow> dq_specs (map fst h) [] = (map snd h, xs)"

definition cl_inv :: "'a cl \<Rightarrow> bool" where
  "cl_inv s \<longleftrightarrow> wf_dq (cl_view s) \<and> owner_ok (cl_owner s) (cl_dq s)
     \<and> (\<forall>k. thief_ok (cl_thief s k) s)
     \<and> hist_ok (cl_hist s) (cl_list s) \<and> dq_bottom (cl_view s) \<le> int (length (cl_hist s))
     \<and> (cl_alloc s = 0 \<longrightarrow> db_cap (dq_buffer (cl_dq s)) = 64)"

lemma dq_specs_append:
  "dq_specs (xs @ ys) l = (let (rs, l') = dq_specs xs l; (rs', l'') = dq_specs ys l' in (rs @ rs', l''))"
  by (induction xs arbitrary: l) (auto simp: Let_def split: prod.splits)

lemma hist_ok_snoc: "hist_ok h xs \<Longrightarrow> dq_spec op xs = (r, xs') \<Longrightarrow> hist_ok (h @ [(op, r)]) xs'"
  by (simp add: hist_ok_def dq_specs_append)

lemma cl_view_simps [simp]:
  "dq_top (cl_view s) = dq_top (cl_dq s)" "dq_buffer (cl_view s) = dq_buffer (cl_dq s)"
  "dq_bottom (cl_view s) = dq_bottom (cl_dq s) + pending (cl_owner s)"
  "cl_view (set_thief k pc s) = cl_view s"
  by (simp_all add: cl_view_def)

lemma cl_invD:
  assumes "cl_inv s"
  shows "wf_dq (cl_view s)" "owner_ok (cl_owner s) (cl_dq s)" "thief_ok (cl_thief s k) s"
    "hist_ok (cl_hist s) (cl_list s)"
    "dq_bottom (cl_dq s) + pending (cl_owner s) \<le> int (length (cl_hist s))"
    "cl_alloc s = 0 \<Longrightarrow> db_cap (dq_buffer (cl_dq s)) = 64"
  using assms by (auto simp: cl_inv_def)

lemma thief_ok_keep:
  assumes "thief_ok pc s" "dq_top (cl_dq s) \<le> dq_top (cl_dq s')"
    "\<And>t. t \<le> dq_top (cl_dq s) \<Longrightarrow> t < steal_limit (cl_owner s) (cl_dq s) \<Longrightarrow> t < steal_limit (cl_owner s') (cl_dq s')"
    "dq_top (cl_dq s') = dq_top (cl_dq s) \<Longrightarrow> dq_top (cl_dq s) < steal_limit (cl_owner s) (cl_dq s) \<Longrightarrow>
      DequeBuffer_get (dq_buffer (cl_dq s')) (dq_top (cl_dq s)) = DequeBuffer_get (dq_buffer (cl_dq s)) (dq_top (cl_dq s))"
  shows "thief_ok pc s'"
proof (cases pc)
  case (TVal t val)
  with assms(1,2) assms(3) [of t] show ?thesis
    using assms(4) by (cases "t = dq_top (cl_dq s)") auto
qed (use assms(1-3) in fastforce)+

text \<open>
  The obligations of an owner step, in the shape the steps have: the thieves are the same, the
  top does not fall.
\<close>

lemma owner_inv_step:
  assumes "cl_inv s" "cl_thief s' = cl_thief s" "dq_top (cl_dq s) \<le> dq_top (cl_dq s')"
    "wf_dq (cl_view s')" "owner_ok (cl_owner s') (cl_dq s')" "hist_ok (cl_hist s') (cl_list s')"
    "dq_bottom (cl_view s') \<le> int (length (cl_hist s'))"
    "cl_alloc s' = 0 \<Longrightarrow> cl_alloc s = 0 \<and> db_cap (dq_buffer (cl_dq s')) = db_cap (dq_buffer (cl_dq s))"
    "\<And>t. t \<le> dq_top (cl_dq s) \<Longrightarrow> t < steal_limit (cl_owner s) (cl_dq s) \<Longrightarrow> t < steal_limit (cl_owner s') (cl_dq s')"
    "dq_top (cl_dq s') = dq_top (cl_dq s) \<Longrightarrow> dq_top (cl_dq s) < steal_limit (cl_owner s) (cl_dq s) \<Longrightarrow>
      DequeBuffer_get (dq_buffer (cl_dq s')) (dq_top (cl_dq s)) = DequeBuffer_get (dq_buffer (cl_dq s)) (dq_top (cl_dq s))"
  shows "cl_inv s'"
  using assms(4-8) cl_invD(6) [OF assms(1)]
    thief_ok_keep [OF cl_invD(3) [OF assms(1)] assms(3) assms(9,10)]
  by (auto simp: cl_inv_def assms(2))

text \<open>Steps that move only the owner: the contents, the limit and the history stay.\<close>

lemma owner_inv_move:
  assumes "cl_inv s" "owner_ok pc (cl_dq s)" "pending pc = pending (cl_owner s)"
    "\<And>t. t \<le> dq_top (cl_dq s) \<Longrightarrow> t < steal_limit (cl_owner s) (cl_dq s) \<Longrightarrow> t < steal_limit pc (cl_dq s)"
  shows "cl_inv (s\<lparr>cl_owner := pc\<rparr>)"
proof -
  have v: "cl_view (s\<lparr>cl_owner := pc\<rparr>) = cl_view s" using assms(3) by (simp add: cl_view_def)
  show ?thesis
    by (rule owner_inv_step [OF assms(1)])
      (use assms(2,4) cl_invD [OF assms(1)] v in \<open>auto simp: cl_list_def\<close>)
qed

lemma wf_dq_cong:
  assumes "wf_dq d" "wf_buf (dq_buffer d')" "dq_top d' = dq_top d" "dq_bottom d' = dq_bottom d"
    "dq_bottom d - dq_top d \<le> int (db_cap (dq_buffer d'))"
    "\<And>i. dq_top d \<le> i \<Longrightarrow> i < dq_bottom d \<Longrightarrow> DequeBuffer_get (dq_buffer d') i = DequeBuffer_get (dq_buffer d) i"
  shows "wf_dq d'" "dq_list d' = dq_list d"
  using assms by (auto simp: wf_dq_def dq_list_def elem_at_def)

lemma inv_push_look:
  assumes inv: "cl_inv s" and pc: "cl_owner s = OPush x b t" and small: "length (cl_hist s) < 2 ^ 62"
  shows "\<exists>s'. owner_step (cl_owner s) s = Some s' \<and> cl_inv s'"
proof -
  let ?d = "cl_dq s"
  let ?dt = "?d\<lparr>dq_top := t\<rparr>"
  note I = cl_invD [OF inv] and D = wf_dqD [OF cl_invD(1) [OF inv]]
  have ok: "b = dq_bottom ?d" "0 \<le> t" "t \<le> dq_top ?d" "wf_dq ?dt" using I(2) pc by simp_all
  have v: "cl_view s = ?d" using pc by (simp add: cl_view_def)
  have b: "dq_bottom ?d < 2 ^ 62" using I(5) pc small by simp
  have size: "isize_chk (b - t) = Some (b - t)"
    using ok D(3) b v by (simp add: isize_chk_def)
  show ?thesis
  proof (cases "int (db_cap (dq_buffer ?d)) \<le> b - t")
    case False
    have "cl_inv (s\<lparr>cl_owner := OPut x b\<rparr>)"
      by (rule owner_inv_move [OF inv]) (use pc ok False in auto)
    with False pc size show ?thesis by simp
  next
    case True
    from grow_keeps [OF ok(4)] True ok(1) b obtain buf where
      buf: "Worker_grow (dq_buffer ?d) t b = Some buf" "wf_buf buf" "b - t < int (db_cap buf)"
      "\<forall>i. t \<le> i \<longrightarrow> i < b \<longrightarrow> DequeBuffer_get buf i = DequeBuffer_get (dq_buffer ?d) i" by auto
    let ?s = "s\<lparr>cl_dq := ?d\<lparr>dq_buffer := buf\<rparr>, cl_alloc := cl_alloc s + 1, cl_owner := OPut x b\<rparr>"
      note W = wf_dq_cong [OF I(1) [unfolded v], of "?d\<lparr>dq_buffer := buf\<rparr>"]
    have W': "wf_dq (?d\<lparr>dq_buffer := buf\<rparr>)" "dq_list (?d\<lparr>dq_buffer := buf\<rparr>) = dq_list ?d"
      by (rule W; use buf ok in auto)+
    have "cl_inv ?s"
      by (rule owner_inv_step [OF inv])
        (use W' pc ok buf(3,4) I(4,5) in \<open>auto simp: cl_list_def cl_view_def\<close>)
    with True pc size buf(1) show ?thesis by simp
  qed
qed

lemma inv_push_put:
  assumes inv: "cl_inv s" and pc: "cl_owner s = OPut x b"
  shows "\<exists>s'. owner_step (cl_owner s) s = Some s' \<and> cl_inv s'"
proof -
  let ?d = "cl_dq s"
  note I = cl_invD [OF inv] and D = wf_dqD [OF cl_invD(1) [OF inv]]
  have ok: "b = dq_bottom ?d" "b - dq_top ?d < int (db_cap (dq_buffer ?d))" using I(2) pc by simp_all
  have v: "cl_view s = ?d" using pc by (simp add: cl_view_def)
  have wb: "wf_buf (dq_buffer ?d)" using D(1) by simp
  obtain buf where buf: "DequeBuffer_put b x (dq_buffer ?d) = Some buf" "wf_buf buf"
    "db_cap buf = db_cap (dq_buffer ?d)" "DequeBuffer_get buf b = Some x"
    "\<forall>j. b \<noteq> j \<longrightarrow> b - j < int (db_cap (dq_buffer ?d)) \<longrightarrow> j - b < int (db_cap (dq_buffer ?d)) \<longrightarrow>
      DequeBuffer_get buf j = DequeBuffer_get (dq_buffer ?d) j"
    using get_put [OF wb, of b x] by blast
  have old: "DequeBuffer_get buf i = DequeBuffer_get (dq_buffer ?d) i" if "dq_top ?d \<le> i" "i < b" for i
    using buf(5) ok that by simp
  let ?s = "s\<lparr>cl_dq := ?d\<lparr>dq_buffer := buf\<rparr>, cl_owner := OStore x b\<rparr>"
  note W = wf_dq_cong [OF I(1) [unfolded v], of "?d\<lparr>dq_buffer := buf\<rparr>"]
  have W': "wf_dq (?d\<lparr>dq_buffer := buf\<rparr>)" "dq_list (?d\<lparr>dq_buffer := buf\<rparr>) = dq_list ?d"
    by (rule W; use buf ok old in auto)+
  have "cl_inv ?s"
    by (rule owner_inv_step [OF inv])
      (use W' pc ok buf(3,4) old I(4,5) in \<open>auto simp: cl_list_def cl_view_def\<close>)
  with pc buf(1) show ?thesis by simp
qed

lemma inv_push_store:
  assumes inv: "cl_inv s" and pc: "cl_owner s = OStore x b" and small: "length (cl_hist s) < 2 ^ 62"
  shows "\<exists>s'. owner_step (cl_owner s) s = Some s' \<and> cl_inv s'"
proof -
  let ?d = "cl_dq s"
  note I = cl_invD [OF inv] and D = wf_dqD [OF cl_invD(1) [OF inv]]
  have ok: "b = dq_bottom ?d" "b - dq_top ?d < int (db_cap (dq_buffer ?d))"
    "DequeBuffer_get (dq_buffer ?d) b = Some x" using I(2) pc by auto
  have v: "cl_view s = ?d" using pc by (simp add: cl_view_def)
  have b: "0 \<le> b" "b < 2 ^ 62" using I(5) pc small ok(1) D(2,3) v by simp_all
  let ?d' = "?d\<lparr>dq_bottom := b + 1\<rparr>"
  let ?s = "s\<lparr>cl_dq := ?d', cl_owner := OIdle, cl_hist := cl_hist s @ [(Push x, [])]\<rparr>"
  have get: "DequeBuffer_get (dq_buffer ?d) i \<noteq> None" if "dq_top ?d \<le> i" "i < b + 1" for i
    using that ok(1,3) D(6) [of i] v by (cases "i = b") auto
  have wf: "wf_dq ?d'" using D b ok get v by (auto simp: wf_dq_def)
  have l: "dq_list ?d' = dq_list ?d @ [x]"
  proof -
    have "dq_top ?d \<le> b" using D(3) v ok(1) by simp
    then have "[dq_top ?d..b] = [dq_top ?d..b - 1] @ [b]" by (rule upto_snoc)
    with ok show ?thesis by (simp add: dq_list_def elem_at_def)
  qed
  have h: "hist_ok (cl_hist s @ [(Push x, [])]) (dq_list ?d')"
    using hist_ok_snoc [OF I(4), of "Push x" "[]"] l v by (simp add: cl_list_def)
  have "cl_inv ?s"
    by (rule owner_inv_step [OF inv])
      (use wf h pc ok I(5) in \<open>auto simp: cl_list_def cl_view_def\<close>)
  with pc b show ?thesis by (simp add: isize_chk_def)
qed

lemma owner_inv_view:
  assumes "cl_inv s" "cl_view s' = cl_view s" "cl_thief s' = cl_thief s" "cl_alloc s' = cl_alloc s"
    "owner_ok (cl_owner s') (cl_dq s')" "hist_ok (cl_hist s') (cl_list s)"
    "length (cl_hist s) \<le> length (cl_hist s')"
    "\<And>t. t \<le> dq_top (cl_dq s) \<Longrightarrow> t < steal_limit (cl_owner s) (cl_dq s) \<Longrightarrow> t < steal_limit (cl_owner s') (cl_dq s')"
  shows "cl_inv s'"
proof -
  have same: "dq_top (cl_dq s') = dq_top (cl_dq s)" "dq_buffer (cl_dq s') = dq_buffer (cl_dq s)"
    using assms(2) cl_view_simps(1,2) by metis+
  have "cl_list s' = cl_list s" by (simp add: cl_list_def assms(2))
  moreover have "dq_bottom (cl_view s') \<le> int (length (cl_hist s'))"
    using cl_invD(5) [OF assms(1)] assms(7) unfolding assms(2) by simp
  ultimately show ?thesis
    using assms(3-8) cl_invD(1) [OF assms(1)] same
    by (intro owner_inv_step [OF assms(1)]) (simp_all add: assms(2))
qed

text \<open>The steps of \<open>pop\<close>.\<close>

lemma inv_pop_claim:
  assumes inv: "cl_inv s" and pc: "cl_owner s = OPopping"
  shows "\<exists>s'. owner_step (cl_owner s) s = Some s' \<and> cl_inv s'"
proof -
  let ?d = "cl_dq s"
  note I = cl_invD [OF inv] and D = wf_dqD [OF cl_invD(1) [OF inv]]
  let ?b = "dq_bottom ?d - 1"
  let ?s = "s\<lparr>cl_dq := ?d\<lparr>dq_bottom := ?b\<rparr>, cl_owner := OClaimed ?b\<rparr>"
  have v: "cl_view ?s = cl_view s" using pc by (simp add: cl_view_def)
  have "pop_claim ?d = Some (?b, ?d\<lparr>dq_bottom := ?b\<rparr>)"
    using D(2,3,4) pc by (simp add: pop_claim_def isize_chk_def)
  moreover have "cl_inv ?s"
    by (rule owner_inv_view [OF inv v]) (use pc I(4) in auto)
  ultimately show ?thesis using pc by simp
qed

lemma hist_empty_pop:
  assumes "hist_ok h []" shows "hist_ok (h @ [(Pop, [])]) []"
  using hist_ok_snoc [OF assms, of Pop] by simp

lemma inv_pop_look:
  assumes inv: "cl_inv s" and pc: "cl_owner s = OClaimed b"
  shows "\<exists>s'. owner_step (cl_owner s) s = Some s' \<and> cl_inv s'"
proof -
  let ?d = "cl_dq s"
  note I = cl_invD [OF inv] and D = wf_dqD [OF cl_invD(1) [OF inv]]
  have b: "b = dq_bottom ?d" using I(2) pc by simp
  show ?thesis
  proof (cases "dq_top ?d \<le> b")
    case True
    have "DequeBuffer_get (dq_buffer ?d) b \<noteq> None" using D(6) [of b] True b pc by simp
    then have "cl_inv (s\<lparr>cl_owner := ORead b (dq_top ?d)\<rparr>)"
      by (intro owner_inv_move [OF inv]) (use pc b True in \<open>auto simp: Let_def\<close>)
    with True pc show ?thesis by simp
  next
    case False
    then have top: "dq_top ?d = b + 1" using D(3) pc b by simp
    then have e: "cl_list s = []" using pc b by (simp add: cl_list_def dq_list_def)
    let ?s = "s\<lparr>cl_owner := ORestore b, cl_hist := cl_hist s @ [(Pop, [])]\<rparr>"
    have v: "cl_view ?s = cl_view s" using pc by (simp add: cl_view_def)
    have "cl_inv ?s"
      by (rule owner_inv_view [OF inv v]) (use pc b top hist_empty_pop [of "cl_hist s"] I(4) e in auto)
    with False pc show ?thesis by simp
  qed
qed

lemma dq_list_snoc:
  assumes "dq_top d \<le> b" "dq_bottom d = b + 1"
  shows "dq_list d = dq_list (d\<lparr>dq_bottom := b\<rparr>) @ [elem_at d b]"
proof -
  have "[dq_top d..b] = [dq_top d..b - 1] @ [b]" using assms(1) by (rule upto_snoc)
  with assms(2) show ?thesis by (simp add: dq_list_def elem_at_def)
qed

lemma inv_pop_read:
  assumes inv: "cl_inv s" and pc: "cl_owner s = ORead b t"
  shows "\<exists>s'. owner_step (cl_owner s) s = Some s' \<and> cl_inv s'"
proof -
  let ?d = "cl_dq s"
  note I = cl_invD [OF inv] and D = wf_dqD [OF cl_invD(1) [OF inv]]
  have ok: "b = dq_bottom ?d" "t \<le> b" "t < b \<Longrightarrow> dq_top ?d \<le> b" "t \<le> dq_top ?d"
    "DequeBuffer_get (dq_buffer ?d) b \<noteq> None" using I(2) pc by auto
  then obtain val where val: "DequeBuffer_get (dq_buffer ?d) b = Some val" by auto
  show ?thesis
  proof (cases "t = b")
    case True
    have "cl_inv (s\<lparr>cl_owner := ORace b val\<rparr>)"
      by (rule owner_inv_move [OF inv]) (use pc ok val True in auto)
    with True pc val show ?thesis by simp
  next
    case False
    with ok have top: "dq_top ?d \<le> b" by simp
    let ?s = "s\<lparr>cl_owner := OIdle, cl_hist := cl_hist s @ [(Pop, [val])]\<rparr>"
    have v: "cl_view s = ?d\<lparr>dq_bottom := b + 1\<rparr>" using pc ok(1) by (simp add: cl_view_def)
    have l: "cl_list s = dq_list ?d @ [val]"
      using dq_list_snoc [of "cl_view s" b] top v val ok(1) by (simp add: cl_list_def elem_at_def)
    have wf: "wf_dq ?d" using D top ok(1) v by (auto simp: wf_dq_def)
    have h: "hist_ok (cl_hist s @ [(Pop, [val])]) (dq_list ?d)"
      by (rule hist_ok_snoc [OF I(4)]) (simp add: l)
    have "cl_inv ?s"
      by (rule owner_inv_step [OF inv])
        (use wf h pc ok False I(5) in \<open>auto simp: cl_list_def cl_view_def\<close>)
    with False pc val show ?thesis by simp
  qed
qed

lemma inv_pop_race:
  assumes inv: "cl_inv s" and pc: "cl_owner s = ORace b val"
  shows "\<exists>s'. owner_step (cl_owner s) s = Some s' \<and> cl_inv s'"
proof -
  let ?d = "cl_dq s"
  note I = cl_invD [OF inv] and D = wf_dqD [OF cl_invD(1) [OF inv]]
  have ok: "b = dq_bottom ?d" "b \<le> dq_top ?d" "DequeBuffer_get (dq_buffer ?d) b = Some val"
    using I(2) pc by auto
  have v: "cl_view s = ?d\<lparr>dq_bottom := b + 1\<rparr>" using pc ok(1) by (simp add: cl_view_def)
  have chk: "isize_chk (b + 1) = Some (b + 1)" using D(2,3,4) ok v by (simp add: isize_chk_def)
  show ?thesis
  proof (cases "dq_top ?d = b")
    case True
    let ?d' = "?d\<lparr>dq_top := b + 1\<rparr>"
    let ?s = "s\<lparr>cl_dq := ?d', cl_owner := ORestore b, cl_hist := cl_hist s @ [(Pop, [val])]\<rparr>"
    have l: "cl_list s = [val]"
      using v ok(3) True by (simp add: cl_list_def dq_list_def elem_at_def)
    have h: "hist_ok (cl_hist s @ [(Pop, [val])]) []"
      by (rule hist_ok_snoc [OF I(4)]) (simp add: l)
    have vs: "cl_view ?s = ?d'\<lparr>dq_bottom := b + 1\<rparr>" using ok(1) by (simp add: cl_view_def)
    then have e: "dq_list (cl_view ?s) = []" by (simp add: dq_list_def)
    have wf: "wf_dq (cl_view ?s)" unfolding vs using D ok True v by (auto simp: wf_dq_def)
    have "cl_inv ?s"
      by (rule owner_inv_step [OF inv])
        (use wf h e pc ok True I(5) in \<open>auto simp: cl_list_def\<close>)
    with True pc chk show ?thesis by (simp add: cas_top_def)
  next
    case False
    then have top: "dq_top ?d = b + 1" using D(3) ok v by simp
    then have e: "cl_list s = []" using v by (simp add: cl_list_def dq_list_def)
    let ?s = "s\<lparr>cl_owner := ORestore b, cl_hist := cl_hist s @ [(Pop, [])]\<rparr>"
    have vs: "cl_view ?s = cl_view s" using pc by (simp add: cl_view_def)
    have "cl_inv ?s"
      by (rule owner_inv_view [OF inv vs]) (use pc ok top hist_empty_pop [of "cl_hist s"] I(4) e in auto)
    with False pc chk show ?thesis by (simp add: cas_top_def)
  qed
qed

lemma inv_pop_restore:
  assumes inv: "cl_inv s" and pc: "cl_owner s = ORestore b"
  shows "\<exists>s'. owner_step (cl_owner s) s = Some s' \<and> cl_inv s'"
proof -
  let ?d = "cl_dq s"
  note I = cl_invD [OF inv] and D = wf_dqD [OF cl_invD(1) [OF inv]]
  have ok: "b = dq_bottom ?d" "dq_top ?d = b + 1" using I(2) pc by auto
  have chk: "isize_chk (b + 1) = Some (b + 1)" using D(2,3,4) ok pc by (simp add: isize_chk_def)
  let ?s = "s\<lparr>cl_dq := ?d\<lparr>dq_bottom := b + 1\<rparr>, cl_owner := OIdle\<rparr>"
  have v: "cl_view ?s = cl_view s" using pc ok(1) by (simp add: cl_view_def)
  have "cl_inv ?s"
    by (rule owner_inv_view [OF inv v]) (use pc ok I(4) in auto)
  with pc chk show ?thesis by simp
qed

lemma owner_step_inv:
  assumes "cl_inv s" "length (cl_hist s) < 2 ^ 62"
  shows "\<exists>s'. owner_step (cl_owner s) s = Some s' \<and> cl_inv s'"
proof (cases "cl_owner s")
  case OIdle
  with assms show ?thesis by simp
next
  case (OPushing x)
  have "wf_dq (cl_dq s)" "0 \<le> dq_top (cl_dq s)"
    using cl_invD(1) [OF assms(1)] OPushing wf_dqD(2) by (auto simp: cl_view_def)
  then have "cl_inv (s\<lparr>cl_owner := OPush x (dq_bottom (cl_dq s)) (dq_top (cl_dq s))\<rparr>)"
    by (intro owner_inv_move [OF assms(1)]) (use OPushing in auto)
  with OPushing show ?thesis by simp
qed (use assms in \<open>blast intro: inv_push_look inv_push_put inv_push_store inv_pop_claim
  inv_pop_look inv_pop_read inv_pop_race inv_pop_restore\<close>)+

section \<open>Steps of the thieves\<close>

text \<open>A thief that moves without changing the deque.\<close>

lemma thief_inv_move:
  assumes inv: "cl_inv s" and ok: "thief_ok pc s"
  shows "cl_inv (set_thief k pc s)"
proof -
  have "thief_ok pc' (set_thief k pc s) = thief_ok pc' s" for pc' :: "'a thief_pc" by (cases pc') simp_all
  with ok cl_invD(3) [OF inv] have "\<forall>j. thief_ok (cl_thief (set_thief k pc s) j) (set_thief k pc s)" by simp
  then show ?thesis using inv by (simp add: cl_inv_def cl_list_def)
qed

lemma steal_limit_le: "owner_ok pc d \<Longrightarrow> steal_limit pc d \<le> dq_bottom d + pending pc"
  by (cases pc) auto

lemma top_in_contents:
  assumes "cl_inv s" "dq_top (cl_dq s) < steal_limit (cl_owner s) (cl_dq s)"
  shows "dq_top (cl_dq s) < dq_bottom (cl_view s)"
    "DequeBuffer_get (dq_buffer (cl_dq s)) (dq_top (cl_dq s)) = Some (elem_at (cl_view s) (dq_top (cl_dq s)))"
proof -
  show l: "dq_top (cl_dq s) < dq_bottom (cl_view s)"
    using assms(2) steal_limit_le [OF cl_invD(2) [OF assms(1)]] by simp
  show "DequeBuffer_get (dq_buffer (cl_dq s)) (dq_top (cl_dq s)) = Some (elem_at (cl_view s) (dq_top (cl_dq s)))"
    using wf_dqD(6) [OF cl_invD(1) [OF assms(1)], of "dq_top (cl_dq s)"] l by simp
qed

text \<open>The successful compare-exchange of a thief takes the first element of the contents.\<close>

lemma inv_steal_won:
  assumes inv: "cl_inv s" and top: "dq_top (cl_dq s) < steal_limit (cl_owner s) (cl_dq s)"
    and val: "DequeBuffer_get (dq_buffer (cl_dq s)) (dq_top (cl_dq s)) = Some x"
  shows "cl_inv (s\<lparr>cl_dq := (cl_dq s)\<lparr>dq_top := dq_top (cl_dq s) + 1\<rparr>, cl_hist := cl_hist s @ [(Steal, [x])]\<rparr>)"
    (is "cl_inv ?s")
proof -
  let ?d = "cl_dq s"
  note I = cl_invD [OF inv] and D = wf_dqD [OF cl_invD(1) [OF inv]] and T = top_in_contents [OF inv top]
  have v: "cl_view ?s = (cl_view s)\<lparr>dq_top := dq_top ?d + 1\<rparr>" by (simp add: cl_view_def)
  have l: "cl_list s = x # cl_list ?s"
  proof -
    have "elem_at (cl_view s) (dq_top ?d) = x" using T(2) val by simp
    moreover have "elem_at (cl_view ?s) = elem_at (cl_view s)" by (simp add: v fun_eq_iff elem_at_def)
    ultimately show ?thesis using dq_list_Cons [of "cl_view s"] T(1) by (simp add: cl_list_def dq_list_def v)
  qed
  have h: "hist_ok (cl_hist ?s) (cl_list ?s)"
    using hist_ok_snoc [OF I(4), of Steal "[x]" "cl_list ?s"] l by simp
  have wf: "wf_dq (cl_view ?s)" unfolding v using D T(1) by (auto simp: wf_dq_def)
  have own: "owner_ok (cl_owner s) (cl_dq ?s)"
    using I(2) top T(1) by (cases "cl_owner s") auto
  have lim: "steal_limit (cl_owner s) (cl_dq ?s) = steal_limit (cl_owner s) ?d"
    by (cases "cl_owner s") auto
  show ?thesis
    by (rule owner_inv_step [OF inv]) (use wf own lim h I(5,6) in \<open>simp_all add: v\<close>)
qed

lemma thief_step_inv:
  assumes inv: "cl_inv s"
  shows "\<exists>s'. thief_step k (cl_thief s k) s = Some s' \<and> cl_inv s'"
proof -
  let ?d = "cl_dq s"
  note I = cl_invD [OF inv] and D = wf_dqD [OF cl_invD(1) [OF inv]]
  show ?thesis
  proof (cases "cl_thief s k")
    case TIdle
    with inv show ?thesis by simp
  next
    case TStart
    from D(2) have "thief_ok (TTop (dq_top ?d)) s" by simp
    from thief_inv_move [OF inv this] TStart show ?thesis by simp
  next
    case (TTop t)
    have "dq_bottom ?d \<le> steal_limit (cl_owner s) ?d" using I(2) by (cases "cl_owner s") auto
    with I(3) [of k] TTop have "thief_ok (if t < dq_bottom ?d then TGo t else TIdle) s" by auto
    from thief_inv_move [OF inv this] TTop show ?thesis by simp
  next
    case (TGo t)
    with I(3) [of k] have "thief_ok (TPtr t (cl_alloc s)) s" by simp
    from thief_inv_move [OF inv this] TGo show ?thesis by simp
  next
    case (TPtr t n)
    with I(3) [of k] have "thief_ok (if n = cl_alloc s then TVal t (DequeBuffer_get (dq_buffer ?d) t) else TFreed) s"
      by simp
    from thief_inv_move [OF inv this] TPtr show ?thesis by simp
  next
    case TFreed
    with inv show ?thesis by simp
  next
    case (TVal t val)
    with I(3) [of k] have t: "0 \<le> t" "t \<le> dq_top ?d" "t < steal_limit (cl_owner s) ?d"
      "t = dq_top ?d \<Longrightarrow> val = DequeBuffer_get (dq_buffer ?d) t" by auto
    have chk: "isize_chk (t + 1) = Some (t + 1)"
      using t(1,3) D(4) steal_limit_le [OF I(2)] by (simp add: isize_chk_def)
    show ?thesis
    proof (cases "dq_top ?d = t")
      case False
      have "cl_inv (set_thief k TIdle s)" by (rule thief_inv_move [OF inv]) simp
      with False TVal chk show ?thesis by (simp add: cas_top_def)
    next
      case True
      with t have lim: "dq_top ?d < steal_limit (cl_owner s) ?d" by simp
      then obtain x where x: "DequeBuffer_get (dq_buffer ?d) (dq_top ?d) = Some x"
        using top_in_contents(2) [OF inv] by blast
      have "cl_inv (set_thief k TIdle (s\<lparr>cl_dq := ?d\<lparr>dq_top := dq_top ?d + 1\<rparr>,
          cl_hist := cl_hist s @ [(Steal, [x])]\<rparr>))"
        by (rule thief_inv_move [OF inv_steal_won [OF inv lim x]]) simp
      with True TVal chk t(4) x show ?thesis by (simp add: cas_top_def)
    qed
  qed
qed

section \<open>Reachable states\<close>

lemma cl_init_inv: "\<exists>s :: 'a cl. cl_init = Some s \<and> cl_inv s \<and> cl_list s = [] \<and> cl_hist s = []"
proof -
  obtain d :: "'a deque_inner" where d: "deque = Some d" "wf_dq d" "dq_list d = []" "dq_bottom d = 0"
    using deque_wf by blast
  let ?s = "\<lparr>cl_dq = d, cl_alloc = 0, cl_owner = OIdle, cl_thief = (\<lambda>k. TIdle), cl_hist = []\<rparr>"
  have "db_cap (dq_buffer d) = 64"
    using d(1) by (auto simp: deque_def DequeBuffer_new_def MIN_CAPACITY_zeros Let_def split: Option.bind_splits)
  moreover have v: "cl_view ?s = d" using d(4) by (cases d) (simp add: cl_view_def)
  ultimately have "cl_inv ?s" using d unfolding cl_inv_def cl_list_def v hist_ok_def by simp
  moreover have "cl_init = Some ?s" unfolding cl_init_def d(1) by simp
  moreover have "cl_list ?s = []" unfolding cl_list_def v by (rule d(3))
  ultimately show ?thesis by auto
qed

lemma cl_step_hist: "cl_step s s' \<Longrightarrow> length (cl_hist s) \<le> length (cl_hist s')"
proof (induction rule: cl_step.induct)
  case (owner s s')
  then show ?case
    by (cases "cl_owner s") (auto simp: Let_def split: Option.bind_splits if_splits prod.splits)
next
  case (thief k s s')
  then show ?case
    by (cases "cl_thief s k") (auto simp: Let_def split: Option.bind_splits if_splits prod.splits)
qed simp_all

lemma cl_step_inv:
  assumes "cl_step s s'" "cl_inv s" "length (cl_hist s) < 2 ^ 62"
  shows "cl_inv s'"
  using assms
proof (induction rule: cl_step.induct)
  case (owner s s')
  with owner_step_inv [of s] show ?case by auto
next
  case (thief k s s')
  with thief_step_inv [of s k] show ?case by auto
next
  case (begin_steal s k)
  then show ?case by (intro thief_inv_move) simp_all
qed (auto intro: owner_inv_move)

lemma cl_reach_inv:
  assumes "cl_step\<^sup>*\<^sup>* s0 s" "cl_inv s0" "length (cl_hist s) < 2 ^ 62"
  shows "cl_inv s"
  using assms
proof (induction rule: rtranclp_induct)
  case (step s1 s2)
  from cl_step_hist [OF step.hyps(2)] step.prems(2) have "length (cl_hist s1) < 2 ^ 62" by linarith
  with step show ?case by (blast intro: cl_step_inv)
qed

text \<open>
  The steps are those of the operations: an owner that runs undisturbed through its steps
  of a push or a pop, and a thief through those of a steal, computes what the whole operation
  computes, panics included.
\<close>

theorem pieces_equal_operations:
  assumes "cl_owner s1 = OPushing x" "cl_owner s2 = OPopping" "dq_bottom (cl_dq s2) < 2 ^ 63"
    "cl_thief s3 k = TStart"
  shows "map_option cl_dq (owner_alone 4 s1) = Worker_push x (cl_dq s1)
    \<and> map_option (\<lambda>s'. (cl_hist s', cl_dq s')) (owner_alone 5 s2)
      = map_option (\<lambda>(r, d). (cl_hist s2 @ [(Pop, opt_list r)], d)) (Worker_pop (cl_dq s2))
    \<and> map_option (\<lambda>s'. (cl_hist s', cl_dq s')) (thief_alone k 5 s3)
      = map_option (\<lambda>(r, d). (cl_hist s3 @ map (Pair Steal) (map (\<lambda>x. [x]) (opt_list r)), d))
          (Stealer_steal (cl_dq s3))"
  using push_pieces [OF assms(1)] pop_pieces [OF assms(2,3)] steal_pieces [OF assms(4)] by blast


text \<open>
  A run for the witness: one element is pushed, the thief 3 gets ready to take it, the owner
  claims it and both race for it; the thief wins.
\<close>

definition start_owner :: "'a owner_pc \<Rightarrow> 'a cl \<Rightarrow> 'a cl option" where
  "start_owner pc s = (case cl_owner s of OIdle \<Rightarrow> Some (s\<lparr>cl_owner := pc\<rparr>) | _ \<Rightarrow> None)"

definition start_thief :: "addr \<Rightarrow> 'a cl \<Rightarrow> 'a cl option" where
  "start_thief k s = (case cl_thief s k of TIdle \<Rightarrow> Some (set_thief k TStart s) | _ \<Rightarrow> None)"

lemma start_steps:
  "start_owner (OPushing x) s = Some s' \<Longrightarrow> cl_step s s'"
  "start_owner OPopping s = Some s' \<Longrightarrow> cl_step s s'"
  "start_thief k s = Some s' \<Longrightarrow> cl_step s s'"
  by (auto simp: start_owner_def start_thief_def intro: cl_step.intros
    split: owner_pc.splits thief_pc.splits)





definition cl_start :: "nat cl" where
  "cl_start = \<lparr>cl_dq = the deque, cl_alloc = 0, cl_owner = OPushing 5, cl_thief = (\<lambda>k. TStart), cl_hist = []\<rparr>"

theorem pieces_equal_operations_witness:
  "map_option cl_dq (owner_alone 4 cl_start) = Worker_push 5 (cl_dq cl_start)"
proof -
  have "dq_bottom (cl_dq cl_start) = 0" by code_simp
  then show ?thesis
    using pieces_equal_operations [of cl_start 5 "cl_start\<lparr>cl_owner := OPopping\<rparr>" cl_start 3]
    by (simp add: cl_start_def)
qed

section \<open>Growing under a thief\<close>

lemma put_cap: "DequeBuffer_put i x buf = Some buf' \<Longrightarrow> db_cap buf' = db_cap buf"
  by (auto simp: DequeBuffer_put_def split: Option.bind_splits)

lemma push_alone:
  assumes "cl_owner s = OPushing x" "owner_alone 4 s = Some s'"
  shows "cl_owner s' = OIdle" "cl_thief s' = cl_thief s" "cl_hist s' = cl_hist s @ [(Push x, [])]"
    "dq_top (cl_dq s') = dq_top (cl_dq s)" "cl_alloc s \<le> cl_alloc s'"
    "cl_alloc s' = cl_alloc s \<Longrightarrow> db_cap (dq_buffer (cl_dq s')) = db_cap (dq_buffer (cl_dq s))"
    "dq_bottom (cl_dq s) - dq_top (cl_dq s) < int (db_cap (dq_buffer (cl_dq s))) \<Longrightarrow> cl_alloc s' = cl_alloc s"
  using assms
  by (auto simp: eval_nat_numeral Let_def isize_chk_def put_cap split: Option.bind_splits if_splits)

text \<open>A push of the owner alone, and any number of them.\<close>

lemma push_reaches1:
  assumes "cl_inv s" "cl_owner s = OIdle" "length (cl_hist s) + 1 < 2 ^ 62"
  shows "\<exists>s'. cl_step\<^sup>*\<^sup>* s s' \<and> cl_inv s' \<and> owner_alone 4 (s\<lparr>cl_owner := OPushing undefined\<rparr>) = Some s'
    \<and> dq_bottom (cl_dq s') = dq_bottom (cl_dq s) + 1"
proof -
  let ?s = "s\<lparr>cl_owner := OPushing undefined\<rparr>"
  have b: "dq_bottom (cl_dq ?s) < 2 ^ 62" "wf_dq (cl_dq ?s)"
    using cl_invD(1,5) [OF assms(1)] assms(2,3) by (simp_all add: cl_view_def)
  from push_list [OF b(2,1), of undefined] obtain d where
    d: "Worker_push undefined (cl_dq ?s) = Some d" "dq_bottom d = dq_bottom (cl_dq ?s) + 1" by blast
  with push_pieces [of ?s undefined] obtain s' where s': "owner_alone 4 ?s = Some s'" "cl_dq s' = d" by auto
  have run: "cl_step\<^sup>*\<^sup>* s s'"
    using cl_step.begin_push [OF assms(2)] owner_alone_steps [OF s'(1)] by (rule converse_rtranclp_into_rtranclp)
  have "cl_inv s'" by (rule cl_reach_inv [OF run assms(1)]) (use push_alone(3) [OF _ s'(1)] assms(3) in simp)
  with run s' d(2) show ?thesis by auto
qed

lemma push_reaches:
  assumes "cl_inv s" "cl_owner s = OIdle" "length (cl_hist s) + n < 2 ^ 62"
  shows "\<exists>s'. cl_step\<^sup>*\<^sup>* s s' \<and> cl_inv s' \<and> cl_owner s' = OIdle \<and> cl_thief s' = cl_thief s
    \<and> dq_top (cl_dq s') = dq_top (cl_dq s) \<and> dq_bottom (cl_dq s') = dq_bottom (cl_dq s) + int n
    \<and> length (cl_hist s') = length (cl_hist s) + n"
  using assms
proof (induction n arbitrary: s)
  case (Suc n)
  then obtain s1 where s1: "cl_step\<^sup>*\<^sup>* s s1" "cl_inv s1"
    "owner_alone 4 (s\<lparr>cl_owner := OPushing undefined\<rparr>) = Some s1"
    "dq_bottom (cl_dq s1) = dq_bottom (cl_dq s) + 1" using push_reaches1 [of s] by auto
  note P = push_alone [OF _ s1(3), of undefined]
  from Suc.IH [OF s1(2)] P(1,3) Suc.prems(3) obtain s' where s': "cl_step\<^sup>*\<^sup>* s1 s'" "cl_inv s'"
    "cl_owner s' = OIdle" "cl_thief s' = cl_thief s1" "dq_top (cl_dq s') = dq_top (cl_dq s1)"
    "dq_bottom (cl_dq s') = dq_bottom (cl_dq s1) + int n" "length (cl_hist s') = length (cl_hist s1) + n" by auto
  with P(2-4) s1(4) rtranclp_trans [OF s1(1) s'(1)] show ?case by (intro exI [of _ s']) simp
qed (auto intro: exI [of _ s])

text \<open>
  C40: Freed memory is read: a thief that has loaded the pointer to the array reads through it
  after the owner has pushed more elements than the array holds, and growing has freed the array.
\<close>

theorem steal_reads_freed_array:
  "\<exists>s0 s :: 'a cl. cl_init = Some s0 \<and> cl_step\<^sup>*\<^sup>* s0 s \<and> length (cl_hist s) = 65
    \<and> cl_thief s k = TFreed"
proof -
  obtain s0 :: "'a cl" where s0: "cl_init = Some s0" "cl_inv s0" "cl_hist s0 = []"
    using cl_init_inv [where 'a = 'a] by blast
  have start: "cl_owner s0 = OIdle" "cl_thief s0 k = TIdle" "dq_top (cl_dq s0) = 0"
    "dq_bottom (cl_dq s0) = 0" "cl_alloc s0 = 0"
    using s0(1) by (auto simp: cl_init_def deque_def split: Option.bind_splits)
  obtain s1 where s1: "cl_step\<^sup>*\<^sup>* s0 s1" "cl_inv s1"
    "owner_alone 4 (s0\<lparr>cl_owner := OPushing undefined\<rparr>) = Some s1" "dq_bottom (cl_dq s1) = 1"
    using push_reaches1 [OF s0(2) start(1)] s0(3) start(4) by auto
  note P = push_alone [OF _ s1(3), of undefined]
  have alloc: "cl_alloc s1 = 0" using P(7) cl_invD(6) [OF s0(2)] start by simp
  let ?s2 = "set_thief k (TPtr 0 0) (set_thief k (TGo 0) (set_thief k (TTop 0) (set_thief k TStart s1)))"
  have "start_thief k s1 = Some (set_thief k TStart s1)" using P(2) start(2) by (simp add: start_thief_def)
  moreover have "thief_alone k 3 (set_thief k TStart s1) = Some ?s2"
    using P(4) start(3) s1(4) alloc by (simp add: eval_nat_numeral)
  ultimately have run2: "cl_step\<^sup>*\<^sup>* s1 ?s2"
    by (blast intro: converse_rtranclp_into_rtranclp dest: start_steps(3) thief_alone_steps)
  have len: "length (cl_hist s1) = 1" using P(3) s0(3) by simp
  then have "cl_inv ?s2" by (intro cl_reach_inv [OF run2 s1(2)]) simp
  then obtain s3 where s3: "cl_step\<^sup>*\<^sup>* ?s2 s3" "cl_inv s3" "cl_owner s3 = OIdle"
    "cl_thief s3 = cl_thief ?s2" "dq_top (cl_dq s3) = 0" "dq_bottom (cl_dq s3) = 65" "length (cl_hist s3) = 65"
    using push_reaches [of ?s2 64] P(1,4) start(3) s1(4) len by auto
  have "cl_alloc s3 \<noteq> 0"
    using wf_dqD(5) [OF cl_invD(1) [OF s3(2)]] cl_invD(6) [OF s3(2)] s3(3,5,6) by auto
  then have "thief_step k (cl_thief s3 k) s3 = Some (set_thief k TFreed s3)" by (simp add: s3(4))
  then have "cl_step s3 (set_thief k TFreed s3)" by (rule cl_step.thief)
  with s1(1) run2 s3(1) have "cl_step\<^sup>*\<^sup>* s0 (set_thief k TFreed s3)" by auto
  with s0(1) s3(7) show ?thesis by (intro exI [of _ s0] exI [of _ "set_thief k TFreed s3"]) simp
qed

end
