(* ===== verification/Executor.thy ===== *)
theory Executor
  imports RunQueue Stealer
begin

text \<open>
  The per-core executor, \<open>src/task/executor.rs\<close>: the loop that drains the run queue into the
  work-stealing deque, polls tasks with a quantum, and steals when there is nothing to do. What
  polling a future does is not part of the sources: it is the parameter \<open>poll\<close>, which takes the
  address of the task (its waker carries nothing else) and the tasks, and says whether the future
  is ready. The other cores' deques are seen through their stealers and are distinct from this
  core's own.
\<close>

section \<open>State\<close>

record ('f, 'w) executor =
  ex_core_id :: u32
  ex_worker :: "addr deque_inner"
  ex_stealers :: "addr deque_inner list"
  ex_run_queue :: run_queue
  ex_default_quantum :: i32
  ex_should_halt :: bool
  ex_polls_executed :: u64
  ex_tasks_completed :: u64
  ex_steals_attempted :: u64
  ex_steals_succeeded :: u64
  ex_idle_cycles :: u64
  ex_tasks :: "('f, 'w) task_heap"

type_synonym ('f, 'w) future_poll = "addr \<Rightarrow> ('f, 'w) task_heap \<Rightarrow> bool \<times> ('f, 'w) task_heap"

definition Executor_new ::
  "u32 \<Rightarrow> addr deque_inner \<Rightarrow> addr deque_inner list \<Rightarrow> i32 \<Rightarrow> ('f, 'w) task_heap \<Rightarrow> ('f, 'w) executor" where
  "Executor_new core_id worker stealers default_quantum h = \<lparr>
     ex_core_id = core_id,
     ex_worker = worker,
     ex_stealers = stealers,
     ex_run_queue = RunQueue_new,
     ex_default_quantum = default_quantum,
     ex_should_halt = False,
     ex_polls_executed = 0,
     ex_tasks_completed = 0,
     ex_steals_attempted = 0,
     ex_steals_succeeded = 0,
     ex_idle_cycles = 0,
     ex_tasks = h\<rparr>"

definition bootstrap_executor ::
  "u32 \<Rightarrow> addr deque_inner \<Rightarrow> addr deque_inner list \<Rightarrow> ('f, 'w) task_heap \<Rightarrow> ('f, 'w) executor" where
  "bootstrap_executor core_id worker stealers h = Executor_new core_id worker stealers 10 h"

section \<open>Operations\<close>

definition upd_task :: "addr \<Rightarrow> (('f, 'w) tcb \<Rightarrow> ('f, 'w) tcb) \<Rightarrow> ('f, 'w) executor \<Rightarrow> ('f, 'w) executor" where
  "upd_task t f s = s\<lparr>ex_tasks := (ex_tasks s)(t := f (ex_tasks s t))\<rparr>"

definition enqueue_task :: "addr \<Rightarrow> ('f, 'w) executor \<Rightarrow> ('f, 'w) executor option" where
  "enqueue_task t s = do { (h, rq) \<leftarrow> RunQueue_enqueue t (ex_tasks s, ex_run_queue s);
     Some (s\<lparr>ex_tasks := h, ex_run_queue := rq\<rparr>) }"

definition worker_push :: "addr \<Rightarrow> ('f, 'w) executor \<Rightarrow> ('f, 'w) executor option" where
  "worker_push t s = do { d \<leftarrow> Worker_push t (ex_worker s); Some (s\<lparr>ex_worker := d\<rparr>) }"

partial_function (option) drain_run_queue :: "('f, 'w) executor \<Rightarrow> ('f, 'w) executor option" where
  "drain_run_queue s = do {
     (t, h, rq) \<leftarrow> RunQueue_dequeue (ex_tasks s, ex_run_queue s);
     let s = s\<lparr>ex_tasks := h, ex_run_queue := rq\<rparr>;
     case t of None \<Rightarrow> Some s
     | Some task \<Rightarrow> do { s \<leftarrow> worker_push task s; drain_run_queue s } }"

text \<open>\<open>transition(...).expect(...)\<close>.\<close>

definition expect_transition ::
  "task_state \<Rightarrow> task_state \<Rightarrow> addr \<Rightarrow> ('f, 'w) executor \<Rightarrow> ('f, 'w) executor option" where
  "expect_transition from to t s = do {
     (r, cell) \<leftarrow> AtomicTaskState_transition from to (tc_state (ex_tasks s t));
     case r of Inl _ \<Rightarrow> None | Inr _ \<Rightarrow> Some (upd_task t (\<lambda>b. b\<lparr>tc_state := cell\<rparr>) s) }"

text \<open>The future is ready.\<close>

definition task_done :: "addr \<Rightarrow> ('f, 'w) executor \<Rightarrow> ('f, 'w) executor option" where
  "task_done t s = do {
     s \<leftarrow> expect_transition Running Dying t s;
     let s = upd_task t (\<lambda>b. b\<lparr>tc_state := AtomicTaskState_set Dead (tc_state b), tc_current_core := - 1\<rparr>) s;
     c \<leftarrow> add_chk (ex_tasks_completed s) 1;
     p \<leftarrow> add_chk (ex_polls_executed s) 1;
     Some (s\<lparr>ex_tasks_completed := c, ex_polls_executed := p\<rparr>) }"

text \<open>The priority decay, after a quantum; \<open>eff - 1\<close> wraps, \<open>base - 8\<close> and the count may overflow.\<close>

definition decay_priority :: "('f, 'w) tcb \<Rightarrow> ('f, 'w) tcb option" where
  "decay_priority b = do {
     decay \<leftarrow> add_chk (tc_decay_counter b) 1;
     let b = b\<lparr>tc_decay_counter := decay\<rparr>;
     if unat decay mod 4 = 0 then do {
       assert_that (- (2 ^ 31) \<le> sint (tc_base_priority b) - 8);
       Some (if tc_base_priority b - 8 <s tc_effective_priority b
         then b\<lparr>tc_effective_priority := tc_effective_priority b - 1\<rparr> else b) }
     else Some b }"

text \<open>The quantum is used up: back to ready and onto the deque, unless the task parked itself.\<close>

definition quantum_expired :: "addr \<Rightarrow> ('f, 'w) executor \<Rightarrow> ('f, 'w) executor option" where
  "quantum_expired t s = do {
     state \<leftarrow> AtomicTaskState_get (tc_state (ex_tasks s t));
     s \<leftarrow> (if state = Running then do {
            s \<leftarrow> expect_transition Running Ready t s;
            worker_push t (upd_task t (\<lambda>b. b\<lparr>tc_current_core := - 1\<rparr>) s) }
          else Some (upd_task t (\<lambda>b. b\<lparr>tc_current_core := - 1\<rparr>) s));
     b \<leftarrow> decay_priority (ex_tasks s t);
     Some (upd_task t (\<lambda>_. b) s) }"

partial_function (option) poll_loop ::
  "('f, 'w) future_poll \<Rightarrow> addr \<Rightarrow> ('f, 'w) executor \<Rightarrow> ('f, 'w) executor option" where
  "poll_loop poll t s = (let (ready, h) = poll t (ex_tasks s); s = s\<lparr>ex_tasks := h\<rparr> in
     if ready then task_done t s
     else do {
       p \<leftarrow> add_chk (ex_polls_executed s) 1;
       (remaining, b) \<leftarrow> TCB_consume_tick (ex_tasks s t);
       let s = upd_task t (\<lambda>_. b) (s\<lparr>ex_polls_executed := p\<rparr>);
       if remaining <=s 0 then quantum_expired t s else poll_loop poll t s })"

definition poll_task ::
  "('f, 'w) future_poll \<Rightarrow> addr \<Rightarrow> ('f, 'w) executor \<Rightarrow> ('f, 'w) executor option" where
  "poll_task poll t s = do {
     (r, cell) \<leftarrow> AtomicTaskState_transition Ready Running (tc_state (ex_tasks s t));
     case r of Inl _ \<Rightarrow> Some s
     | Inr _ \<Rightarrow> poll_loop poll t (upd_task t (\<lambda>b. TCB_reset_quantum (ex_default_quantum s)
         (b\<lparr>tc_state := cell, tc_current_core := ex_core_id s\<rparr>)) s) }"

text \<open>Stealing: the xorshift generator, the batch of up to 64, and the pushes.\<close>

definition victim_seed :: "u64 \<Rightarrow> u32" where
  "victim_seed polls = (let
     seed = ucast polls * 1664525 + 1013904223;
     seed = seed XOR push_bit 13 seed;
     seed = seed XOR drop_bit 17 seed
     in seed XOR push_bit 5 seed)"

definition pick_victim :: "('f, 'w) executor \<Rightarrow> nat option" where
  "pick_victim s = do { assert_that (ex_stealers s \<noteq> []);
     Some (unat (victim_seed (ex_polls_executed s)) mod length (ex_stealers s)) }"

fun worker_push_all :: "addr list \<Rightarrow> ('f, 'w) executor \<Rightarrow> ('f, 'w) executor option" where
  "worker_push_all [] s = Some s"
| "worker_push_all (t # ts) s = do { s \<leftarrow> worker_push t s; worker_push_all ts s }"

definition try_steal :: "('f, 'w) executor \<Rightarrow> (bool \<times> ('f, 'w) executor) option" where
  "try_steal s = (if ex_stealers s = [] then Some (False, s)
     else do {
       a \<leftarrow> add_chk (ex_steals_attempted s) 1;
       let s = s\<lparr>ex_steals_attempted := a\<rparr>;
       victim \<leftarrow> pick_victim s;
       d \<leftarrow> idx (ex_stealers s) victim;
       (batch, d) \<leftarrow> Stealer_steal_batch 64 d;
       ds \<leftarrow> upd (ex_stealers s) victim d;
       let s = s\<lparr>ex_stealers := ds\<rparr>;
       if batch = [] then Some (False, s)
       else do {
         a \<leftarrow> add_chk (ex_steals_succeeded s) 1;
         s \<leftarrow> worker_push_all batch (s\<lparr>ex_steals_succeeded := a\<rparr>);
         Some (True, s) } })"

definition idle_enter :: "('f, 'w) executor \<Rightarrow> ('f, 'w) executor option" where
  "idle_enter s = do { c \<leftarrow> add_chk (ex_idle_cycles s) 1; Some (s\<lparr>ex_idle_cycles := c\<rparr>) }"

text \<open>One turn of \<open>run\<close>. \<open>Halted\<close>: the core enters \<open>shutdown\<close>, which does not return.\<close>

datatype turn = Halted | Polled addr | Stole | Idled

definition run_turn ::
  "('f, 'w) future_poll \<Rightarrow> ('f, 'w) executor \<Rightarrow> (turn \<times> ('f, 'w) executor) option" where
  "run_turn poll s = (if ex_should_halt s then Some (Halted, s)
     else do {
       s \<leftarrow> drain_run_queue s;
       (t, d) \<leftarrow> Worker_pop (ex_worker s);
       let s = s\<lparr>ex_worker := d\<rparr>;
       case t of
         Some task \<Rightarrow> do { s \<leftarrow> poll_task poll task s; Some (Polled task, s) }
       | None \<Rightarrow> do {
           (stolen, s) \<leftarrow> try_steal s;
           if stolen then Some (Stole, s)
           else do { s \<leftarrow> idle_enter s; Some (Idled, s) } } })"

text \<open>The waker of a task: \<open>wake\<close> and \<open>wake_by_ref\<close> act on its control block, \<open>drop\<close> does nothing.\<close>

definition waker_wake :: "addr \<Rightarrow> ('f, 'w) task_heap \<Rightarrow> ('f, 'w) task_heap option" where
  "waker_wake t h = do { b \<leftarrow> TCB_wake (h t); Some (h(t := b)) }"

section \<open>Draining the run queue\<close>

text \<open>The tasks of the run queue, the highest level first, and in each level the oldest first.\<close>

definition drain_order :: "(nat \<Rightarrow> addr list) \<Rightarrow> addr list" where
  "drain_order Q = concat (map Q (rev [0..<NUM_LEVELS]))"

lemma length_drain_order: "length (drain_order Q) = rq_total Q"
proof -
  have "length (concat (map Q (rev [0..<n]))) = (\<Sum>i < n. length (Q i))" for n
    by (induction n) (simp_all add: length_concat rev_map [symmetric] sum_list_rev)
  then show ?thesis by (simp add: drain_order_def rq_total_def)
qed

lemma drain_order_empty: "(\<And>i. i < NUM_LEVELS \<Longrightarrow> Q i = []) \<Longrightarrow> drain_order Q = []"
  by (auto simp: drain_order_def)

lemma drain_order_top:
  assumes top: "rq_top Q l" and Q: "Q l = x # xs"
  shows "drain_order Q = x # drain_order (Q(l := xs))"
proof -
  have l: "l < NUM_LEVELS" and above: "\<And>i. i < NUM_LEVELS \<Longrightarrow> l < i \<Longrightarrow> Q i = []"
    using top by (auto simp: rq_top_def)
  have split: "rev [0..<NUM_LEVELS] = rev [Suc l..<NUM_LEVELS] @ l # rev [0..<l]"
  proof -
    have "[0..<NUM_LEVELS] = [0..<l] @ [l..<NUM_LEVELS]"
      using l upt_add_eq_append [of 0 l "NUM_LEVELS - l"] by simp
    then show ?thesis using l by (simp add: upt_conv_Cons del: upt_Suc)
  qed
  have "concat (map P (rev [Suc l..<NUM_LEVELS])) = []" if "\<And>i. i < NUM_LEVELS \<Longrightarrow> l < i \<Longrightarrow> P i = []" for P :: "nat \<Rightarrow> addr list"
    using that by auto
  then have e: "concat (map Q (rev [Suc l..<NUM_LEVELS])) = []"
    "concat (map (Q(l := xs)) (rev [Suc l..<NUM_LEVELS])) = []" using above by simp_all
  have "map (Q(l := xs)) (rev [0..<l]) = map Q (rev [0..<l])" by simp
  then show ?thesis
    unfolding drain_order_def split map_append concat_append e list.map concat.simps using Q by simp
qed

lemma wf_rq_emptied:
  assumes "wf_rq h rq Q" "\<And>i. i < NUM_LEVELS \<Longrightarrow> Q i = []"
  shows "wf_rq h' rq (\<lambda>_. [])"
proof -
  note D = wf_rqD [OF assms(1)]
  have "rq_total Q = rq_total (\<lambda>_. [])" using assms(2) by (simp add: rq_total_def)
  moreover have "wf_level h' (rq_levels rq ! i) []" if "i < NUM_LEVELS" for i
    using D(2) [OF that] assms(2) [OF that] by (simp add: wf_level_def)
  ultimately show ?thesis using D assms(2) by (intro wf_rqI) simp_all
qed

lemma dequeue_nothing:
  assumes "wf_rq h rq Q" "\<And>i. i < NUM_LEVELS \<Longrightarrow> Q i = []"
  shows "RunQueue_dequeue (h, rq) = Some (None, h, rq)"
  using occupancy_zero [OF assms(1)] assms(2) by (subst RunQueue_dequeue.simps) simp

lemma only_next_trans: "only_next UNIV h h' \<Longrightarrow> only_next UNIV h' h'' \<Longrightarrow> only_next UNIV h h''"
proof -
  assume a: "only_next UNIV h h'" "only_next UNIV h' h''"
  have "h'' x = (h x)\<lparr>tc_run_queue_next := tc_run_queue_next (h'' x)\<rparr>" for x
  proof -
    have "h' x = (h x)\<lparr>tc_run_queue_next := tc_run_queue_next (h' x)\<rparr>"
      "h'' x = (h' x)\<lparr>tc_run_queue_next := tc_run_queue_next (h'' x)\<rparr>"
      using a by (simp_all add: only_next_def)
    then show ?thesis by (metis tcb.surjective tcb.update_convs(15))
  qed
  then show ?thesis by (simp add: only_next_def)
qed

lemma only_next_UNIV: "only_next A h h' \<Longrightarrow> only_next UNIV h h'"
  by (simp add: only_next_def)

lemma drain_wf:
  assumes "wf_rq (ex_tasks s) (ex_run_queue s) Q" "wf_dq (ex_worker s)"
    "dq_bottom (ex_worker s) + int (rq_total Q) \<le> 2 ^ 62"
  shows "\<exists>h rq d. drain_run_queue s = Some (s\<lparr>ex_tasks := h, ex_run_queue := rq, ex_worker := d\<rparr>)
    \<and> wf_rq h rq (\<lambda>_. []) \<and> wf_dq d \<and> dq_list d = dq_list (ex_worker s) @ drain_order Q
    \<and> dq_bottom d = dq_bottom (ex_worker s) + int (rq_total Q) \<and> only_next UNIV (ex_tasks s) h"
  using assms
proof (induction "rq_total Q" arbitrary: s Q)
  case 0
  then have "Q i = []" if "i < NUM_LEVELS" for i
    using rq_total_level [OF that, of Q] by simp
  note e = this
  have "drain_run_queue s = Some (s\<lparr>ex_tasks := ex_tasks s, ex_run_queue := ex_run_queue s, ex_worker := ex_worker s\<rparr>)"
    by (subst drain_run_queue.simps) (simp add: dequeue_nothing [OF 0(2) e])
  moreover have "rq_total Q = 0" using 0(1) by simp
  ultimately show ?case
    using 0(3) wf_rq_emptied [OF 0(2) e] drain_order_empty [OF e] only_next_refl
    by (intro exI [of _ "ex_tasks s"] exI [of _ "ex_run_queue s"] exI [of _ "ex_worker s"] conjI) simp_all
next
  case (Suc n)
  have "\<not> (\<forall>i < NUM_LEVELS. Q i = [])"
  proof
    assume "\<forall>i < NUM_LEVELS. Q i = []"
    then have "rq_total Q = 0" by (simp add: rq_total_def)
    with Suc.hyps(2) show False by simp
  qed
  then obtain l where top: "rq_top Q l"
    using spec_top_iff(2) [of Q] spec_top_iff(1) [of Q] by (cases "spec_top Q") blast+
  then obtain x xs where Q: "Q l = x # xs" by (cases "Q l") (auto simp: rq_top_def)
  from dequeue_wf [OF Suc.prems(1) top Q] obtain h rq where
    d: "RunQueue_dequeue (ex_tasks s, ex_run_queue s) = Some (Some x, h, rq)" "wf_rq h rq (Q(l := xs))"
    "only_next {x} (ex_tasks s) h" by blast
  have tot: "rq_total Q = Suc (rq_total (Q(l := xs)))"
    using rq_total_update [of l Q xs] top Q by (simp add: rq_top_def)
  have "dq_bottom (ex_worker s) < 2 ^ 62" using Suc.prems(3) tot by simp
  from push_list [OF Suc.prems(2) this, of x] obtain w where
    w: "Worker_push x (ex_worker s) = Some w" "wf_dq w" "dq_list w = dq_list (ex_worker s) @ [x]"
    "dq_bottom w = dq_bottom (ex_worker s) + 1" by blast
  let ?s = "s\<lparr>ex_tasks := h, ex_run_queue := rq, ex_worker := w\<rparr>"
  have "n = rq_total (Q(l := xs))" using Suc.hyps(2) tot by simp
  from Suc.hyps(1) [OF this, of ?s] d(2) w Suc.prems(3) tot obtain h' rq' d' where
    r: "drain_run_queue ?s = Some (?s\<lparr>ex_tasks := h', ex_run_queue := rq', ex_worker := d'\<rparr>)"
    "wf_rq h' rq' (\<lambda>_. [])" "wf_dq d'" "dq_list d' = dq_list w @ drain_order (Q(l := xs))"
    "dq_bottom d' = dq_bottom w + int (rq_total (Q(l := xs)))" "only_next UNIV h h'" by auto
  have "drain_run_queue s = Some (s\<lparr>ex_tasks := h', ex_run_queue := rq', ex_worker := d'\<rparr>)"
    using d(1) w(1) r(1) by (subst drain_run_queue.simps) (simp add: worker_push_def)
  moreover have "only_next UNIV (ex_tasks s) h'"
    using only_next_trans [OF only_next_UNIV [OF d(3)] r(6)] .
  ultimately show ?case
    using r(2-5) w(3,4) tot drain_order_top [OF top Q]
    by (intro exI [of _ h'] exI [of _ rq'] exI [of _ d'] conjI) simp_all
qed

section \<open>Polling a task\<close>

declare TaskState_to_u32.simps [simp del]

text \<open>
  A future that behaves: polling the task \<open>t\<close> changes nothing of \<open>t\<close> but the state of its future
  (and any other task).
\<close>

definition steady :: "('f, 'w) future_poll \<Rightarrow> addr \<Rightarrow> bool" where
  "steady poll t \<longleftrightarrow> (\<forall>h. \<exists>f. snd (poll t h) t = (h t)\<lparr>tc_future := f\<rparr>)"

lemma upd_task_simps [simp]:
  "ex_tasks (upd_task t f s) = (ex_tasks s)(t := f (ex_tasks s t))"
  "ex_worker (upd_task t f s) = ex_worker s" "ex_run_queue (upd_task t f s) = ex_run_queue s"
  "ex_stealers (upd_task t f s) = ex_stealers s" "ex_core_id (upd_task t f s) = ex_core_id s"
  "ex_polls_executed (upd_task t f s) = ex_polls_executed s"
  "ex_tasks_completed (upd_task t f s) = ex_tasks_completed s"
  "ex_default_quantum (upd_task t f s) = ex_default_quantum s"
  "ex_should_halt (upd_task t f s) = ex_should_halt s"
  "ex_steals_attempted (upd_task t f s) = ex_steals_attempted s"
  "ex_steals_succeeded (upd_task t f s) = ex_steals_succeeded s" "ex_idle_cycles (upd_task t f s) = ex_idle_cycles s"
  by (simp_all add: upd_task_def)

lemma add_chk_one: "unat x + 1 < 2 ^ LENGTH('a) \<Longrightarrow> add_chk x (1 :: 'a :: len word) = Some (x + 1)"
  by (simp add: add_chk_def)

lemma decay_priority_total:
  assumes "unat (tc_decay_counter b) < 2 ^ 32 - 1" "- (2 ^ 31) + 8 \<le> sint (tc_base_priority b)"
  shows "\<exists>p. decay_priority b
    = Some (b\<lparr>tc_decay_counter := tc_decay_counter b + 1, tc_effective_priority := p\<rparr>)"
proof -
  have c: "add_chk (tc_decay_counter b) 1 = Some (tc_decay_counter b + 1)"
    using assms(1) by (intro add_chk_one) simp
  show ?thesis
    using assms(2) unfolding decay_priority_def c
    by (cases "unat (tc_decay_counter b + 1) mod 4 = 0"; cases "tc_base_priority b - 8 <s tc_effective_priority b")
      (auto simp: assert_that_def intro: exI [of _ "tc_effective_priority b"])
qed

text \<open>How one visit to a task ends, after \<open>k\<close> polls, with a quantum of \<open>q\<close>.\<close>

definition visit_ends ::
  "('f, 'w) future_poll \<Rightarrow> addr \<Rightarrow> ('f, 'w) executor \<Rightarrow> int \<Rightarrow> nat \<Rightarrow> ('f, 'w) executor \<Rightarrow> bool" where
  "visit_ends poll t s q k s' \<longleftrightarrow> 1 \<le> k \<and> int k \<le> max 1 q
     \<and> ex_polls_executed s' = ex_polls_executed s + of_nat k
     \<and> tc_current_core (ex_tasks s' t) = - 1 \<and> wf_dq (ex_worker s')
     \<and> ex_run_queue s' = ex_run_queue s \<and> ex_stealers s' = ex_stealers s
     \<and> ex_should_halt s' = ex_should_halt s \<and> ex_default_quantum s' = ex_default_quantum s
     \<and> ex_steals_attempted s' = ex_steals_attempted s \<and> ex_steals_succeeded s' = ex_steals_succeeded s
     \<and> ex_idle_cycles s' = ex_idle_cycles s
     \<and> tc_base_priority (ex_tasks s' t) = tc_base_priority (ex_tasks s t)
     \<and> (if tc_task_state (ex_tasks s' t) = Some Dead
        then (\<exists>h. fst (poll t h)) \<and> ex_worker s' = ex_worker s \<and> ex_tasks_completed s' = ex_tasks_completed s + 1
        else tc_task_state (ex_tasks s' t) = Some Ready \<and> int k = max 1 q
          \<and> dq_list (ex_worker s') = dq_list (ex_worker s) @ [t]
          \<and> dq_bottom (ex_worker s') = dq_bottom (ex_worker s) + 1
          \<and> ex_tasks_completed s' = ex_tasks_completed s
          \<and> tc_decay_counter (ex_tasks s' t) = tc_decay_counter (ex_tasks s t) + 1)"

definition can_visit :: "addr \<Rightarrow> ('f, 'w) executor \<Rightarrow> int \<Rightarrow> bool" where
  "can_visit t s q \<longleftrightarrow> wf_dq (ex_worker s) \<and> dq_bottom (ex_worker s) < 2 ^ 62
     \<and> unat (ex_polls_executed s) + nat (max 1 q) < 2 ^ 64
     \<and> unat (ex_tasks_completed s) + 1 < 2 ^ 64
     \<and> unat (tc_decay_counter (ex_tasks s t)) < 2 ^ 32 - 1
     \<and> - (2 ^ 31) + 8 \<le> sint (tc_base_priority (ex_tasks s t)) \<and> - (2 ^ 31) < q"

lemma can_visitD:
  assumes "can_visit t s q"
  shows "add_chk (ex_polls_executed s) 1 = Some (ex_polls_executed s + 1)"
    "add_chk (ex_tasks_completed s) 1 = Some (ex_tasks_completed s + 1)"
    "wf_dq (ex_worker s)" "dq_bottom (ex_worker s) < 2 ^ 62" "- (2 ^ 31) < q"
  using assms by (auto simp: can_visit_def max_def split: if_splits intro!: add_chk_one)

lemma task_done_ends:
  assumes "tc_state (ex_tasks s t) = TaskState_to_u32 Running" "can_visit t s q" "fst (poll t h)"
  shows "\<exists>s'. task_done t s = Some s' \<and> visit_ends poll t s q 1 s'"
    using assms(1,3) can_visitD [OF assms(2)] by (auto simp: task_done_def expect_transition_def visit_ends_def
        tc_task_state_def AtomicTaskState_set_def)

lemma quantum_expired_ends:
  assumes "tc_state (ex_tasks s t) = TaskState_to_u32 Running" "can_visit t (s\<lparr>ex_polls_executed := ex_polls_executed s - 1\<rparr>) q"
  shows "\<exists>s'. quantum_expired t s = Some s' \<and> visit_ends poll t (s\<lparr>ex_polls_executed := ex_polls_executed s - 1\<rparr>) 1 1 s'"
proof -
  from push_list [of "ex_worker s" t] can_visitD(3,4) [OF assms(2)] obtain d where
    d: "Worker_push t (ex_worker s) = Some d" "wf_dq d" "dq_list d = dq_list (ex_worker s) @ [t]"
    "dq_bottom d = dq_bottom (ex_worker s) + 1" by auto
  let ?b = "(ex_tasks s t)\<lparr>tc_state := TaskState_to_u32 Ready, tc_current_core := - 1\<rparr>"
  obtain p where p: "decay_priority ?b
      = Some (?b\<lparr>tc_decay_counter := tc_decay_counter ?b + 1, tc_effective_priority := p\<rparr>)"
    using decay_priority_total [of ?b] assms(2) by (auto simp: can_visit_def)
  show ?thesis
    using assms d p by (simp add: quantum_expired_def expect_transition_def visit_ends_def
        tc_task_state_def worker_push_def)
qed

text \<open>A pending poll: one tick of the quantum, and round again while some of it is left.\<close>

definition ticked :: "addr \<Rightarrow> ('f, 'w) task_heap \<Rightarrow> ('f, 'w) executor \<Rightarrow> ('f, 'w) executor" where
  "ticked t h s = upd_task t (\<lambda>b. b\<lparr>tc_quantum_remaining := tc_quantum_remaining b - 1\<rparr>)
     (s\<lparr>ex_tasks := h, ex_polls_executed := ex_polls_executed s + 1\<rparr>)"

lemma poll_pending:
  assumes "poll t (ex_tasks s) = (False, h)" "q = sint (tc_quantum_remaining (h t))" "- (2 ^ 31) < q"
    "add_chk (ex_polls_executed s) 1 = Some (ex_polls_executed s + 1)"
  shows "poll_loop poll t s = (if q \<le> 1 then quantum_expired t (ticked t h s) else poll_loop poll t (ticked t h s))"
    "sint (tc_quantum_remaining (ex_tasks (ticked t h s) t)) = q - 1"
proof -
  let ?q = "tc_quantum_remaining (h t)"
  have q1: "sint (?q - 1) = q - 1"
    using assms(2,3) sint_less [of ?q] by (simp add: sint_word_ariths signed_take_bit_int_eq_self)
  then have "?q - 1 <=s 0 \<longleftrightarrow> q \<le> 1" by (simp add: word_sle_eq)
  then show "poll_loop poll t s = (if q \<le> 1 then quantum_expired t (ticked t h s) else poll_loop poll t (ticked t h s))"
    using assms by (subst poll_loop.simps) (simp add: TCB_consume_tick_def upd_task_def ticked_def Let_def)
  show "sint (tc_quantum_remaining (ex_tasks (ticked t h s) t)) = q - 1"
    using q1 by (simp add: ticked_def)
qed

lemma poll_loop_ends:
  assumes "steady poll t" "tc_state (ex_tasks s t) = TaskState_to_u32 Running"
    "q = sint (tc_quantum_remaining (ex_tasks s t))" "can_visit t s q"
  shows "\<exists>s' k. poll_loop poll t s = Some s' \<and> visit_ends poll t s q k s'"
  using assms(2-)
proof (induction "nat q" arbitrary: s q rule: less_induct)
  case less
  obtain r h where poll: "poll t (ex_tasks s) = (r, h)" by (cases "poll t (ex_tasks s)")
  obtain f where f: "h t = (ex_tasks s t)\<lparr>tc_future := f\<rparr>"
    using assms(1) poll by (metis snd_conv steady_def)
  let ?s = "s\<lparr>ex_tasks := h\<rparr>"
  show ?case
  proof (cases r)
    case True
    have "\<exists>s'. task_done t ?s = Some s' \<and> visit_ends poll t ?s q 1 s'"
      using less.prems f poll True by (intro task_done_ends [where h = "ex_tasks s"]) (simp_all add: can_visit_def)
    moreover have "visit_ends poll t ?s q k = visit_ends poll t s q k" for k
      by (simp add: visit_ends_def fun_eq_iff f)
    moreover have "poll_loop poll t s = task_done t ?s"
      using poll True by (subst poll_loop.simps) simp
    ultimately show ?thesis by auto
  next
    case False
    note p = can_visitD(1) [OF less.prems(3)]
    let ?s1 = "ticked t h s"
    have "poll t (ex_tasks s) = (False, h)" using poll False by simp
    moreover have q: "q = sint (tc_quantum_remaining (h t))" using less.prems(2) f by simp
    ultimately have step: "poll_loop poll t s = (if q \<le> 1 then quantum_expired t ?s1 else poll_loop poll t ?s1)"
      "q - 1 = sint (tc_quantum_remaining (ex_tasks ?s1 t))"
      using poll_pending [where poll = poll and t = t and s = s and h = h and q = q] can_visitD(5) [OF less.prems(3)] p
      by simp_all
    have run: "tc_state (ex_tasks ?s1 t) = TaskState_to_u32 Running" using less.prems(1) f by (simp add: ticked_def)
    show ?thesis
    proof (cases "q \<le> 1")
      case True
      have "can_visit t (?s1\<lparr>ex_polls_executed := ex_polls_executed ?s1 - 1\<rparr>) q"
        using less.prems(3) f by (simp add: can_visit_def ticked_def)
      from quantum_expired_ends [OF run this] obtain s' where
        "quantum_expired t ?s1 = Some s'" "visit_ends poll t (?s1\<lparr>ex_polls_executed := ex_polls_executed ?s1 - 1\<rparr>) 1 1 s'"
        by blast
      moreover from this have "visit_ends poll t s q 1 s'" using True f by (simp add: visit_ends_def ticked_def)
      ultimately show ?thesis using step(1) True by auto
    next
      case False
      then have "can_visit t ?s1 (q - 1)" using less.prems(3) f by (auto simp: can_visit_def ticked_def unat_add_chk [OF p])
      moreover have "q - 1 = sint (tc_quantum_remaining (ex_tasks ?s1 t))" by (rule step(2))
      moreover have "nat (q - 1) < nat q" using False by simp
      ultimately obtain s' k where r: "poll_loop poll t ?s1 = Some s'" "visit_ends poll t ?s1 (q - 1) k s'"
        using less.hyps [of "q - 1" ?s1] run by blast
      have "max 1 q = q" "max 1 (q - 1) = q - 1" using False by simp_all
      then have "visit_ends poll t s q (Suc k) s'" using r(2) f unfolding visit_ends_def ticked_def by (simp split: if_splits)
      then show ?thesis using step(1) r(1) False by auto
    qed
  qed
qed

lemma poll_task_ends:
  assumes "steady poll t" "tc_task_state (ex_tasks s t) = Some Ready"
    "can_visit t s (sint (ex_default_quantum s))"
  shows "\<exists>s' k. poll_task poll t s = Some s' \<and> visit_ends poll t s (sint (ex_default_quantum s)) k s'"
proof -
  have cell: "tc_state (ex_tasks s t) = TaskState_to_u32 Ready"
    using assms(2) to_from_u32 by (fastforce simp: tc_task_state_def)
  let ?s = "upd_task t (\<lambda>b. TCB_reset_quantum (ex_default_quantum s)
         (b\<lparr>tc_state := TaskState_to_u32 Running, tc_current_core := ex_core_id s\<rparr>)) s"
  have p: "poll_task poll t s = poll_loop poll t ?s" by (simp add: poll_task_def cell)
  have v: "visit_ends poll t ?s q k = visit_ends poll t s q k" for q k
    by (simp add: visit_ends_def fun_eq_iff TCB_reset_quantum_def)
  have "can_visit t ?s (sint (ex_default_quantum s))"
    using assms(3) by (simp add: can_visit_def TCB_reset_quantum_def)
  with assms(1) show ?thesis
    unfolding p v [symmetric] by (intro poll_loop_ends) (simp_all add: TCB_reset_quantum_def)
qed


section \<open>A turn of the loop\<close>

text \<open>Every task can be polled: ready, with counters that do not overflow.\<close>

definition pollable :: "('f, 'w) tcb \<Rightarrow> bool" where
  "pollable b \<longleftrightarrow> tc_task_state b = Some Ready \<and> unat (tc_decay_counter b) < 2 ^ 32 - 1
     \<and> - (2 ^ 31) + 8 \<le> sint (tc_base_priority b)"

text \<open>The executor is running, its counters are far from their ends, its queues hold \<open>Q\<close> and \<open>ts\<close>.\<close>

definition exec_ok :: "(nat \<Rightarrow> addr list) \<Rightarrow> addr list \<Rightarrow> ('f, 'w) executor \<Rightarrow> bool" where
  "exec_ok Q ts s \<longleftrightarrow> \<not> ex_should_halt s \<and> wf_rq (ex_tasks s) (ex_run_queue s) Q
     \<and> wf_dq (ex_worker s) \<and> dq_list (ex_worker s) = ts
     \<and> dq_bottom (ex_worker s) + int (rq_total Q) < 2 ^ 62 \<and> - (2 ^ 31) < sint (ex_default_quantum s)
     \<and> unat (ex_polls_executed s) < 2 ^ 63 \<and> unat (ex_tasks_completed s) < 2 ^ 63"

lemma only_next_fields:
  assumes "only_next UNIV h h'"
  shows "tc_decay_counter (h' t) = tc_decay_counter (h t)" "tc_base_priority (h' t) = tc_base_priority (h t)"
    "tc_task_state (h' t) = tc_task_state (h t)" "pollable (h' t) = pollable (h t)"
proof -
  have "h' t = (h t)\<lparr>tc_run_queue_next := tc_run_queue_next (h' t)\<rparr>" using assms by (simp add: only_next_def)
  then show e: "tc_decay_counter (h' t) = tc_decay_counter (h t)" "tc_base_priority (h' t) = tc_base_priority (h t)"
    by (metis tcb.ext_inject tcb.surjective tcb.update_convs(15))+
  have "tc_state (h' t) = tc_state (h t)" by (metis tcb.ext_inject tcb.surjective tcb.update_convs(15) \<open>h' t = _\<close>)
  with e show "tc_task_state (h' t) = tc_task_state (h t)" "pollable (h' t) = pollable (h t)"
    by (simp_all add: tc_task_state_def pollable_def)
qed

text \<open>What a turn polls: everything is drained onto the deque, and its newest task is popped.\<close>

lemma drain_and_pop:
  assumes ok: "exec_ok Q ts s"
  shows "\<exists>h rq d d'. drain_run_queue s = Some (s\<lparr>ex_tasks := h, ex_run_queue := rq, ex_worker := d\<rparr>)
    \<and> Worker_pop d = Some (last_opt (ts @ drain_order Q), d') \<and> wf_dq d'
    \<and> dq_list d' = butlast (ts @ drain_order Q) \<and> dq_bottom d' \<le> dq_bottom (ex_worker s) + int (rq_total Q)
    \<and> wf_rq h rq (\<lambda>_. []) \<and> only_next UNIV (ex_tasks s) h"
proof -
  obtain h rq d where d: "drain_run_queue s = Some (s\<lparr>ex_tasks := h, ex_run_queue := rq, ex_worker := d\<rparr>)"
    "wf_rq h rq (\<lambda>_. [])" "wf_dq d" "dq_list d = ts @ drain_order Q"
    "dq_bottom d = dq_bottom (ex_worker s) + int (rq_total Q)" "only_next UNIV (ex_tasks s) h"
    using drain_wf [of s Q] ok by (auto simp: exec_ok_def)
  have small: "dq_bottom d < 2 ^ 62" using d(5) ok by (simp add: exec_ok_def)
  from pop_list [OF d(3) small] d(4) obtain d' where
    "Worker_pop d = Some (last_opt (ts @ drain_order Q), d')" "wf_dq d'"
    "dq_list d' = butlast (ts @ drain_order Q)" "dq_bottom d' \<le> dq_bottom d" by auto
  moreover from this(4) d(5) have "dq_bottom d' \<le> dq_bottom (ex_worker s) + int (rq_total Q)" by simp
  ultimately show ?thesis using d
    by (intro exI [of _ h] exI [of _ rq] exI [of _ d] exI [of _ d'] conjI)
qed

lemma turn_polls:
  assumes ok: "exec_ok Q ts s" and ne: "ts @ drain_order Q \<noteq> []"
  obtains h rq d where "run_turn poll s = (poll_task poll (last (ts @ drain_order Q))
        (s\<lparr>ex_tasks := h, ex_run_queue := rq, ex_worker := d\<rparr>) \<bind> (\<lambda>s'. Some (Polled (last (ts @ drain_order Q)), s')))"
    "wf_dq d" "dq_list d = butlast (ts @ drain_order Q)" "dq_bottom d \<le> dq_bottom (ex_worker s) + int (rq_total Q)"
    "wf_rq h rq (\<lambda>_. [])" "only_next UNIV (ex_tasks s) h"
proof -
  from drain_and_pop [OF ok] obtain h rq d0 d where d:
    "drain_run_queue s = Some (s\<lparr>ex_tasks := h, ex_run_queue := rq, ex_worker := d0\<rparr>)"
    "Worker_pop d0 = Some (last_opt (ts @ drain_order Q), d)" "wf_dq d"
    "dq_list d = butlast (ts @ drain_order Q)" "dq_bottom d \<le> dq_bottom (ex_worker s) + int (rq_total Q)"
    "wf_rq h rq (\<lambda>_. [])" "only_next UNIV (ex_tasks s) h" by blast
  have "last_opt (ts @ drain_order Q) = Some (last (ts @ drain_order Q))"
    using ne by (auto simp: last_opt_def)
  then have "run_turn poll s = (poll_task poll (last (ts @ drain_order Q))
        (s\<lparr>ex_tasks := h, ex_run_queue := rq, ex_worker := d\<rparr>) \<bind> (\<lambda>s'. Some (Polled (last (ts @ drain_order Q)), s')))"
    using d(1,2) ok by (simp add: run_turn_def exec_ok_def)
  then show ?thesis using that d by blast
qed

lemma turn_visits:
  assumes ok: "exec_ok Q ts s" and ne: "ts @ drain_order Q \<noteq> []"
    and t: "t = last (ts @ drain_order Q)" "pollable (ex_tasks s t)" "steady poll t"
  obtains h rq d s' k where "run_turn poll s = Some (Polled t, s')"
    "visit_ends poll t (s\<lparr>ex_tasks := h, ex_run_queue := rq, ex_worker := d\<rparr>) (sint (ex_default_quantum s)) k s'"
    "wf_dq d" "dq_list d = butlast (ts @ drain_order Q)" "dq_bottom d \<le> dq_bottom (ex_worker s) + int (rq_total Q)"
    "wf_rq h rq (\<lambda>_. [])" "only_next UNIV (ex_tasks s) h"
proof -
  from turn_polls [OF ok ne, of poll] obtain h rq d where
    r: "run_turn poll s = (poll_task poll t (s\<lparr>ex_tasks := h, ex_run_queue := rq, ex_worker := d\<rparr>)
      \<bind> (\<lambda>s'. Some (Polled t, s')))"
    and d: "wf_dq d" "dq_list d = butlast (ts @ drain_order Q)" "dq_bottom d \<le> dq_bottom (ex_worker s) + int (rq_total Q)"
    "wf_rq h rq (\<lambda>_. [])" "only_next UNIV (ex_tasks s) h" unfolding t(1) by metis
  let ?s = "s\<lparr>ex_tasks := h, ex_run_queue := rq, ex_worker := d\<rparr>"
  have q: "sint (ex_default_quantum s) < 2 ^ 31" using sint_less [of "ex_default_quantum s"] by simp
  have p: "pollable (h t)" using t(2) only_next_fields(4) [OF d(5)] by simp
  have "can_visit t ?s (sint (ex_default_quantum ?s))"
    using ok p q d(1,3) by (auto simp: exec_ok_def pollable_def can_visit_def max_def nat_less_iff zless_nat_conj)
  moreover have "tc_task_state (ex_tasks ?s t) = Some Ready" using p by (simp add: pollable_def)
  ultimately obtain s' k where "poll_task poll t ?s = Some s'"
    "visit_ends poll t ?s (sint (ex_default_quantum ?s)) k s'"
    using poll_task_ends [OF t(3), of ?s] by blast
  then show ?thesis using r d by (intro that [where h = h and rq = rq and d = d and s' = s' and k = k]) simp_all
qed

text \<open>
  One turn moves everything that waits in the run queue onto the deque, behind what is there, and
  polls the last of it. Nothing is lost and nothing appears twice: afterwards the run queue is empty
  and the deque holds exactly the other tasks in their order, followed by the polled one unless its
  future was ready, which then is dead and counted.
\<close>

theorem executor_turn:
  assumes "exec_ok Q ts s" "ts @ drain_order Q = us @ [t]" "pollable (ex_tasks s t)" "steady poll t"
  shows "\<exists>s' done. run_turn poll s = Some (Polled t, s')
    \<and> dq_list (ex_worker s') = us @ (if done then [] else [t])
    \<and> wf_dq (ex_worker s') \<and> wf_rq (ex_tasks s') (ex_run_queue s') (\<lambda>_. [])
    \<and> tc_task_state (ex_tasks s' t) = Some (if done then Dead else Ready)
    \<and> ex_tasks_completed s' = ex_tasks_completed s + (if done then 1 else 0)"
proof -
  have ne: "ts @ drain_order Q \<noteq> []" and t: "t = last (ts @ drain_order Q)" unfolding assms(2) by simp_all
  from turn_visits [OF assms(1) ne t assms(3,4)] obtain h rq d s' k where
    r: "run_turn poll s = Some (Polled t, s')"
    "visit_ends poll t (s\<lparr>ex_tasks := h, ex_run_queue := rq, ex_worker := d\<rparr>) (sint (ex_default_quantum s)) k s'"
    "dq_list d = us" "wf_rq h rq (\<lambda>_. [])" using assms(2) by (metis butlast_snoc)
  have "ex_run_queue s' = rq" using r(2) by (simp add: visit_ends_def)
  then have "wf_rq (ex_tasks s') (ex_run_queue s') (\<lambda>_. [])" using wf_rq_emptied [OF r(4)] by simp
  then show ?thesis
    using r(1-3) unfolding visit_ends_def
    by (cases "tc_task_state (ex_tasks s' t) = Some Dead")
      (auto intro!: exI [of _ s'] exI [of _ "tc_task_state (ex_tasks s' t) = Some Dead"])
qed

text \<open>With an empty deque that is the newest task of the lowest level in use.\<close>

lemma drain_order_last:
  assumes "l < NUM_LEVELS" "Q l \<noteq> []" "\<And>i. i < l \<Longrightarrow> Q i = []"
  shows "last (drain_order Q) = last (Q l)" "drain_order Q \<noteq> []"
proof -
  have split: "rev [0..<NUM_LEVELS] = rev [Suc l..<NUM_LEVELS] @ l # rev [0..<l]"
  proof -
    have "[0..<NUM_LEVELS] = [0..<l] @ [l..<NUM_LEVELS]"
      using assms(1) upt_add_eq_append [of 0 l "NUM_LEVELS - l"] by simp
    then show ?thesis using assms(1) by (simp add: upt_conv_Cons del: upt_Suc)
  qed
  have e: "concat (map Q (rev [0..<l])) = []" using assms(3) by simp
  show "last (drain_order Q) = last (Q l)" "drain_order Q \<noteq> []"
    unfolding drain_order_def split map_append concat_append list.map concat.simps e using assms(2) by simp_all
qed

section \<open>Starvation\<close>

lemma unat_add_small:
  "unat (a :: u64) + n < 2 ^ 64 \<Longrightarrow> unat (a + of_nat n) = unat a + n"
  by (simp add: unat_word_ariths take_bit_eq_mod unat_of_nat mod_add_right_eq)

definition run_turns ::
  "('f, 'w) future_poll \<Rightarrow> nat \<Rightarrow> ('f, 'w) executor \<Rightarrow> (turn list \<times> ('f, 'w) executor) option" where
  "run_turns poll n = run_ops (\<lambda>_. run_turn poll) (replicate n ())"

lemma run_turns_simps [simp]:
  "run_turns poll 0 s = Some ([], s)"
  "run_turns poll (Suc n) s = run_turn poll s \<bind>
     (\<lambda>(r, s). run_turns poll n s \<bind> (\<lambda>(rs, s). Some (r # rs, s)))"
  by (simp_all add: run_turns_def)

text \<open>There is room for \<open>n\<close> more turns that use a whole quantum for \<open>t\<close>.\<close>

definition room_for :: "nat \<Rightarrow> addr \<Rightarrow> (nat \<Rightarrow> addr list) \<Rightarrow> ('f, 'w) executor \<Rightarrow> bool" where
  "room_for n t Q s \<longleftrightarrow> dq_bottom (ex_worker s) + int (rq_total Q) + int n < 2 ^ 62
     \<and> unat (ex_polls_executed s) + n * nat (max 1 (sint (ex_default_quantum s))) < 2 ^ 63
     \<and> unat (tc_decay_counter (ex_tasks s t)) + n < 2 ^ 32 - 1"

lemma starve_turn:
  assumes ok: "exec_ok Q ts s" "ts @ drain_order Q = us @ [t]" "pollable (ex_tasks s t)"
    and poll: "steady poll t" "\<And>h. \<not> fst (poll t h)" and room: "room_for (Suc n) t Q s"
  shows "\<exists>s'. run_turn poll s = Some (Polled t, s') \<and> exec_ok (\<lambda>_. []) (us @ [t]) s'
    \<and> pollable (ex_tasks s' t) \<and> room_for n t (\<lambda>_. []) s' \<and> ex_tasks_completed s' = ex_tasks_completed s"
proof -
  have ne: "ts @ drain_order Q \<noteq> []" and t: "t = last (ts @ drain_order Q)" unfolding ok(2) by simp_all
  let ?q = "nat (max 1 (sint (ex_default_quantum s)))"
  from turn_visits [OF ok(1) ne t ok(3) poll(1)] obtain h rq d s' k where
    r: "run_turn poll s = Some (Polled t, s')"
    "visit_ends poll t (s\<lparr>ex_tasks := h, ex_run_queue := rq, ex_worker := d\<rparr>) (sint (ex_default_quantum s)) k s'"
    and d: "wf_dq d" "dq_list d = us" "dq_bottom d \<le> dq_bottom (ex_worker s) + int (rq_total Q)"
    "wf_rq h rq (\<lambda>_. [])" "only_next UNIV (ex_tasks s) h" using ok(2) by (metis butlast_snoc)
  from r(2) poll(2) have v: "tc_task_state (ex_tasks s' t) = Some Ready" "int k = max 1 (sint (ex_default_quantum s))"
    "dq_list (ex_worker s') = us @ [t]" "dq_bottom (ex_worker s') = dq_bottom d + 1"
    "ex_tasks_completed s' = ex_tasks_completed s" "wf_dq (ex_worker s')" "ex_run_queue s' = rq"
    "ex_polls_executed s' = ex_polls_executed s + of_nat k" "ex_should_halt s' = ex_should_halt s"
    "ex_default_quantum s' = ex_default_quantum s" "tc_base_priority (ex_tasks s' t) = tc_base_priority (h t)"
    "tc_decay_counter (ex_tasks s' t) = tc_decay_counter (h t) + 1"
    using d(2) by (auto simp: visit_ends_def split: if_splits)
  have same: "tc_base_priority (h t) = tc_base_priority (ex_tasks s t)"
    "tc_decay_counter (h t) = tc_decay_counter (ex_tasks s t)"
    using only_next_fields(1,2) [OF d(5)] by simp_all
  have k: "k = ?q" using v(2) by simp
  have "unat (ex_polls_executed s) + ?q < 2 ^ 63" using room by (simp add: room_for_def)
  then have polls: "unat (ex_polls_executed s') = unat (ex_polls_executed s) + ?q"
    unfolding v(8) k by (intro unat_add_small) simp
  have decay: "unat (tc_decay_counter (ex_tasks s' t)) = unat (tc_decay_counter (ex_tasks s t)) + 1"
    using room v(12) same(2) by (simp add: room_for_def unat_plus_one)
  have "wf_rq (ex_tasks s') (ex_run_queue s') (\<lambda>_. [])" using wf_rq_emptied [OF d(4)] v(7) by simp
  then have "exec_ok (\<lambda>_. []) (us @ [t]) s'"
    using ok(1) v d(3) room polls by (simp add: exec_ok_def room_for_def rq_total_def)
  moreover have "pollable (ex_tasks s' t)" using v same decay room ok(3) by (simp add: pollable_def room_for_def)
  moreover have "room_for n t (\<lambda>_. []) s'" 
    using room polls decay v d(3) by (simp add: room_for_def rq_total_def)
  ultimately show ?thesis using r(1) v(5) by blast
qed

text \<open>
  The deque is a stack, so a task that uses up its quantum is the next one to be polled: a future
  that stays pending is polled on every turn and no other task of this core ever runs, whatever
  their levels are. The decay of its priority changes nothing, as the deque does not look at it.
\<close>

theorem executor_starves:
  assumes "exec_ok Q ts s" "ts @ drain_order Q = us @ [t]" "pollable (ex_tasks s t)"
    "steady poll t" "\<And>h. \<not> fst (poll t h)" "room_for n t Q s" "0 < n"
  shows "\<exists>s'. run_turns poll n s = Some (replicate n (Polled t), s')
    \<and> dq_list (ex_worker s') = us @ [t] \<and> ex_tasks_completed s' = ex_tasks_completed s"
  using assms(1-3,6,7)
proof (induction n arbitrary: s Q ts)
  case 0
  then show ?case by simp
next
  case (Suc n)
  from starve_turn [OF Suc.prems(1-3) assms(4,5) Suc.prems(4)] obtain s1 where
    s1: "run_turn poll s = Some (Polled t, s1)" "exec_ok (\<lambda>_. []) (us @ [t]) s1" "pollable (ex_tasks s1 t)"
    "room_for n t (\<lambda>_. []) s1" "ex_tasks_completed s1 = ex_tasks_completed s" by blast
  show ?case
  proof (cases n)
    case 0
    with s1 show ?thesis by (simp add: exec_ok_def)
  next
    case (Suc m)
    have "drain_order (\<lambda>_. []) = []" by (simp add: drain_order_def)
    then have "(us @ [t]) @ drain_order (\<lambda>_. []) = us @ [t]" by simp
    from Suc.IH [OF s1(2) this s1(3,4)] Suc obtain s' where
      "run_turns poll n s1 = Some (replicate n (Polled t), s')" "dq_list (ex_worker s') = us @ [t]"
      "ex_tasks_completed s' = ex_tasks_completed s1" by auto
    with s1 show ?thesis by simp
  qed
qed

text \<open>
  Among the tasks that wait in the run queue the executor polls one of the lowest level in use, and
  of these the newest: the higher levels, which the run queue hands out first, end up below it in
  the deque.
\<close>

theorem executor_lowest_first:
  assumes "exec_ok Q [] s" "l < NUM_LEVELS" "Q l = qs @ [t]" "\<And>i. i < l \<Longrightarrow> Q i = []"
    "pollable (ex_tasks s t)" "steady poll t"
  shows "\<exists>s'. run_turn poll s = Some (Polled t, s')"
proof -
  have "last (drain_order Q) = t" "drain_order Q \<noteq> []"
    using drain_order_last [OF assms(2), of Q] assms(3,4) by simp_all
  then have "[] @ drain_order Q = butlast (drain_order Q) @ [t]" by (metis append_Nil append_butlast_last_id)
  with turn_visits [OF assms(1) _ _ assms(5,6)] show ?thesis by (metis append_Nil last_snoc snoc_eq_iff_butlast)
qed

section \<open>Tasks that park themselves\<close>

text \<open>
  A future that parks: it stays pending, and its poll leaves its own task blocked, as a task that
  waits in a wait queue is to be.
\<close>

definition parks :: "('f, 'w) future_poll \<Rightarrow> addr \<Rightarrow> bool" where
  "parks poll t \<longleftrightarrow> (\<forall>h. \<not> fst (poll t h)
     \<and> (\<exists>f. snd (poll t h) t = (h t)\<lparr>tc_future := f, tc_state := TaskState_to_u32 Blocked\<rparr>))"

lemma quantum_expired_parked:
  assumes "tc_state (ex_tasks s t) = TaskState_to_u32 r" "r \<noteq> Running" "unat (tc_decay_counter (ex_tasks s t)) < 2 ^ 32 - 1"
    "- (2 ^ 31) + 8 \<le> sint (tc_base_priority (ex_tasks s t))"
  shows "\<exists>s'. quantum_expired t s = Some s' \<and> s' = s\<lparr>ex_tasks := ex_tasks s'\<rparr> \<and> tc_task_state (ex_tasks s' t) = Some r"
proof -
  let ?b = "(ex_tasks s t)\<lparr>tc_current_core := - 1\<rparr>"
  obtain p where "decay_priority ?b
      = Some (?b\<lparr>tc_decay_counter := tc_decay_counter ?b + 1, tc_effective_priority := p\<rparr>)"
    using decay_priority_total [of ?b] assms(3,4) by auto
  then show ?thesis
    using assms(1,2) by (simp add: quantum_expired_def tc_task_state_def upd_task_def)
qed

lemma poll_loop_parks:
  assumes "parks poll t" "q = sint (tc_quantum_remaining (ex_tasks s t))" "can_visit t s q"
  shows "\<exists>s'. poll_loop poll t s = Some s' \<and> tc_task_state (ex_tasks s' t) = Some Blocked
    \<and> s' = s\<lparr>ex_tasks := ex_tasks s', ex_polls_executed := ex_polls_executed s + of_nat (nat (max 1 q))\<rparr>"
  using assms(2,3)
proof (induction "nat q" arbitrary: s q rule: less_induct)
  case less
  have "\<not> fst (poll t (ex_tasks s))" using assms(1) by (simp add: parks_def)
  then obtain h where poll: "poll t (ex_tasks s) = (False, h)" by (cases "poll t (ex_tasks s)") auto
  obtain f where f: "h t = (ex_tasks s t)\<lparr>tc_future := f, tc_state := TaskState_to_u32 Blocked\<rparr>"
    using assms(1) [unfolded parks_def, rule_format, of "ex_tasks s"] poll by auto
  let ?s1 = "ticked t h s"
  note p = can_visitD(1) [OF less.prems(2)]
  have step: "poll_loop poll t s = (if q \<le> 1 then quantum_expired t ?s1 else poll_loop poll t ?s1)"
    "q - 1 = sint (tc_quantum_remaining (ex_tasks ?s1 t))"
    using poll_pending [where poll = poll and t = t and s = s and h = h and q = q]
      can_visitD(5) [OF less.prems(2)] p poll f less.prems(1) by simp_all
  have blocked: "tc_state (ex_tasks ?s1 t) = TaskState_to_u32 Blocked"
    and same: "\<And>h' n. ?s1\<lparr>ex_tasks := h', ex_polls_executed := n\<rparr> = s\<lparr>ex_tasks := h', ex_polls_executed := n\<rparr>"
      "\<And>h'. ?s1\<lparr>ex_tasks := h'\<rparr> = s\<lparr>ex_tasks := h', ex_polls_executed := ex_polls_executed s + 1\<rparr>"
      "ex_polls_executed ?s1 = ex_polls_executed s + 1" using f by (simp_all add: ticked_def upd_task_def)
  show ?case
  proof (cases "q \<le> 1")
    case True
    from quantum_expired_parked [OF blocked] less.prems(2) f obtain s' where
      "quantum_expired t ?s1 = Some s'" "s' = ?s1\<lparr>ex_tasks := ex_tasks s'\<rparr>" "tc_task_state (ex_tasks s' t) = Some Blocked"
      by (auto simp: can_visit_def ticked_def)
    moreover have "max 1 q = 1" using True by simp
    ultimately show ?thesis using True step(1) unfolding same by simp
  next
    case False
    then have "can_visit t ?s1 (q - 1)"
      using less.prems(2) f by (auto simp: can_visit_def ticked_def unat_add_chk [OF p])
    moreover have "nat (q - 1) < nat q" using False by simp
    ultimately obtain s' where "poll_loop poll t ?s1 = Some s'" "tc_task_state (ex_tasks s' t) = Some Blocked"
      "s' = ?s1\<lparr>ex_tasks := ex_tasks s', ex_polls_executed := ex_polls_executed ?s1 + of_nat (nat (max 1 (q - 1)))\<rparr>"
      using less.hyps [OF _ step(2)] by blast
    moreover have "(of_nat (nat (max 1 q)) :: u64) = 1 + of_nat (nat (max 1 (q - 1)))"
    proof -
      have "max 1 q = q" "max 1 (q - 1) = q - 1" using False by simp_all
      moreover have "nat q = Suc (nat (q - 1))" using False by linarith
      ultimately have "nat (max 1 q) = Suc (nat (max 1 (q - 1)))" by (simp only:)
      then show ?thesis by (simp only: of_nat_Suc)
    qed
    ultimately show ?thesis using step(1) False unfolding same by (simp add: add.assoc)
  qed
qed

lemma turn_idle:
  assumes "exec_ok (\<lambda>_. []) [] s" "ex_stealers s = []" "unat (ex_idle_cycles s) < 2 ^ 63"
  shows "\<exists>s'. run_turn poll s = Some (Idled, s') \<and> tc_task_state (ex_tasks s' t) = tc_task_state (ex_tasks s t)"
proof -
  have e: "[] @ drain_order (\<lambda>_. []) = []" by (simp add: drain_order_def)
  from drain_and_pop [OF assms(1), unfolded e] obtain h rq d d' where
    "drain_run_queue s = Some (s\<lparr>ex_tasks := h, ex_run_queue := rq, ex_worker := d\<rparr>)"
    "Worker_pop d = Some (last_opt [], d')" "only_next UNIV (ex_tasks s) h" by blast
  moreover have "add_chk (ex_idle_cycles s) 1 = Some (ex_idle_cycles s + 1)"
    using assms(3) by (intro add_chk_one) simp
  ultimately show ?thesis
    using assms(1,2) only_next_fields(3) [of "ex_tasks s" h t]
    by (simp add: run_turn_def exec_ok_def last_opt_def try_steal_def idle_enter_def)
qed

text \<open>
  A task that parks is polled on through the rest of its quantum, and then is in no queue of the
  executor; that its waker should put it back is what \<open>make_waker\<close> and \<open>poll_task\<close> promise, but
  waking it only makes it ready: the next turn does not poll it, although this core has nothing
  else to do.
\<close>

theorem woken_task_lost:
  assumes "parks poll t" "exec_ok Q ts s" "ts @ drain_order Q = [t]" "pollable (ex_tasks s t)"
    "ex_stealers s = []" "unat (ex_idle_cycles s) < 2 ^ 63" "room_for 1 t Q s"
  shows "\<exists>s1 h s2. run_turn poll s = Some (Polled t, s1)
    \<and> ex_polls_executed s1 = ex_polls_executed s + of_nat (nat (max 1 (sint (ex_default_quantum s))))
    \<and> tc_task_state (ex_tasks s1 t) = Some Blocked
    \<and> waker_wake t (ex_tasks s1) = Some h \<and> tc_task_state (h t) = Some Ready
    \<and> run_turn poll (s1\<lparr>ex_tasks := h\<rparr>) = Some (Idled, s2) \<and> tc_task_state (ex_tasks s2 t) = Some Ready"
proof -
  have ne: "ts @ drain_order Q \<noteq> []" and t: "last (ts @ drain_order Q) = t" unfolding assms(3) by simp_all
  from turn_polls [OF assms(2) ne, of poll] obtain h rq d where
    r: "run_turn poll s = (poll_task poll t (s\<lparr>ex_tasks := h, ex_run_queue := rq, ex_worker := d\<rparr>)
      \<bind> (\<lambda>s'. Some (Polled t, s')))"
    and d: "wf_dq d" "dq_list d = butlast (ts @ drain_order Q)" "dq_bottom d \<le> dq_bottom (ex_worker s) + int (rq_total Q)"
    "wf_rq h rq (\<lambda>_. [])" "only_next UNIV (ex_tasks s) h" unfolding t by metis
  let ?q = "ex_default_quantum s"
  have q: "sint ?q < 2 ^ 31" using sint_less [of ?q] by simp
  have p: "pollable (h t)" using assms(4) only_next_fields(4) [OF d(5)] by simp
  then have cell: "tc_state (h t) = TaskState_to_u32 Ready"
    by (simp add: pollable_def task_state_cell)
  let ?b = "(h t)\<lparr>tc_state := TaskState_to_u32 Running, tc_current_core := ex_core_id s, tc_quantum_remaining := ?q\<rparr>"
  let ?s = "s\<lparr>ex_run_queue := rq, ex_worker := d, ex_tasks := h(t := ?b)\<rparr>"
  have "can_visit t ?s (sint ?q)"
    using assms(2) p q d(1,3) by (auto simp: exec_ok_def pollable_def can_visit_def max_def nat_less_iff zless_nat_conj)
  moreover have "sint ?q = sint (tc_quantum_remaining (ex_tasks ?s t))" by simp
  ultimately obtain s1 where s1: "poll_loop poll t ?s = Some s1" "tc_task_state (ex_tasks s1 t) = Some Blocked"
    "s1 = ?s\<lparr>ex_tasks := ex_tasks s1, ex_polls_executed := ex_polls_executed ?s + of_nat (nat (max 1 (sint ?q)))\<rparr>"
    using poll_loop_parks [OF assms(1)] by blast
  have turn: "run_turn poll s = Some (Polled t, s1)"
    using r s1(1) cell by (simp add: poll_task_def TCB_reset_quantum_def upd_task_def)
  let ?s2 = "s1\<lparr>ex_tasks := (ex_tasks s1)(t := (ex_tasks s1 t)\<lparr>tc_state := TaskState_to_u32 Ready\<rparr>)\<rparr>"
  have wake: "waker_wake t (ex_tasks s1) = Some (ex_tasks ?s2)"
    using TCB_wake_cell [of "ex_tasks s1 t" Blocked] s1(2) by (simp add: waker_wake_def task_state_cell)
  have f: "ex_worker s1 = d" "ex_run_queue s1 = rq" "ex_should_halt s1 = ex_should_halt s"
    "ex_default_quantum s1 = ?q" "ex_tasks_completed s1 = ex_tasks_completed s" "ex_stealers s1 = ex_stealers s"
    "ex_idle_cycles s1 = ex_idle_cycles s"
    "ex_polls_executed s1 = ex_polls_executed s + of_nat (nat (max 1 (sint ?q)))"
    by (subst s1(3), simp)+
  have "unat (ex_polls_executed s1) < 2 ^ 63"
    unfolding f using assms(7) unat_add_small [of "ex_polls_executed s" "nat (max 1 (sint ?q))"]
    by (simp add: room_for_def)
  moreover have "wf_rq (ex_tasks ?s2) rq (\<lambda>_. [])" using wf_rq_emptied [OF d(4)] by simp
  ultimately have "exec_ok (\<lambda>_. []) [] ?s2 \<and> ex_stealers ?s2 = [] \<and> unat (ex_idle_cycles ?s2) < 2 ^ 63"
    using assms(2,3,5,6,7) d(1-3) f by (simp add: exec_ok_def rq_total_def room_for_def)
  then obtain s2 where s2: "run_turn poll ?s2 = Some (Idled, s2)"
    "tc_task_state (ex_tasks s2 t) = tc_task_state (ex_tasks ?s2 t)" using turn_idle by blast
  have ready: "tc_task_state (ex_tasks ?s2 t) = Some Ready" by (simp add: tc_task_state_def)
  have idle: "run_turn poll (s1\<lparr>ex_tasks := ex_tasks ?s2\<rparr>) = Some (Idled, s2)" using s2(1) by simp
  show ?thesis
    by (rule exI [of _ s1], rule exI [of _ "ex_tasks ?s2"], rule exI [of _ s2], intro conjI)
      (fact turn f(8) s1(2) wake ready idle trans [OF s2(2) ready])+
qed

text \<open>
  A future that finishes in the very quantum in which it parked crashes the kernel: the executor
  expects the task to be still running.
\<close>

theorem parked_task_panics:
  assumes "poll t (ex_tasks s) = (True, h)" "tc_task_state (h t) = Some r" "r \<noteq> Running"
  shows "poll_loop poll t s = None"
proof -
  have "tc_state (h t) = TaskState_to_u32 r" using assms(2) to_from_u32 by (fastforce simp: tc_task_state_def)
  then show ?thesis
    using assms(1,3) by (subst poll_loop.simps) (simp add: task_done_def expect_transition_def)
qed

text \<open>
  A task that was never made ready is taken from the queue and thrown away: it is polled by nobody
  and is in no queue afterwards.
\<close>

theorem created_task_dropped:
  assumes "exec_ok Q ts s" "ts @ drain_order Q = us @ [t]" "tc_task_state (ex_tasks s t) = Some Created"
  shows "\<exists>s'. run_turn poll s = Some (Polled t, s') \<and> dq_list (ex_worker s') = us
    \<and> wf_rq (ex_tasks s') (ex_run_queue s') (\<lambda>_. []) \<and> ex_polls_executed s' = ex_polls_executed s"
proof -
  have ne: "ts @ drain_order Q \<noteq> []" and t: "last (ts @ drain_order Q) = t" unfolding assms(2) by simp_all
  from turn_polls [OF assms(1) ne, of poll] obtain h rq d where
    r: "run_turn poll s = (poll_task poll t (s\<lparr>ex_tasks := h, ex_run_queue := rq, ex_worker := d\<rparr>)
      \<bind> (\<lambda>s'. Some (Polled t, s')))" "dq_list d = butlast (ts @ drain_order Q)"
    "wf_rq h rq (\<lambda>_. [])" "only_next UNIV (ex_tasks s) h" unfolding t by metis
  have "tc_task_state (h t) = Some Created" using only_next_fields(3) [OF r(4)] assms(3) by simp
  then have "tc_state (h t) = TaskState_to_u32 Created" by (simp add: task_state_cell)
  then show ?thesis using r(1-3) assms(2) by (simp add: poll_task_def)
qed

section \<open>Stealing\<close>

lemma worker_push_all_each:
  "worker_push_all xs s = map_option (\<lambda>d. s\<lparr>ex_worker := d\<rparr>) (push_each Worker_push xs (ex_worker s))"
proof (induction xs arbitrary: s)
  case (Cons x xs)
  then show ?case by (cases "Worker_push x (ex_worker s)") (simp_all add: worker_push_def)
qed simp

lemma worker_push_all_list:
  assumes "wf_dq (ex_worker s)" "dq_bottom (ex_worker s) + int (length xs) < 2 ^ 62"
  shows "\<exists>d. worker_push_all xs s = Some (s\<lparr>ex_worker := d\<rparr>) \<and> wf_dq d \<and> dq_list d = dq_list (ex_worker s) @ xs
    \<and> dq_bottom d \<le> dq_bottom (ex_worker s) + int (length xs)"
proof -
  have "length xs \<le> nat (2 ^ 62 - dq_bottom (ex_worker s))" using assms(2) by simp
  from dq.push_each_last [OF assms(1) this] obtain d where
    d: "push_each Worker_push xs (ex_worker s) = Some d" "wf_dq d" "dq_list d = dq_list (ex_worker s) @ xs"
    "nat (2 ^ 62 - dq_bottom (ex_worker s)) = nat (2 ^ 62 - dq_bottom d) + length xs" by blast
  have "dq_bottom d \<le> dq_bottom (ex_worker s) + int (length xs)"
    using d(1,4) assms(2) by linarith
  with d(1-3) show ?thesis by (intro exI [of _ d]) (simp add: worker_push_all_each)
qed

lemma try_steal_list:
  assumes "ex_stealers s \<noteq> []" "\<And>d. d \<in> set (ex_stealers s) \<Longrightarrow> wf_dq d" "wf_dq (ex_worker s)"
    "dq_bottom (ex_worker s) < 2 ^ 61" "unat (ex_steals_attempted s) < 2 ^ 63" "unat (ex_steals_succeeded s) < 2 ^ 63"
  shows "\<exists>v d w a. pick_victim s = Some v \<and> v < length (ex_stealers s)
    \<and> try_steal s = Some (dq_list (ex_stealers s ! v) \<noteq> [], s\<lparr>ex_steals_attempted := ex_steals_attempted s + 1, ex_stealers := (ex_stealers s)[v := d],
        ex_steals_succeeded := ex_steals_succeeded s + a, ex_worker := w\<rparr>)
    \<and> a \<le> 1 \<and> wf_dq d \<and> dq_list d = drop 64 (dq_list (ex_stealers s ! v)) \<and> dq_bottom d = dq_bottom (ex_stealers s ! v)
    \<and> wf_dq w \<and> dq_list w = dq_list (ex_worker s) @ take 64 (dq_list (ex_stealers s ! v))
    \<and> dq_bottom w \<le> dq_bottom (ex_worker s) + 64"
proof -
  let ?v = "unat (victim_seed (ex_polls_executed s)) mod length (ex_stealers s)"
  have v: "?v < length (ex_stealers s)" using assms(1) by simp
  let ?d = "ex_stealers s ! ?v"
  have "wf_dq ?d" using assms(2) v by simp
  from steal_batch_list [OF this, of 64] obtain d where
    d: "Stealer_steal_batch 64 ?d = Some (take 64 (dq_list ?d), d)" "wf_dq d" "dq_list d = drop 64 (dq_list ?d)"
    "dq_bottom d = dq_bottom ?d" by auto
  have c: "add_chk (ex_steals_attempted s) 1 = Some (ex_steals_attempted s + 1)"
    "add_chk (ex_steals_succeeded s) 1 = Some (ex_steals_succeeded s + 1)"
    using assms(5,6) by (auto intro!: add_chk_one)
  let ?s = "s\<lparr>ex_steals_attempted := ex_steals_attempted s + 1, ex_stealers := (ex_stealers s)[?v := d],
      ex_steals_succeeded := ex_steals_succeeded s + 1\<rparr>"
  have "dq_bottom (ex_worker s) + int (length (take 64 (dq_list ?d))) < 2 ^ 62" using assms(4) by simp
  with worker_push_all_list [of ?s "take 64 (dq_list ?d)"] assms(3) obtain w where
    w: "worker_push_all (take 64 (dq_list ?d)) ?s = Some (?s\<lparr>ex_worker := w\<rparr>)" "wf_dq w"
    "dq_list w = dq_list (ex_worker s) @ take 64 (dq_list ?d)" "dq_bottom w \<le> dq_bottom (ex_worker s) + 64" by auto
  have pick: "pick_victim s = Some ?v" "pick_victim (s\<lparr>ex_steals_attempted := a\<rparr>) = Some ?v" for a
    using assms(1) by (simp_all add: pick_victim_def)
  show ?thesis
  proof (cases "dq_list ?d = []")
    case True
    then have "try_steal s = Some (dq_list ?d \<noteq> [], s\<lparr>ex_worker := ex_worker s, ex_stealers := (ex_stealers s)[?v := d],
        ex_steals_attempted := ex_steals_attempted s + 1, ex_steals_succeeded := ex_steals_succeeded s + 0\<rparr>)"
      using assms(1) v c pick(2) d(1) by (simp add: try_steal_def upd_def Let_def)
    with True pick(1) v d(2-4) assms(3) show ?thesis
      by (intro exI [of _ ?v] exI [of _ d] exI [of _ "ex_worker s"] exI [of _ 0]) simp
  next
    case False
    then have "try_steal s = Some (dq_list ?d \<noteq> [], s\<lparr>ex_steals_attempted := ex_steals_attempted s + 1, ex_stealers := (ex_stealers s)[?v := d],
        ex_steals_succeeded := ex_steals_succeeded s + 1, ex_worker := w\<rparr>)"
      using assms(1) v c pick(2) d(1) w(1) by (simp add: try_steal_def upd_def Let_def)
    with False pick(1) v d(2-4) w(2-4) show ?thesis
      by (intro exI [of _ ?v] exI [of _ d] exI [of _ w] exI [of _ 1]) simp
  qed
qed

text \<open>
  Stealing never panics. The victim is a core that exists; up to 64 of its oldest tasks move, in
  their order, behind this core's own, and no task is lost or copied. It succeeds exactly if the
  victim had one.
\<close>

theorem try_steal_moves:
  assumes "ex_stealers s \<noteq> []" "\<And>d. d \<in> set (ex_stealers s) \<Longrightarrow> wf_dq d" "wf_dq (ex_worker s)"
    "dq_bottom (ex_worker s) < 2 ^ 61" "unat (ex_steals_attempted s) < 2 ^ 63" "unat (ex_steals_succeeded s) < 2 ^ 63"
  shows "\<exists>v s'. pick_victim s = Some v \<and> v < length (ex_stealers s)
    \<and> try_steal s = Some (dq_list (ex_stealers s ! v) \<noteq> [], s')
    \<and> dq_list (ex_worker s') = dq_list (ex_worker s) @ take 64 (dq_list (ex_stealers s ! v))
    \<and> map dq_list (ex_stealers s') = (map dq_list (ex_stealers s))[v := drop 64 (dq_list (ex_stealers s ! v))]
    \<and> ex_tasks s' = ex_tasks s \<and> ex_run_queue s' = ex_run_queue s"
proof -
  from try_steal_list [OF assms] obtain v d w a where
    t: "pick_victim s = Some v" "v < length (ex_stealers s)" "try_steal s = Some (dq_list (ex_stealers s ! v) \<noteq> [],
        s\<lparr>ex_steals_attempted := ex_steals_attempted s + 1, ex_stealers := (ex_stealers s)[v := d],
        ex_steals_succeeded := ex_steals_succeeded s + a, ex_worker := w\<rparr>)"
    "dq_list d = drop 64 (dq_list (ex_stealers s ! v))"
    "dq_list w = dq_list (ex_worker s) @ take 64 (dq_list (ex_stealers s ! v))" by blast
  let ?s' = "s\<lparr>ex_steals_attempted := ex_steals_attempted s + 1, ex_stealers := (ex_stealers s)[v := d],
        ex_steals_succeeded := ex_steals_succeeded s + a, ex_worker := w\<rparr>"
  show ?thesis
    by (rule exI [of _ v], rule exI [of _ ?s']) (use t in \<open>simp add: map_update\<close>)
qed

section \<open>An executor with two tasks\<close>

text \<open>Task 7 waits at level 24, task 3 at level 16.\<close>

definition demo_tcbs :: "(unit, unit) task_heap" where
  "demo_tcbs = (\<lambda>t. (TCB_new (TaskId 0) ())\<lparr>tc_state := TaskState_to_u32 Ready,
     tc_effective_priority := (if t = 7 then 8 else 0)\<rparr>)"

definition demo_levels :: "nat \<Rightarrow> addr list" where
  "demo_levels = (\<lambda>_. [])(24 := [7], 16 := [3])"

definition pend :: "(unit, unit) future_poll" where
  "pend t h = (False, h)"

lemma steady_pend: "steady pend t"
  by (auto simp: steady_def pend_def intro: exI [of _ "()"])

lemma rq_total_demo: "rq_total demo_levels = 2"
  using rq_total_update [of 24 "\<lambda>_. []" "[7]"] rq_total_update [of 16 "(\<lambda>_. [])(24 := [7])" "[3]"]
  by (simp add: demo_levels_def rq_total_def NUM_LEVELS_def)

lemma drain_demo: "drain_order demo_levels = [7, 3]"
  by code_simp

lemma demo_executor:
  "\<exists>s :: (unit, unit) executor. exec_ok demo_levels [] s \<and> (\<forall>t. pollable (ex_tasks s t) \<and> tc_decay_counter (ex_tasks s t) = 0)
    \<and> dq_bottom (ex_worker s) = 0 \<and> ex_stealers s = [] \<and> ex_polls_executed s = 0 \<and> ex_idle_cycles s = 0
    \<and> ex_default_quantum s = 10"
proof -
  obtain d :: "addr deque_inner" where d: "deque = Some d" "wf_dq d" "dq_list d = []" "dq_bottom d = 0"
    using deque_wf by blast
  have l: "24 = priority_to_level (tc_effective_priority (demo_tcbs 7))"
    by (simp add: priority_to_level_def demo_tcbs_def)
  obtain h rq where e: "wf_rq h rq ((\<lambda>_. [])(24 := [] @ [7]))" "only_next UNIV demo_tcbs h"
    using rq_enqueue_wf [where h = demo_tcbs and n = 7, OF wf_rq_new _ _ l] only_next_UNIV
    by (fastforce simp: rq_total_def)
  have l2: "16 = priority_to_level (tc_effective_priority (h 3))"
    by (simp add: only_next_prio [OF e(2)] priority_to_level_def demo_tcbs_def TCB_new_def)
  have "rq_total ((\<lambda>_. [])(24 := [] @ [7])) < 2 ^ 32 - 1"
    using rq_total_update [of 24 "\<lambda>_. []" "[7]"] by (simp add: rq_total_def NUM_LEVELS_def)
  from rq_enqueue_wf [where n = 3, OF e(1) _ this l2] obtain h' rq' where
    e': "wf_rq h' rq' demo_levels" "only_next UNIV h h'" using only_next_UNIV
    by (fastforce simp: demo_levels_def)
  have p: "pollable (demo_tcbs t)" "tc_decay_counter (demo_tcbs t) = 0" for t
    by (simp_all add: pollable_def tc_task_state_def demo_tcbs_def TCB_new_def)
  let ?s = "(bootstrap_executor 0 d [] h')\<lparr>ex_run_queue := rq'\<rparr>"
  have "pollable (h' t) \<and> tc_decay_counter (h' t) = 0" for t
    using p [of t] only_next_fields [OF only_next_trans [OF e(2) e'(2)], of t] by simp
  moreover have "exec_ok demo_levels [] ?s"
    using d e'(1) by (simp add: exec_ok_def bootstrap_executor_def Executor_new_def rq_total_demo)
  ultimately show ?thesis
    using d(4) by (intro exI [of _ ?s]) (simp add: bootstrap_executor_def Executor_new_def)
qed

lemma demo_deque: "\<exists>d :: addr deque_inner. wf_dq d \<and> dq_list d = [3] \<and> dq_bottom d = 1"
proof -
  obtain d :: "addr deque_inner" where d: "wf_dq d" "dq_list d = []" "dq_bottom d = 0"
    using deque_wf by blast
  have "dq_bottom d < 2 ^ 62" using d(3) by simp
  from push_list [OF d(1) this, of 3] d show ?thesis by auto
qed

lemma demo_single:
  fixes h :: "('f, 'w) task_heap"
  shows "\<exists>s. exec_ok (\<lambda>_. []) [3] s \<and> ex_tasks s = h \<and> dq_bottom (ex_worker s) = 1 \<and> ex_stealers s = []
    \<and> ex_polls_executed s = 0 \<and> ex_tasks_completed s = 0 \<and> ex_idle_cycles s = 0 \<and> ex_default_quantum s = 10"
proof -
  obtain d :: "addr deque_inner" where d: "wf_dq d" "dq_list d = [3]" "dq_bottom d = 1"
    using demo_deque by blast
  have "exec_ok (\<lambda>_. []) [3] (bootstrap_executor 0 d [] h)"
    using d wf_rq_new by (simp add: exec_ok_def bootstrap_executor_def Executor_new_def rq_total_def)
  then show ?thesis
    using d(3) by (intro exI [of _ "bootstrap_executor 0 d [] h"]) (simp add: bootstrap_executor_def Executor_new_def)
qed

lemma demo_tcbs_fields:
  "pollable (demo_tcbs t)" "tc_decay_counter (demo_tcbs t) = 0" "tc_task_state (demo_tcbs t) = Some Ready"
  by (simp_all add: pollable_def tc_task_state_def demo_tcbs_def TCB_new_def)

lemma no_levels: "[3] @ drain_order (\<lambda>_. []) = [] @ [3]" "rq_total (\<lambda>_. []) = 0"
  by (simp_all add: drain_order_def rq_total_def)


theorem executor_turn_witness:
  "\<exists>(s :: (unit, unit) executor) s' done. run_turn pend s = Some (Polled 3, s')
    \<and> dq_list (ex_worker s') = [7] @ (if done then [] else [3])"
proof -
  obtain s :: "(unit, unit) executor" where s: "exec_ok demo_levels [] s" "\<And>t. pollable (ex_tasks s t)"
    using demo_executor by blast
  have "[] @ drain_order demo_levels = [7] @ [3]" by (simp add: drain_demo)
  from executor_turn [OF s(1) this s(2) steady_pend] show ?thesis by blast
qed

theorem executor_lowest_first_witness:
  "\<exists>(s :: (unit, unit) executor) s'. exec_ok demo_levels [] s \<and> demo_levels 24 = [7] \<and> demo_levels 16 = [3]
    \<and> run_turn pend s = Some (Polled 3, s')"
proof -
  obtain s :: "(unit, unit) executor" where s: "exec_ok demo_levels [] s" "\<And>t. pollable (ex_tasks s t)"
    using demo_executor by blast
  have "demo_levels 16 = [] @ [3]" "\<And>i. i < 16 \<Longrightarrow> demo_levels i = []" by (auto simp: demo_levels_def)
  from executor_lowest_first [OF s(1) _ this s(2) steady_pend] s(1) show ?thesis
    by (auto simp: demo_levels_def NUM_LEVELS_def)
qed

theorem executor_starves_witness:
  "\<exists>(s :: (unit, unit) executor) s'. run_turns pend 3 s = Some ([Polled 3, Polled 3, Polled 3], s')
    \<and> dq_list (ex_worker s') = [7, 3]"
proof -
  obtain s :: "(unit, unit) executor" where s: "exec_ok demo_levels [] s" "\<And>t. pollable (ex_tasks s t)"
    "\<And>t. tc_decay_counter (ex_tasks s t) = 0" "dq_bottom (ex_worker s) = 0" "ex_polls_executed s = 0"
    "ex_default_quantum s = 10" using demo_executor by blast
  have "[] @ drain_order demo_levels = [7] @ [3]" by (simp add: drain_demo)
  moreover have "room_for 3 3 demo_levels s" using s by (simp add: room_for_def rq_total_demo)
  ultimately show ?thesis
    using executor_starves [OF s(1) _ s(2) steady_pend, of "[7]" 3 3] by (fastforce simp: pend_def numeral_eq_Suc)
qed

definition park :: "(unit, unit) future_poll" where
  "park t h = (False, h(t := (h t)\<lparr>tc_state := TaskState_to_u32 Blocked\<rparr>))"

theorem woken_task_lost_witness:
  "\<exists>(s :: (unit, unit) executor) s1 h s2. exec_ok (\<lambda>_. []) [3] s \<and> run_turn park s = Some (Polled 3, s1)
    \<and> ex_polls_executed s1 = 10 \<and> waker_wake 3 (ex_tasks s1) = Some h
    \<and> tc_task_state (h 3) = Some Ready \<and> run_turn park (s1\<lparr>ex_tasks := h\<rparr>) = Some (Idled, s2)"
proof -
  obtain s :: "(unit, unit) executor" where s: "exec_ok (\<lambda>_. []) [3] s" "ex_tasks s = demo_tcbs"
    "dq_bottom (ex_worker s) = 1" "ex_stealers s = []" "ex_polls_executed s = 0" "ex_idle_cycles s = 0"
    "ex_default_quantum s = 10" using demo_single [of demo_tcbs] by blast
  have parks: "parks park 3" by (auto simp: parks_def park_def intro: exI [of _ "()"])
  have one: "[3] @ drain_order (\<lambda>_. []) = [3]" by (simp add: drain_order_def)
  have room: "room_for 1 3 (\<lambda>_. []) s" using s by (simp add: room_for_def no_levels demo_tcbs_fields)
  have p: "pollable (ex_tasks s 3)" and idle: "unat (ex_idle_cycles s) < 2 ^ 63"
    using s demo_tcbs_fields by simp_all
  from woken_task_lost [OF parks s(1) one p s(4) idle room] obtain s1 h s2 where
    r: "run_turn park s = Some (Polled 3, s1)"
    "ex_polls_executed s1 = ex_polls_executed s + of_nat (nat (max 1 (sint (ex_default_quantum s))))"
    "waker_wake 3 (ex_tasks s1) = Some h" "tc_task_state (h 3) = Some Ready"
    "run_turn park (s1\<lparr>ex_tasks := h\<rparr>) = Some (Idled, s2)" by blast
  moreover have "ex_polls_executed s1 = 10" using r(2) s by simp
  ultimately show ?thesis using s(1) by blast
qed

theorem parked_task_panics_witness:
  "\<exists>s :: (unit, unit) executor. poll_loop (\<lambda>t h. (True, snd (park t h))) 3 s = None"
proof -
  obtain s :: "(unit, unit) executor" where "ex_tasks s = demo_tcbs" using demo_single [of demo_tcbs] by blast
  have "tc_task_state (snd (park 3 (ex_tasks s)) 3) = Some Blocked" by (simp add: park_def tc_task_state_def)
  from parked_task_panics [where poll = "\<lambda>t h. (True, snd (park t h))" and s = s, OF refl this] show ?thesis by auto
qed

theorem created_task_dropped_witness:
  "\<exists>(s :: (unit, unit) executor) s'. dq_list (ex_worker s) = [3] \<and> run_turn pend s = Some (Polled 3, s')
    \<and> dq_list (ex_worker s') = [] \<and> ex_polls_executed s' = 0"
proof -
  obtain s :: "(unit, unit) executor" where s: "exec_ok (\<lambda>_. []) [3] s" "ex_tasks s = (\<lambda>_. TCB_new (TaskId 0) ())"
    "ex_polls_executed s = 0" using demo_single [of "\<lambda>_. TCB_new (TaskId 0) ()"] by blast
  have "tc_task_state (ex_tasks s 3) = Some Created"
    by (simp add: s(2) tc_task_state_def TCB_new_def AtomicTaskState_new_def)
  from created_task_dropped [OF s(1) no_levels(1) this, of pend] s show ?thesis by (auto simp: exec_ok_def)
qed

theorem try_steal_moves_witness:
  "\<exists>(s :: (unit, unit) executor) s'. try_steal s = Some (True, s') \<and> dq_list (ex_worker s') = [3]
    \<and> map dq_list (ex_stealers s') = [[]]"
proof -
  obtain d :: "addr deque_inner" where d: "wf_dq d" "dq_list d = [3]" "dq_bottom d = 1" using demo_deque by blast
  obtain d0 :: "addr deque_inner" where d0: "wf_dq d0" "dq_list d0 = []" "dq_bottom d0 = 0"
    using deque_wf by blast
  let ?s = "bootstrap_executor 0 d0 [d] demo_tcbs"
  from d d0 try_steal_moves [of ?s] show ?thesis
    by (fastforce simp: bootstrap_executor_def Executor_new_def)
qed

end
