(* ===== verification/ExecutorRuns.thy ===== *)
theory ExecutorRuns
  imports Executor
begin

text \<open>
  Runs of the executor of \<open>src/task/executor.rs\<close> over many turns, for futures that finish: every
  task that waits is polled to its end.
\<close>

section \<open>Futures that finish\<close>

text \<open>
  A future whose poll touches nothing but its own state; and one that also needs finitely many more
  polls, at most \<open>m t f\<close> of them pending when it is in state \<open>f\<close>.
\<close>

definition local_poll :: "('f, 'w) future_poll \<Rightarrow> bool" where
  "local_poll poll \<longleftrightarrow> (\<forall>t h. \<exists>f. snd (poll t h) = h(t := (h t)\<lparr>tc_future := f\<rparr>))"

definition finishing :: "(addr \<Rightarrow> 'f \<Rightarrow> nat) \<Rightarrow> ('f, 'w) future_poll \<Rightarrow> bool" where
  "finishing m poll \<longleftrightarrow> local_poll poll
     \<and> (\<forall>t h. \<not> fst (poll t h) \<longrightarrow> m t (tc_future (snd (poll t h) t)) < m t (tc_future (h t)))"

lemma finishing_local: "finishing m poll \<Longrightarrow> local_poll poll"
  by (simp add: finishing_def)

lemma local_steady: "local_poll poll \<Longrightarrow> steady poll t"
  unfolding local_poll_def steady_def by (metis fun_upd_same)

text \<open>How many polls the tasks \<open>xs\<close> may still take.\<close>

definition work :: "(addr \<Rightarrow> 'f \<Rightarrow> nat) \<Rightarrow> ('f, 'w) executor \<Rightarrow> addr list \<Rightarrow> nat" where
  "work m s xs = sum_list (map (\<lambda>t. Suc (m t (tc_future (ex_tasks s t)))) xs)"

text \<open>
  What a visit to \<open>t\<close> does to the tasks: the others stay, and if \<open>t\<close> is to finish then it is done or
  has less to do.
\<close>

definition progresses ::
  "(addr \<Rightarrow> 'f \<Rightarrow> nat) \<Rightarrow> ('f, 'w) future_poll \<Rightarrow> addr \<Rightarrow> ('f, 'w) executor \<Rightarrow> ('f, 'w) executor \<Rightarrow> bool" where
  "progresses m poll t s s' \<longleftrightarrow> (\<forall>x. x \<noteq> t \<longrightarrow> ex_tasks s' x = ex_tasks s x)
     \<and> (finishing m poll \<longrightarrow> tc_task_state (ex_tasks s' t) = Some Dead
        \<or> m t (tc_future (ex_tasks s' t)) < m t (tc_future (ex_tasks s t)))"

lemma task_done_progresses:
  assumes "task_done t s = Some s'"
  shows "(\<forall>x. x \<noteq> t \<longrightarrow> ex_tasks s' x = ex_tasks s x) \<and> tc_task_state (ex_tasks s' t) = Some Dead"
  using assms
  by (auto simp: task_done_def expect_transition_def tc_task_state_def AtomicTaskState_set_def Let_def
      split: Option.bind_splits sum.splits)

lemma decay_priority_future: "decay_priority b = Some b' \<Longrightarrow> tc_future b' = tc_future b"
  by (auto simp: decay_priority_def Let_def split: Option.bind_splits if_splits)

lemma quantum_expired_progresses:
  assumes "quantum_expired t s = Some s'"
  shows "(\<forall>x. x \<noteq> t \<longrightarrow> ex_tasks s' x = ex_tasks s x)
    \<and> tc_future (ex_tasks s' t) = tc_future (ex_tasks s t)"
  using assms
  by (auto simp: quantum_expired_def expect_transition_def worker_push_def
      dest!: decay_priority_future split: Option.bind_splits sum.splits if_splits)

lemma poll_loop_progresses:
  assumes "local_poll poll" "poll_loop poll t s = Some s'"
  shows "progresses m poll t s s'"
proof (rule poll_loop.raw_induct [where P = "\<lambda>poll t s s'. local_poll poll \<longrightarrow> progresses m poll t s s'",
    OF _ assms(2), THEN mp, OF _ assms(1)], rule impI)
  fix rec and poll :: "('a, 'b) future_poll" and t s s'
  assume IH: "\<And>poll t s s'. rec poll t s = Some s' \<Longrightarrow> local_poll poll \<longrightarrow> progresses m poll t s s'"
    and body: "(let (ready, h) = poll t (ex_tasks s); s = s\<lparr>ex_tasks := h\<rparr> in
       if ready then task_done t s
       else do {
         p \<leftarrow> add_chk (ex_polls_executed s) 1;
         (remaining, b) \<leftarrow> TCB_consume_tick (ex_tasks s t);
         let s = upd_task t (\<lambda>_. b) (s\<lparr>ex_polls_executed := p\<rparr>);
         if remaining <=s 0 then quantum_expired t s else rec poll t s }) = Some s'"
    and fin: "local_poll poll"
  obtain r h where poll: "poll t (ex_tasks s) = (r, h)" by (cases "poll t (ex_tasks s)")
  with fin obtain f where h: "h = (ex_tasks s)(t := (ex_tasks s t)\<lparr>tc_future := f\<rparr>)"
    unfolding local_poll_def by (metis snd_conv)
  have dec: "m t f < m t (tc_future (ex_tasks s t))" if "finishing m poll" "\<not> r"
  proof -
    have "m t (tc_future (snd (poll t (ex_tasks s)) t)) < m t (tc_future (ex_tasks s t))"
      using that poll unfolding finishing_def by (metis fst_conv)
    with poll h show ?thesis by simp
  qed
  show "progresses m poll t s s'"
  proof (cases r)
    case True
    with body poll have "task_done t (s\<lparr>ex_tasks := h\<rparr>) = Some s'" by simp
    from task_done_progresses [OF this] show ?thesis by (simp add: progresses_def h)
  next
    case False
    with body poll obtain p q b where b: "TCB_consume_tick (h t) = Some (q, b)"
      and s': "(if q <=s 0 then quantum_expired t (upd_task t (\<lambda>_. b) (s\<lparr>ex_tasks := h, ex_polls_executed := p\<rparr>))
        else rec poll t (upd_task t (\<lambda>_. b) (s\<lparr>ex_tasks := h, ex_polls_executed := p\<rparr>))) = Some s'"
      by (auto simp: Let_def split: Option.bind_splits prod.splits)
    let ?s = "upd_task t (\<lambda>_. b) (s\<lparr>ex_tasks := h, ex_polls_executed := p\<rparr>)"
    have fut: "tc_future b = f" using b h by (auto simp: TCB_consume_tick_def Let_def split: Option.bind_splits)
    have less: "m t (tc_future b) < m t (tc_future (ex_tasks s t))" if "finishing m poll"
      using dec [OF that False] fut by simp
    show ?thesis
    proof (cases "q <=s 0")
      case True
      with s' have "quantum_expired t ?s = Some s'" by simp
      from quantum_expired_progresses [OF this] less show ?thesis by (simp add: progresses_def h)
    next
      case False
      with s' have "rec poll t ?s = Some s'" by simp
      from IH [OF this] fin less show ?thesis by (auto simp: progresses_def h)
    qed
  qed
qed

lemma poll_task_progresses:
  assumes "local_poll poll" "poll_task poll t s = Some s'" "tc_task_state (ex_tasks s t) = Some Ready"
  shows "progresses m poll t s s'"
proof -
  have "tc_state (ex_tasks s t) = TaskState_to_u32 Ready" using assms(3) by (simp add: task_state_cell)
  with assms(2) have "poll_loop poll t (upd_task t (\<lambda>b. b\<lparr>tc_state := TaskState_to_u32 Running,
      tc_current_core := ex_core_id s, tc_quantum_remaining := ex_default_quantum s\<rparr>) s) = Some s'"
    by (simp add: poll_task_def upd_task_def TCB_reset_quantum_def)
  from poll_loop_progresses [OF assms(1) this] show ?thesis by (auto simp: progresses_def)
qed

section \<open>A turn\<close>

text \<open>Room for \<open>n\<close> more turns over the tasks \<open>xs\<close>: no counter comes near its end.\<close>

definition room_all :: "nat \<Rightarrow> addr list \<Rightarrow> (nat \<Rightarrow> addr list) \<Rightarrow> ('f, 'w) executor \<Rightarrow> bool" where
  "room_all n xs Q s \<longleftrightarrow> dq_bottom (ex_worker s) + int (rq_total Q) + int n < 2 ^ 62
     \<and> unat (ex_polls_executed s) + n * nat (max 1 (sint (ex_default_quantum s))) < 2 ^ 63
     \<and> unat (ex_tasks_completed s) + n < 2 ^ 63
     \<and> (\<forall>t \<in> set xs. unat (tc_decay_counter (ex_tasks s t)) + n < 2 ^ 32 - 1)"

text \<open>The tasks \<open>xs\<close> wait, each once, and can be polled.\<close>

definition waiting :: "addr list \<Rightarrow> (nat \<Rightarrow> addr list) \<Rightarrow> addr list \<Rightarrow> ('f, 'w) executor \<Rightarrow> bool" where
  "waiting xs Q ts s \<longleftrightarrow> exec_ok Q ts s \<and> ts @ drain_order Q = xs \<and> distinct xs
     \<and> (\<forall>t \<in> set xs. pollable (ex_tasks s t))"

lemma only_next_future: "only_next UNIV h h' \<Longrightarrow> tc_future (h' t) = tc_future (h t)"
  unfolding only_next_def by (metis tcb.ext_inject tcb.surjective tcb.update_convs(15))

lemma drain_none: "drain_order (\<lambda>_. []) = []" "rq_total (\<lambda>_. []) = 0"
  by (simp_all add: drain_order_def rq_total_def)

lemma work_append [simp]: "work m s (xs @ ys) = work m s xs + work m s ys"
  by (simp add: work_def)

lemma work_cong: "(\<And>x. x \<in> set xs \<Longrightarrow> tc_future (ex_tasks s' x) = tc_future (ex_tasks s x)) \<Longrightarrow> work m s' xs = work m s xs"
  by (simp add: work_def cong: map_cong)

text \<open>The counters after a visit that polls \<open>k\<close> times.\<close>

lemma visit_counts:
  assumes "visit_ends poll t s (sint (ex_default_quantum s)) k s'" "room_all (Suc n) (us @ [t]) Q s"
  shows "unat (ex_polls_executed s') \<le> unat (ex_polls_executed s) + nat (max 1 (sint (ex_default_quantum s)))"
    "unat (ex_tasks_completed s') \<le> unat (ex_tasks_completed s) + 1"
    "tc_task_state (ex_tasks s' t) \<noteq> Some Dead \<Longrightarrow>
      unat (tc_decay_counter (ex_tasks s' t)) = unat (tc_decay_counter (ex_tasks s t)) + 1"
proof -
  have k: "k \<le> nat (max 1 (sint (ex_default_quantum s)))" "ex_polls_executed s' = ex_polls_executed s + of_nat k"
    using assms(1) by (auto simp: visit_ends_def)
  then have "unat (ex_polls_executed s) + k < 2 ^ 64" using assms(2) by (auto simp: room_all_def)
  from unat_add_small [OF this] k
  show "unat (ex_polls_executed s') \<le> unat (ex_polls_executed s) + nat (max 1 (sint (ex_default_quantum s)))" by simp
  show "unat (ex_tasks_completed s') \<le> unat (ex_tasks_completed s) + 1"
    using assms unat_add_small [of "ex_tasks_completed s" 1]
    by (auto simp: visit_ends_def room_all_def split: if_splits)
  show "unat (tc_decay_counter (ex_tasks s' t)) = unat (tc_decay_counter (ex_tasks s t)) + 1"
    if "tc_task_state (ex_tasks s' t) \<noteq> Some Dead"
    using assms that by (simp add: visit_ends_def room_all_def unat_plus_one)
qed

lemma visit_pollable:
  assumes "visit_ends poll t s (sint (ex_default_quantum s)) k s'" "room_all (Suc n) (us @ [t]) Q s"
    and "pollable (ex_tasks s t)" "tc_task_state (ex_tasks s' t) \<noteq> Some Dead"
  shows "pollable (ex_tasks s' t)"
proof -
  have "tc_task_state (ex_tasks s' t) = Some Ready" "tc_base_priority (ex_tasks s' t) = tc_base_priority (ex_tasks s t)"
    using assms(1,4) by (auto simp: visit_ends_def)
  with visit_counts(3) [OF assms(1,2,4)] assms(2,3) show ?thesis by (simp add: pollable_def room_all_def)
qed

text \<open>What a visit to \<open>t\<close> leaves behind, where \<open>us\<close> wait as well.\<close>

definition visited :: "nat \<Rightarrow> (addr \<Rightarrow> 'f \<Rightarrow> nat) \<Rightarrow> ('f, 'w) future_poll \<Rightarrow> addr \<Rightarrow> addr list
    \<Rightarrow> ('f, 'w) executor \<Rightarrow> bool \<Rightarrow> ('f, 'w) executor \<Rightarrow> bool" where
  "visited n m poll t us s done s' \<longleftrightarrow>
     waiting (us @ (if done then [] else [t])) (\<lambda>_. []) (us @ (if done then [] else [t])) s'
     \<and> room_all n (us @ (if done then [] else [t])) (\<lambda>_. []) s'
     \<and> (finishing m poll \<longrightarrow> work m s' (us @ (if done then [] else [t])) < work m s (us @ [t]))
     \<and> (done \<longrightarrow> tc_task_state (ex_tasks s' t) = Some Dead)
     \<and> (\<forall>x. x \<noteq> t \<longrightarrow> tc_task_state (ex_tasks s' x) = tc_task_state (ex_tasks s x)
         \<and> pollable (ex_tasks s' x) = pollable (ex_tasks s x)
         \<and> tc_decay_counter (ex_tasks s' x) = tc_decay_counter (ex_tasks s x))
     \<and> ex_stealers s' = ex_stealers s \<and> ex_steals_attempted s' = ex_steals_attempted s
     \<and> ex_steals_succeeded s' = ex_steals_succeeded s \<and> ex_idle_cycles s' = ex_idle_cycles s
     \<and> ex_tasks_completed s' = ex_tasks_completed s + (if done then 1 else 0)"

lemma local_visit:
  assumes fin: "local_poll poll" and ok: "exec_ok (\<lambda>_. []) us s" and dist: "distinct (us @ [t])"
    and poll: "\<And>x. x \<in> set (us @ [t]) \<Longrightarrow> pollable (ex_tasks s x)" and room: "room_all (Suc n) (us @ [t]) (\<lambda>_. []) s"
  shows "\<exists>s' done. poll_task poll t s = Some s' \<and> visited n m poll t us s done s'
    \<and> dq_bottom (ex_worker s') \<le> dq_bottom (ex_worker s) + 1"
proof -
  let ?q = "sint (ex_default_quantum s)"
  have ready: "tc_task_state (ex_tasks s t) = Some Ready" using poll [of t] by (simp add: pollable_def)
  have "?q < 2 ^ 31" using sint_less [of "ex_default_quantum s"] by simp
  then have "can_visit t s ?q"
    using ok poll [of t] by (auto simp: exec_ok_def pollable_def can_visit_def max_def nat_less_iff zless_nat_conj drain_none)
  from poll_task_ends [OF local_steady [OF fin] ready this] obtain s' k where
    s': "poll_task poll t s = Some s'" "visit_ends poll t s ?q k s'" by auto
  have others: "ex_tasks s' x = ex_tasks s x" if "x \<noteq> t" for x
    using poll_task_progresses [OF fin s'(1) ready] that unfolding progresses_def by blast
  have less: "tc_task_state (ex_tasks s' t) = Some Dead
      \<or> m t (tc_future (ex_tasks s' t)) < m t (tc_future (ex_tasks s t))" if "finishing m poll"
    using poll_task_progresses [OF fin s'(1) ready] that unfolding progresses_def by blast
  let ?done = "tc_task_state (ex_tasks s' t) = Some Dead"
  let ?ys = "us @ (if ?done then [] else [t])"
  note counts = visit_counts [OF s'(2) room]
  have us: "ex_tasks s' x = ex_tasks s x" if "x \<in> set us" for x
    using that dist by (intro others) auto
  have pollable: "pollable (ex_tasks s' x)" if "x \<in> set ?ys" for x
    using visit_pollable [OF s'(2) room] dist poll us that by (cases "x = t") (auto split: if_splits)
  have d: "wf_dq (ex_worker s')" "dq_list (ex_worker s') = ?ys" "dq_bottom (ex_worker s') \<le> dq_bottom (ex_worker s) + 1"
    "ex_run_queue s' = ex_run_queue s" "ex_should_halt s' = ex_should_halt s" "ex_default_quantum s' = ex_default_quantum s"
    using s'(2) ok by (auto simp: visit_ends_def exec_ok_def split: if_splits)
  have "wf_rq (ex_tasks s') (ex_run_queue s') (\<lambda>_. [])"
    unfolding d(4) by (rule wf_rq_emptied [of "ex_tasks s" _ "\<lambda>_. []"]) (use ok in \<open>simp_all add: exec_ok_def\<close>)
  then have "exec_ok (\<lambda>_. []) ?ys s'"
    using ok d room counts(1,2) by (simp add: exec_ok_def room_all_def drain_none)
  then have "waiting ?ys (\<lambda>_. []) ?ys s'" using pollable dist by (simp add: waiting_def drain_none)
  moreover have "room_all n ?ys (\<lambda>_. []) s'"
    unfolding room_all_def drain_none d(6)
  proof (intro conjI ballI)
    fix x assume "x \<in> set ?ys"
    then show "unat (tc_decay_counter (ex_tasks s' x)) + n < 2 ^ 32 - 1"
      using room counts(3) us [of x] by (cases "x = t") (auto simp: room_all_def split: if_splits)
  qed (use room d(3) counts(1,2) in \<open>simp_all add: room_all_def drain_none\<close>)
  moreover have "work m s' ?ys < work m s (us @ [t])" if "finishing m poll"
    using less [OF that] work_cong [of us s' s m] us by (auto simp: work_def)
  ultimately have "visited n m poll t us s ?done s'"
    using others s'(2) unfolding visited_def by (auto simp: visit_ends_def)
  with s'(1) d(3) show ?thesis by blast
qed

text \<open>
  A turn in which the last of the waiting tasks, \<open>t\<close>, is visited: it is done, or it still waits
  and has less to do.
\<close>

lemma local_turn:
  assumes fin: "local_poll poll" and w: "waiting (us @ [t]) Q ts s" and room: "room_all (Suc n) (us @ [t]) Q s"
  shows "\<exists>s' done. run_turn poll s = Some (Polled t, s') \<and> visited n m poll t us s done s'
    \<and> dq_bottom (ex_worker s') \<le> dq_bottom (ex_worker s) + int (rq_total Q) + 1"
proof -
  have ok: "exec_ok Q ts s" and xs: "ts @ drain_order Q = us @ [t]" and dist: "distinct (us @ [t])"
    and poll: "\<And>x. x \<in> set (us @ [t]) \<Longrightarrow> pollable (ex_tasks s x)" using w by (auto simp: waiting_def)
  have ne: "ts @ drain_order Q \<noteq> []" and t: "t = last (ts @ drain_order Q)" unfolding xs by simp_all
  from turn_polls [OF ok ne, of poll] obtain h rq d where
    r: "run_turn poll s = (poll_task poll t (s\<lparr>ex_tasks := h, ex_run_queue := rq, ex_worker := d\<rparr>)
      \<bind> (\<lambda>s'. Some (Polled t, s')))" and d: "wf_dq d" "dq_list d = us"
    "dq_bottom d \<le> dq_bottom (ex_worker s) + int (rq_total Q)" "wf_rq h rq (\<lambda>_. [])" "only_next UNIV (ex_tasks s) h"
    using xs unfolding t [symmetric] by (metis butlast_snoc)
  let ?s = "s\<lparr>ex_tasks := h, ex_run_queue := rq, ex_worker := d\<rparr>"
  note same = only_next_fields [OF d(5)] only_next_future [OF d(5)]
  have "exec_ok (\<lambda>_. []) us ?s" using ok d by (simp add: exec_ok_def drain_none)
  moreover have "pollable (ex_tasks ?s x)" if "x \<in> set (us @ [t])" for x using poll [OF that] same(4) by simp
  moreover have "room_all (Suc n) (us @ [t]) (\<lambda>_. []) ?s"
    using room d(3) same(1) by (auto simp: room_all_def drain_none)
  ultimately obtain s' dn where s': "poll_task poll t ?s = Some s'" "visited n m poll t us ?s dn s'"
    "dq_bottom (ex_worker s') \<le> dq_bottom d + 1"
    using local_visit [OF fin _ dist, of ?s n m] by auto
  have "work m ?s (us @ [t]) = work m s (us @ [t])" using same(5) by (intro work_cong) simp
  with s'(2) have "visited n m poll t us s dn s'" using same(1,3,4) by (simp add: visited_def)
  with r s'(1,3) d(3) show ?thesis by fastforce
qed

section \<open>Completion\<close>

lemma room_all_mono:
  assumes "room_all n xs Q s" "k \<le> n"
  shows "room_all k xs Q s"
proof -
  let ?q = "nat (max 1 (sint (ex_default_quantum s)))"
  have "k * ?q \<le> n * ?q" using assms(2) by (rule mult_le_mono1)
  then have "unat (ex_polls_executed s) + k * ?q < 2 ^ 63" using assms(1) unfolding room_all_def by linarith
  moreover have "unat (tc_decay_counter (ex_tasks s t)) + k < 2 ^ 32 - 1" if "t \<in> set xs" for t
    using assms that unfolding room_all_def by fastforce
  ultimately show ?thesis using assms unfolding room_all_def by auto
qed

lemma waiting_completes:
  assumes fin: "finishing m poll" and "waiting xs Q ts s" "room_all (work m s xs) xs Q s"
  shows "\<exists>n rs s'. n \<le> work m s xs \<and> run_turns poll n s = Some (map Polled rs, s') \<and> set rs = set xs
    \<and> (xs \<noteq> [] \<longrightarrow> dq_list (ex_worker s') = []) \<and> (\<forall>t \<in> set xs. tc_task_state (ex_tasks s' t) = Some Dead)
    \<and> (\<forall>t. t \<notin> set xs \<longrightarrow> tc_task_state (ex_tasks s' t) = tc_task_state (ex_tasks s t))
    \<and> ex_tasks_completed s' = ex_tasks_completed s + of_nat (length xs)"
  using assms(2,3)
proof (induction "work m s xs" arbitrary: xs Q ts s rule: less_induct)
  case less
  show ?case
  proof (cases xs rule: rev_cases)
    case Nil
    then show ?thesis by (intro exI [of _ 0] exI [of _ "[]"] exI [of _ s]) simp
  next
    case (snoc us t)
    have pos: "0 < work m s xs" by (simp add: snoc work_def)
    then obtain w where w: "work m s xs = Suc w" by (cases "work m s xs") simp_all
    have "room_all (Suc w) (us @ [t]) Q s" using less.prems(2) unfolding w unfolding snoc .
    from local_turn [OF finishing_local [OF fin] less.prems(1) [unfolded snoc] this] obtain s1 dn where
      s1: "run_turn poll s = Some (Polled t, s1)"
      "waiting (us @ (if dn then [] else [t])) (\<lambda>_. []) (us @ (if dn then [] else [t])) s1"
      "room_all w (us @ (if dn then [] else [t])) (\<lambda>_. []) s1"
      "work m s1 (us @ (if dn then [] else [t])) < work m s xs"
      "dn \<Longrightarrow> tc_task_state (ex_tasks s1 t) = Some Dead"
      "\<And>x. x \<noteq> t \<Longrightarrow> tc_task_state (ex_tasks s1 x) = tc_task_state (ex_tasks s x)"
      "ex_tasks_completed s1 = ex_tasks_completed s + (if dn then 1 else 0)"
      unfolding snoc visited_def using fin by blast
    let ?ys = "us @ (if dn then [] else [t])"
    have "work m s1 ?ys \<le> w" using s1(4) w by simp
    from less.hyps [OF s1(4,2) room_all_mono [OF s1(3) this]] obtain n rs s' where
      r: "n \<le> work m s1 ?ys" "run_turns poll n s1 = Some (map Polled rs, s')" "set rs = set ?ys"
      "?ys \<noteq> [] \<Longrightarrow> dq_list (ex_worker s') = []"
      "\<And>x. x \<in> set ?ys \<Longrightarrow> tc_task_state (ex_tasks s' x) = Some Dead"
      "\<And>x. x \<notin> set ?ys \<Longrightarrow> tc_task_state (ex_tasks s' x) = tc_task_state (ex_tasks s1 x)"
      "ex_tasks_completed s' = ex_tasks_completed s1 + of_nat (length ?ys)" by metis
    have empty: "dq_list (ex_worker s') = []"
    proof (cases "?ys = []")
      case False then show ?thesis by (rule r(4))
    next
      case True
      with r(3) have "rs = []" by simp
      with r(2) have "s' = s1" by (cases n) (auto split: Option.bind_splits prod.splits)
      with s1(2) True show ?thesis by (simp add: waiting_def exec_ok_def)
    qed
    have t: "t \<notin> set us" using less.prems(1) by (simp add: waiting_def snoc)
    have dead: "tc_task_state (ex_tasks s' x) = Some Dead" if "x \<in> set xs" for x
      using that r(5,6) [of x] s1(5) t by (cases "x \<in> set ?ys") (auto simp: snoc split: if_splits)
    have other: "tc_task_state (ex_tasks s' x) = tc_task_state (ex_tasks s x)" if "x \<notin> set xs" for x
      using that r(6) [of x] s1(6) [of x] by (auto simp: snoc split: if_splits)
    have "run_turns poll (Suc n) s = Some (map Polled (t # rs), s')" using s1(1) r(2) by simp
    moreover have "Suc n \<le> work m s xs" using r(1) s1(4) by simp
    moreover have "set (t # rs) = set xs" using r(3) by (auto simp: snoc split: if_splits)
    moreover have "ex_tasks_completed s' = ex_tasks_completed s + of_nat (length xs)"
      using r(7) s1(7) by (simp add: snoc)
    ultimately show ?thesis using empty dead other by blast
  qed
qed

text \<open>
  C10: On a core that gets no new work every task that can finish does: after a number of turns
  bounded by the polls that the futures still need, every task that was waiting in the run queue
  or the deque is dead and counted as completed, each of them was polled, the deque is empty, and
  no other task changed its state. So starvation, which the stack order allows, needs a future
  that never finishes.
\<close>

theorem executor_completes:
  assumes "finishing m poll" "exec_ok Q ts s" "distinct (ts @ drain_order Q)"
    "\<And>t. t \<in> set (ts @ drain_order Q) \<Longrightarrow> pollable (ex_tasks s t)"
    "room_all (work m s (ts @ drain_order Q)) (ts @ drain_order Q) Q s" "ts @ drain_order Q \<noteq> []"
  shows "\<exists>n rs s'. n \<le> work m s (ts @ drain_order Q) \<and> run_turns poll n s = Some (map Polled rs, s')
    \<and> set rs = set (ts @ drain_order Q) \<and> dq_list (ex_worker s') = []
    \<and> (\<forall>t \<in> set (ts @ drain_order Q). tc_task_state (ex_tasks s' t) = Some Dead)
    \<and> (\<forall>t. t \<notin> set (ts @ drain_order Q) \<longrightarrow> tc_task_state (ex_tasks s' t) = tc_task_state (ex_tasks s t))
    \<and> ex_tasks_completed s' = ex_tasks_completed s + of_nat (length (ts @ drain_order Q))"
proof -
  have "waiting (ts @ drain_order Q) Q ts s" using assms(2-4) by (simp add: waiting_def)
  from waiting_completes [OF assms(1) this assms(5)] assms(6) show ?thesis by blast
qed

text \<open>A future that counts down, on an executor whose one task has two pending polls to go.\<close>

definition countdown :: "(nat, unit) future_poll" where
  "countdown t h = (tc_future (h t) = 0, h(t := (h t)\<lparr>tc_future := tc_future (h t) - 1\<rparr>))"

definition counting_tcbs :: "(nat, unit) task_heap" where
  "counting_tcbs = (\<lambda>t. (TCB_new (TaskId 0) 2)\<lparr>tc_state := TaskState_to_u32 Ready\<rparr>)"

lemma finishing_countdown: "finishing (\<lambda>t n. n) countdown"
  by (auto simp: finishing_def local_poll_def countdown_def)

lemma counting_executor:
  "\<exists>s :: (nat, unit) executor. waiting [3] (\<lambda>_. []) [3] s \<and> ex_tasks s = counting_tcbs
    \<and> work (\<lambda>t n. n) s [3] = 3 \<and> room_all 3 [3] (\<lambda>_. []) s \<and> ex_tasks_completed s = 0"
proof -
  obtain s :: "(nat, unit) executor" where s: "exec_ok (\<lambda>_. []) [3] s" "ex_tasks s = counting_tcbs"
    "dq_bottom (ex_worker s) = 1" "ex_polls_executed s = 0" "ex_tasks_completed s = 0" "ex_default_quantum s = 10"
    using demo_single [of counting_tcbs] by blast
  have "work (\<lambda>t n. n) s [3] = 3" by (simp add: work_def s(2) counting_tcbs_def TCB_new_def)
  moreover have "waiting [3] (\<lambda>_. []) [3] s"
    using s(1) by (simp add: waiting_def pollable_def tc_task_state_def s(2) counting_tcbs_def TCB_new_def drain_none)
  moreover have "room_all 3 [3] (\<lambda>_. []) s"
    using s by (simp add: room_all_def drain_none counting_tcbs_def TCB_new_def)
  ultimately show ?thesis using s(2,5) by blast
qed

theorem executor_completes_witness:
  "\<exists>(s :: (nat, unit) executor) n rs s'. tc_future (ex_tasks s 3) = 2 \<and> n \<le> 3
    \<and> run_turns countdown n s = Some (map Polled rs, s') \<and> set rs = {3}
    \<and> tc_task_state (ex_tasks s' 3) = Some Dead \<and> ex_tasks_completed s' = 1"
proof -
  obtain s :: "(nat, unit) executor" where s: "waiting [3] (\<lambda>_. []) [3] s" "ex_tasks s = counting_tcbs"
    "work (\<lambda>t n. n) s [3] = 3" "room_all 3 [3] (\<lambda>_. []) s" "ex_tasks_completed s = 0"
    using counting_executor by blast
  have xs: "[3] @ drain_order (\<lambda>_. []) = [3]" by (simp add: drain_none)
  have ok: "exec_ok (\<lambda>_. []) [3] s" and p: "\<And>t. t \<in> set [3] \<Longrightarrow> pollable (ex_tasks s t)"
    using s(1) by (simp_all add: waiting_def)
  from executor_completes [OF finishing_countdown ok, unfolded xs s(3), OF _ p s(4)]
  obtain n rs s' where "n \<le> 3" "run_turns countdown n s = Some (map Polled rs, s')" "set rs = {3}"
    "tc_task_state (ex_tasks s' 3) = Some Dead" "ex_tasks_completed s' = 1"
    using s(5) by auto
  moreover have "tc_future (ex_tasks s 3) = 2" by (simp add: s(2) counting_tcbs_def TCB_new_def)
  ultimately show ?thesis by blast
qed

section \<open>The states of the tasks\<close>

text \<open>What any number of tasks enqueued, turns and wake-ups do to the states of all tasks.\<close>

datatype exec_op = EnqueueTask addr | RunTurn | WakeTask addr

fun exec_step ::
  "('f, 'w) future_poll \<Rightarrow> exec_op \<Rightarrow> ('f, 'w) executor \<Rightarrow> (turn option \<times> ('f, 'w) executor) option" where
  "exec_step poll (EnqueueTask t) s = map_option (Pair None) (enqueue_task t s)"
| "exec_step poll RunTurn s = map_option (map_prod Some id) (run_turn poll s)"
| "exec_step poll (WakeTask t) s = do { h \<leftarrow> waker_wake t (ex_tasks s); Some (None, s\<lparr>ex_tasks := h\<rparr>) }"

text \<open>A task that has a state keeps having one, and a dead task is dead for good.\<close>

definition typed_step :: "('f, 'w) task_heap \<Rightarrow> ('f, 'w) task_heap \<Rightarrow> bool" where
  "typed_step h h' \<longleftrightarrow> (\<forall>t r. tc_task_state (h t) = Some r \<longrightarrow>
     (\<exists>r'. tc_task_state (h' t) = Some r' \<and> (r = Dead \<longrightarrow> r' = Dead)))"

lemma typed_refl [simp]: "typed_step h h"
  by (simp add: typed_step_def)

lemma typed_trans: "typed_step h h' \<Longrightarrow> typed_step h' h'' \<Longrightarrow> typed_step h h''"
  unfolding typed_step_def by metis

lemma typed_upd:
  assumes "\<And>r. tc_task_state (h t) = Some r \<Longrightarrow> \<exists>r'. tc_task_state b = Some r' \<and> (r = Dead \<longrightarrow> r' = Dead)"
  shows "typed_step h (h(t := b))"
  using assms by (auto simp: typed_step_def)

lemma typed_same_state: "tc_state b = tc_state (h t) \<Longrightarrow> typed_step h (h(t := b))"
  by (rule typed_upd) (simp add: tc_task_state_def)

lemma typed_next [simp]: "typed_step h (set_next a p h)"
  by (simp add: set_next_def typed_same_state)

lemma typed_push: "LevelQueue_push t (h, q) = Some (h', q') \<Longrightarrow> typed_step h h'"
  by (auto simp: LevelQueue_push_def Let_def intro: typed_trans [OF typed_next typed_next]
      split: Option.bind_splits option.splits prod.splits)

lemma typed_pop: "LevelQueue_pop (h, q) = Some (t, h', q') \<Longrightarrow> typed_step h h'"
  by (auto simp: LevelQueue_pop_def Let_def split: Option.bind_splits option.splits)

lemma typed_enqueue: "enqueue_task t s = Some s' \<Longrightarrow> typed_step (ex_tasks s) (ex_tasks s')"
  by (auto simp: enqueue_task_def RunQueue_enqueue_def Let_def dest!: typed_push
      split: Option.bind_splits prod.splits)

lemma typed_dequeue:
  assumes "RunQueue_dequeue s = Some r"
  shows "typed_step (fst s) (fst (snd r))"
proof (rule RunQueue_dequeue.raw_induct [where P = "\<lambda>s r. typed_step (fst s) (fst (snd r))", OF _ assms])
  fix rec :: "('a, 'b) task_heap \<times> run_queue \<Rightarrow> (addr option \<times> ('a, 'b) task_heap \<times> run_queue) option" and s r
  assume IH: "\<And>s r. rec s = Some r \<Longrightarrow> typed_step (fst s) (fst (snd r))"
    and body: "(let bitmap = rq_occupancy (snd s) in
     if bitmap = 0 then Some (None, s)
     else (let level = top_level bitmap in do {
       (t, h, rq) \<leftarrow> dequeue_pop level s;
       case t of
         Some task \<Rightarrow> do {
           drained \<leftarrow> dequeue_check level rq;
           rq' \<leftarrow> dequeue_finish level drained rq;
           Some (Some task, h, rq') }
       | None \<Rightarrow> rec (h, rq) })) = Some r"
  show "typed_step (fst s) (fst (snd r))"
  proof (cases "rq_occupancy (snd s) = 0")
    case True
    with body show ?thesis by auto
  next
    case False
    with body obtain t h rq where pop: "dequeue_pop (top_level (rq_occupancy (snd s))) s = Some (t, h, rq)"
      and r: "fst (snd r) = h \<or> rec (h, rq) = Some r"
      by (auto simp: Let_def split: Option.bind_splits prod.splits option.splits)
    have "typed_step (fst s) h"
      using pop by (auto simp: dequeue_pop_def dest!: typed_pop split: Option.bind_splits prod.splits)
    then show ?thesis using r IH typed_trans by fastforce
  qed
qed

lemma typed_drain:
  assumes "drain_run_queue s = Some s'"
  shows "typed_step (ex_tasks s) (ex_tasks s')"
proof (rule drain_run_queue.raw_induct [where P = "\<lambda>s s'. typed_step (ex_tasks s) (ex_tasks s')", OF _ assms])
  fix rec :: "('a, 'b) executor \<Rightarrow> ('a, 'b) executor option" and s s'
  assume IH: "\<And>s s'. rec s = Some s' \<Longrightarrow> typed_step (ex_tasks s) (ex_tasks s')"
    and body: "do {
     (t, h, rq) \<leftarrow> RunQueue_dequeue (ex_tasks s, ex_run_queue s);
     let s = s\<lparr>ex_tasks := h, ex_run_queue := rq\<rparr>;
     case t of None \<Rightarrow> Some s
     | Some task \<Rightarrow> do { s \<leftarrow> worker_push task s; rec s } } = Some s'"
  then obtain t h rq where deq: "RunQueue_dequeue (ex_tasks s, ex_run_queue s) = Some (t, h, rq)"
    and s': "ex_tasks s' = h \<or> (\<exists>s1. ex_tasks s1 = h \<and> rec s1 = Some s')"
    by (fastforce simp: Let_def worker_push_def split: Option.bind_splits prod.splits option.splits)
  from typed_dequeue [OF deq] s' IH show "typed_step (ex_tasks s) (ex_tasks s')"
    using typed_trans by fastforce
qed

text \<open>Polling, when the polls themselves keep the states.\<close>

lemma typed_expect:
  assumes "expect_transition from to t s = Some s'" "from \<noteq> Dead"
  shows "typed_step (ex_tasks s) (ex_tasks s')"
  using assms
  by (auto simp: expect_transition_def AtomicTaskState_transition_def tc_task_state_def
      intro!: typed_upd split: Option.bind_splits sum.splits if_splits)

lemma typed_done: "task_done t s = Some s' \<Longrightarrow> typed_step (ex_tasks s) (ex_tasks s')"
  by (auto simp: task_done_def Let_def AtomicTaskState_set_def tc_task_state_def dest!: typed_expect
      intro!: typed_trans [OF _ typed_upd] split: Option.bind_splits)

lemma worker_push_tasks: "worker_push t s = Some s' \<Longrightarrow> ex_tasks s' = ex_tasks s"
  by (auto simp: worker_push_def split: Option.bind_splits)

lemma worker_push_all_tasks: "worker_push_all ts s = Some s' \<Longrightarrow> ex_tasks s' = ex_tasks s"
  by (induction ts arbitrary: s) (auto dest: worker_push_tasks split: Option.bind_splits)

lemma typed_upd_task: "(\<And>b. tc_state (f b) = tc_state b) \<Longrightarrow> typed_step (ex_tasks s) (ex_tasks (upd_task t f s))"
  by (simp add: typed_same_state)

lemma decay_priority_state: "decay_priority b = Some b' \<Longrightarrow> tc_state b' = tc_state b"
  by (auto simp: decay_priority_def Let_def split: Option.bind_splits if_splits)

lemma typed_quantum_expired:
  assumes "quantum_expired t s = Some s'"
  shows "typed_step (ex_tasks s) (ex_tasks s')"
proof -
  let ?off = "\<lambda>b. b\<lparr>tc_current_core := - 1\<rparr>"
  from assms obtain s1 b where b: "decay_priority (ex_tasks s1 t) = Some b" "s' = upd_task t (\<lambda>_. b) s1"
    and s1_from: "(\<exists>s2. expect_transition Running Ready t s = Some s2 \<and> worker_push t (upd_task t ?off s2) = Some s1)
      \<or> s1 = upd_task t ?off s"
    by (auto simp: quantum_expired_def split: Option.bind_splits if_splits simp del: upd_task_simps)
  have off: "typed_step (ex_tasks s2) (ex_tasks (upd_task t ?off s2))" for s2 :: "('a, 'b) executor"
    by (rule typed_upd_task) simp
  have s1: "typed_step (ex_tasks s) (ex_tasks s1)"
    using s1_from
  proof (elim disjE exE conjE)
    fix s2
    assume "expect_transition Running Ready t s = Some s2" "worker_push t (upd_task t ?off s2) = Some s1"
    then show ?thesis using typed_trans [OF typed_expect off] by (simp add: worker_push_tasks del: upd_task_simps)
  qed (use off in simp)
  have "typed_step (ex_tasks s1) (ex_tasks s')"
    using decay_priority_state [OF b(1)] unfolding b(2) by (simp add: typed_same_state)
  with s1 show ?thesis by (rule typed_trans)
qed

text \<open>A future whose polls leave every task a state, and dead tasks dead.\<close>

definition typed_poll :: "('f, 'w) future_poll \<Rightarrow> bool" where
  "typed_poll poll \<longleftrightarrow> (\<forall>t h. typed_step h (snd (poll t h)))"

lemma typed_poll_loop:
  assumes "typed_poll poll" "poll_loop poll t s = Some s'"
  shows "typed_step (ex_tasks s) (ex_tasks s')"
proof (rule poll_loop.raw_induct [where P = "\<lambda>poll t s s'. typed_poll poll \<longrightarrow> typed_step (ex_tasks s) (ex_tasks s')",
    OF _ assms(2), THEN mp, OF _ assms(1)], rule impI)
  fix rec and poll :: "('a, 'b) future_poll" and t s s'
  assume IH: "\<And>poll t s s'. rec poll t s = Some s' \<Longrightarrow> typed_poll poll \<longrightarrow> typed_step (ex_tasks s) (ex_tasks s')"
    and body: "(let (ready, h) = poll t (ex_tasks s); s = s\<lparr>ex_tasks := h\<rparr> in
       if ready then task_done t s
       else do {
         p \<leftarrow> add_chk (ex_polls_executed s) 1;
         (remaining, b) \<leftarrow> TCB_consume_tick (ex_tasks s t);
         let s = upd_task t (\<lambda>_. b) (s\<lparr>ex_polls_executed := p\<rparr>);
         if remaining <=s 0 then quantum_expired t s else rec poll t s }) = Some s'"
    and typed: "typed_poll poll"
  obtain r h where poll: "poll t (ex_tasks s) = (r, h)" by (cases "poll t (ex_tasks s)")
  have h: "typed_step (ex_tasks s) h" using typed poll unfolding typed_poll_def by (metis snd_conv)
  show "typed_step (ex_tasks s) (ex_tasks s')"
  proof (cases r)
    case True
    with body poll have "task_done t (s\<lparr>ex_tasks := h\<rparr>) = Some s'" by simp
    from typed_trans [OF h] typed_done [OF this] show ?thesis by simp
  next
    case False
    with body poll obtain p q b where b: "TCB_consume_tick (h t) = Some (q, b)"
      and s': "(if q <=s 0 then quantum_expired t (upd_task t (\<lambda>_. b) (s\<lparr>ex_tasks := h, ex_polls_executed := p\<rparr>))
        else rec poll t (upd_task t (\<lambda>_. b) (s\<lparr>ex_tasks := h, ex_polls_executed := p\<rparr>))) = Some s'"
      by (auto simp: Let_def split: Option.bind_splits prod.splits)
    let ?s = "upd_task t (\<lambda>_. b) (s\<lparr>ex_tasks := h, ex_polls_executed := p\<rparr>)"
    have "tc_state b = tc_state (h t)"
      using b by (auto simp: TCB_consume_tick_def Let_def split: Option.bind_splits)
    then have "typed_step h (ex_tasks ?s)" by (simp add: typed_same_state)
    moreover have "typed_step (ex_tasks ?s) (ex_tasks s')"
      using s' IH typed typed_quantum_expired by (auto split: if_splits simp del: upd_task_simps)
    ultimately show ?thesis using h typed_trans by blast
  qed
qed

lemma typed_poll_task:
  assumes "typed_poll poll" "poll_task poll t s = Some s'"
  shows "typed_step (ex_tasks s) (ex_tasks s')"
proof (cases "tc_state (ex_tasks s t) = TaskState_to_u32 Ready")
  case True
  let ?b = "TCB_reset_quantum (ex_default_quantum s)
    ((ex_tasks s t)\<lparr>tc_state := TaskState_to_u32 Running, tc_current_core := ex_core_id s\<rparr>)"
  have "poll_loop poll t (s\<lparr>ex_tasks := (ex_tasks s)(t := ?b)\<rparr>) = Some s'"
    using assms(2) True by (simp add: poll_task_def upd_task_def)
  from typed_poll_loop [OF assms(1) this] have "typed_step ((ex_tasks s)(t := ?b)) (ex_tasks s')" by simp
  moreover have "typed_step (ex_tasks s) ((ex_tasks s)(t := ?b))"
    using True by (intro typed_upd) (simp add: task_state_cell tc_task_state_def TCB_reset_quantum_def)
  ultimately show ?thesis using typed_trans by blast
next
  case False
  with assms(2) have "s' = s"
    by (auto simp: poll_task_def AtomicTaskState_transition_def split: Option.bind_splits)
  then show ?thesis by simp
qed

lemma try_steal_tasks: "try_steal s = Some (r, s') \<Longrightarrow> ex_tasks s' = ex_tasks s"
  by (auto simp: try_steal_def Let_def dest!: worker_push_all_tasks split: if_splits Option.bind_splits prod.splits)

lemma typed_turn:
  assumes "typed_poll poll" "run_turn poll s = Some (r, s')"
  shows "typed_step (ex_tasks s) (ex_tasks s')"
proof (cases "ex_should_halt s")
  case True
  with assms(2) show ?thesis by (simp add: run_turn_def)
next
  case False
  with assms(2) obtain s1 t d where d: "drain_run_queue s = Some s1" "Worker_pop (ex_worker s1) = Some (t, d)"
    and t: "(case t of Some task \<Rightarrow> (\<exists>s2. poll_task poll task (s1\<lparr>ex_worker := d\<rparr>) = Some s2 \<and> s' = s2)
      | None \<Rightarrow> (\<exists>r s2. try_steal (s1\<lparr>ex_worker := d\<rparr>) = Some (r, s2) \<and> ex_tasks s' = ex_tasks s2))"
    by (fastforce simp: run_turn_def Let_def idle_enter_def split: Option.bind_splits option.splits prod.splits if_splits)
  have "typed_step (ex_tasks s1) (ex_tasks s')"
    using t typed_poll_task [OF assms(1)] by (fastforce dest: try_steal_tasks split: option.splits)
  with typed_drain [OF d(1)] show ?thesis by (rule typed_trans)
qed

lemma typed_wake:
  assumes "waker_wake t h = Some h'"
  shows "typed_step h h'"
proof (cases "tc_task_state (h t)")
  case None
  then have "TCB_wake (h t) = None"
    by (subst TCB_wake.simps) (simp add: AtomicTaskState_get_def tc_task_state_def)
  with assms show ?thesis by (simp add: waker_wake_def)
next
  case (Some r)
  with assms TCB_wake_cell [of "h t" r] show ?thesis
    by (auto simp: waker_wake_def task_state_cell intro!: typed_upd split: if_splits)
qed

lemma typed_exec_step: "typed_poll poll \<Longrightarrow> exec_step poll e s = Some (r, s') \<Longrightarrow> typed_step (ex_tasks s) (ex_tasks s')"
  by (cases e) (auto dest: typed_enqueue typed_turn typed_wake split: Option.bind_splits)

text \<open>
  C22: Type safety of the task states: whatever tasks are enqueued, woken and run, in any order, the
  cell of a task that holds one of the six states goes on holding one, so no read of it is
  undefined; and a dead task stays dead: neither a wake-up nor a place left in a queue brings it
  back. It rests only on the futures' polls doing the same.
\<close>

theorem task_states_typed:
  assumes "typed_poll poll" "run_ops (exec_step poll) ops s = Some (rs, s')"
    "tc_task_state (ex_tasks s t) = Some r"
  shows "\<exists>r'. tc_task_state (ex_tasks s' t) = Some r' \<and> (r = Dead \<longrightarrow> r' = Dead)"
proof -
  have "typed_step (ex_tasks s) (ex_tasks s')"
    using assms(2)
  proof (induction ops arbitrary: s rs)
    case (Cons e ops)
    then obtain q s1 rs' where "exec_step poll e s = Some (q, s1)" "run_ops (exec_step poll) ops s1 = Some (rs', s')"
      by (auto simp: run_ops_Cons_Some simp del: run_ops.simps)
    with Cons.IH typed_exec_step [OF assms(1)] typed_trans show ?case by blast
  qed simp
  with assms(3) show ?thesis by (simp add: typed_step_def)
qed

lemma typed_countdown: "typed_poll countdown"
  by (auto simp: typed_poll_def countdown_def intro: typed_same_state)

theorem task_states_typed_witness:
  "\<exists>(s :: (nat, unit) executor) s' r'. run_ops (exec_step countdown) [WakeTask 3, RunTurn] s = Some ([None, Some (Polled 3)], s')
    \<and> tc_task_state (ex_tasks s 3) = Some Ready \<and> tc_task_state (ex_tasks s' 3) = Some r'"
proof -
  obtain s :: "(nat, unit) executor" where s: "waiting ([] @ [3]) (\<lambda>_. []) [3] s" "ex_tasks s = counting_tcbs"
    "room_all (Suc 2) ([] @ [3]) (\<lambda>_. []) s" using counting_executor by (auto simp: numeral_3_eq_3)
  have ready: "tc_task_state (ex_tasks s 3) = Some Ready"
    by (simp add: s(2) counting_tcbs_def tc_task_state_def)
  then have wake: "waker_wake 3 (ex_tasks s) = Some (ex_tasks s)"
    using TCB_wake_cell [of "ex_tasks s 3" Ready] by (simp add: waker_wake_def task_state_cell fun_upd_idem)
  obtain s' where turn: "run_turn countdown s = Some (Polled 3, s')"
    using local_turn [OF finishing_local [OF finishing_countdown] s(1,3)] by blast
  have run: "run_ops (exec_step countdown) [WakeTask 3, RunTurn] s = Some ([None, Some (Polled 3)], s')"
    using wake turn by simp
  from task_states_typed [OF typed_countdown run ready] run ready show ?thesis by blast
qed

end
