(* ===== verification/Cores.thy ===== *)
theory Cores
  imports ExecutorRuns "HOL-Library.Multiset"
begin

text \<open>
  Several cores: the executors of \<open>src/task/executor.rs\<close>, each with stealers for the deques of all
  the others, over one set of tasks. A turn of a core is one step; what overlapping accesses to
  one deque do is the subject of \<open>Stealer\<close> and \<open>ChaseLev\<close>.
\<close>

record ('f, 'w) cores =
  cu_cores :: "('f, 'w) executor list"
  cu_tasks :: "('f, 'w) task_heap"

text \<open>The deques of the other cores, as core \<open>i\<close> sees them, and the stores of the stolen ones.\<close>

definition deques_but :: "nat \<Rightarrow> ('f, 'w) executor list \<Rightarrow> addr deque_inner list" where
  "deques_but i xs = map ex_worker (take i xs @ drop (Suc i) xs)"

definition put_deques :: "('f, 'w) executor list \<Rightarrow> addr deque_inner list \<Rightarrow> ('f, 'w) executor list" where
  "put_deques xs ds = map2 (\<lambda>s d. s\<lparr>ex_worker := d\<rparr>) xs ds"

definition core_turn ::
  "('f, 'w) future_poll \<Rightarrow> nat \<Rightarrow> ('f, 'w) cores \<Rightarrow> (turn \<times> ('f, 'w) cores) option" where
  "core_turn poll i C = do {
     s \<leftarrow> idx (cu_cores C) i;
     (r, s) \<leftarrow> run_turn poll (s\<lparr>ex_tasks := cu_tasks C, ex_stealers := deques_but i (cu_cores C)\<rparr>);
     Some (r, \<lparr>cu_cores = put_deques (take i (cu_cores C)) (take i (ex_stealers s))
         @ s # put_deques (drop (Suc i) (cu_cores C)) (drop i (ex_stealers s)),
       cu_tasks = ex_tasks s\<rparr>) }"

text \<open>The tasks on the cores' deques.\<close>

definition queued :: "('f, 'w) cores \<Rightarrow> addr list list" where
  "queued C = map (\<lambda>s. dq_list (ex_worker s)) (cu_cores C)"

section \<open>Room for more turns\<close>

definition core_ok :: "nat \<Rightarrow> ('f, 'w) executor \<Rightarrow> bool" where
  "core_ok n s \<longleftrightarrow> exec_ok (\<lambda>_. []) (dq_list (ex_worker s)) s
     \<and> dq_bottom (ex_worker s) + 64 * int n < 2 ^ 61
     \<and> unat (ex_polls_executed s) + n * nat (max 1 (sint (ex_default_quantum s))) < 2 ^ 63
     \<and> unat (ex_tasks_completed s) + n < 2 ^ 63 \<and> unat (ex_steals_attempted s) + n < 2 ^ 63
     \<and> unat (ex_steals_succeeded s) + n < 2 ^ 63 \<and> unat (ex_idle_cycles s) + n < 2 ^ 63"

definition tasks_ok :: "nat \<Rightarrow> ('f, 'w) task_heap \<Rightarrow> addr list \<Rightarrow> bool" where
  "tasks_ok n h xs \<longleftrightarrow> distinct xs
     \<and> (\<forall>t \<in> set xs. pollable (h t) \<and> unat (tc_decay_counter (h t)) + n < 2 ^ 32 - 1)"

definition cores_ok :: "nat \<Rightarrow> ('f, 'w) cores \<Rightarrow> bool" where
  "cores_ok n C \<longleftrightarrow> (\<forall>s \<in> set (cu_cores C). core_ok n s) \<and> tasks_ok n (cu_tasks C) (concat (queued C))"

lemma exec_ok_heap: "exec_ok (\<lambda>_. []) ts s \<Longrightarrow> exec_ok (\<lambda>_. []) ts (s\<lparr>ex_tasks := h, ex_stealers := ds\<rparr>)"
  using wf_rq_emptied [of "ex_tasks s" "ex_run_queue s" "\<lambda>_. []" h] by (simp add: exec_ok_def)

lemma core_ok_less:
  assumes "core_ok (Suc n) s" shows "core_ok n s"
proof -
  let ?q = "nat (max 1 (sint (ex_default_quantum s)))"
  have "n * ?q \<le> Suc n * ?q" by simp
  with assms have "unat (ex_polls_executed s) + n * ?q < 2 ^ 63" unfolding core_ok_def by linarith
  with assms show ?thesis unfolding core_ok_def by auto
qed

lemma core_ok_deque:
  assumes "core_ok n s" "wf_dq d" "dq_bottom d = dq_bottom (ex_worker s)"
  shows "core_ok n (s\<lparr>ex_worker := d\<rparr>)"
  using assms by (simp add: core_ok_def exec_ok_def)

text \<open>A core with nothing to do: it steals, or it idles.\<close>

lemma empty_turn:
  assumes "exec_ok (\<lambda>_. []) [] s"
  obtains h rq d where "run_turn poll s = do {
      (stolen, s) \<leftarrow> try_steal (s\<lparr>ex_tasks := h, ex_run_queue := rq, ex_worker := d\<rparr>);
      if stolen then Some (Stole, s) else do { s \<leftarrow> idle_enter s; Some (Idled, s) } }"
    "wf_dq d" "dq_list d = []" "dq_bottom d \<le> dq_bottom (ex_worker s)" "wf_rq h rq (\<lambda>_. [])"
    "only_next UNIV (ex_tasks s) h"
proof -
  have e: "[] @ drain_order (\<lambda>_. []) = []" by (simp add: drain_none)
  from drain_and_pop [OF assms, unfolded e] obtain h rq d0 d where
    d: "drain_run_queue s = Some (s\<lparr>ex_tasks := h, ex_run_queue := rq, ex_worker := d0\<rparr>)"
    "Worker_pop d0 = Some (last_opt [], d)" "wf_dq d" "dq_list d = butlast []"
    "dq_bottom d \<le> dq_bottom (ex_worker s) + int (rq_total (\<lambda>_. []))" "wf_rq h rq (\<lambda>_. [])"
    "only_next UNIV (ex_tasks s) h" by blast
  then show ?thesis
    using assms by (intro that [where h = h and rq = rq and d = d]) (simp_all add: run_turn_def exec_ok_def last_opt_def drain_none)
qed

section \<open>The others' deques\<close>


lemma queued_put: "length ds = length xs \<Longrightarrow> map (\<lambda>s. dq_list (ex_worker s)) (put_deques xs ds) = map dq_list ds"
  unfolding put_deques_def by (induction xs ds rule: list_induct2') simp_all

lemma length_put: "length (put_deques xs ds) = min (length xs) (length ds)"
  by (simp add: put_deques_def)

lemma put_deques_append:
  "length xs = length ds \<Longrightarrow> put_deques (xs @ ys) (ds @ es) = put_deques xs ds @ put_deques ys es"
  by (simp add: put_deques_def)

text \<open>Deques that are still in order and whose bottom their owner did not move.\<close>

definition same_bottoms :: "('f, 'w) executor list \<Rightarrow> addr deque_inner list \<Rightarrow> bool" where
  "same_bottoms xs ds \<longleftrightarrow> list_all2 (\<lambda>s d. wf_dq d \<and> dq_bottom d = dq_bottom (ex_worker s)) xs ds"

lemma core_ok_put:
  "same_bottoms xs ds \<Longrightarrow> (\<forall>s \<in> set xs. core_ok n s) \<Longrightarrow> \<forall>s \<in> set (put_deques xs ds). core_ok n s"
  unfolding same_bottoms_def
  by (induction rule: list_all2_induct) (auto simp: put_deques_def core_ok_deque)

lemma same_bottoms_workers:
  assumes "\<forall>s \<in> set xs. core_ok n s" "v < length xs" "wf_dq d" "dq_bottom d = dq_bottom (ex_worker (xs ! v))"
  shows "same_bottoms xs ((map ex_worker xs)[v := d])"
  using assms
  by (auto simp: same_bottoms_def list_all2_conv_all_nth nth_list_update core_ok_def exec_ok_def)

lemma mset_concat_update:
  assumes "v < length xs"
  shows "mset (concat (xs[v := drop k (xs ! v)])) + mset (take k (xs ! v)) = mset (concat xs)"
proof -
  have "mset (concat xs) = mset (concat (take v xs @ xs ! v # drop (Suc v) xs))"
    using id_take_nth_drop [OF assms] by simp
  moreover have "mset (xs ! v) = mset (take k (xs ! v)) + mset (drop k (xs ! v))"
    by (metis append_take_drop_id mset_append)
  ultimately show ?thesis using assms by (simp add: upd_conv_take_nth_drop)
qed

lemma tasks_ok_mset:
  assumes "tasks_ok n h xs" "mset ys = mset xs"
    "\<And>t. t \<in> set xs \<Longrightarrow> pollable (h' t) = pollable (h t) \<and> tc_decay_counter (h' t) = tc_decay_counter (h t)"
  shows "tasks_ok n h' ys"
  using assms(1,3) mset_eq_setD [OF assms(2)] mset_eq_imp_distinct_iff [OF assms(2)] by (simp add: tasks_ok_def)

section \<open>A turn of one core\<close>


text \<open>What one turn does to the tasks that wait and to those that do not.\<close>

definition conserves :: "('f, 'w) cores \<Rightarrow> ('f, 'w) cores \<Rightarrow> bool" where
  "conserves C C' \<longleftrightarrow> length (cu_cores C') = length (cu_cores C)
     \<and> set (concat (queued C')) \<subseteq> set (concat (queued C))
     \<and> (\<forall>t. t \<in> set (concat (queued C)) - set (concat (queued C')) \<longrightarrow> tc_task_state (cu_tasks C' t) = Some Dead)
     \<and> (\<forall>t. t \<notin> set (concat (queued C)) \<longrightarrow> tc_task_state (cu_tasks C' t) = tc_task_state (cu_tasks C t))"





text \<open>An idle core: what it finds moves from one deque to its own.\<close>

lemma core_ok_idle:
  assumes "core_ok (Suc n) s" "exec_ok (\<lambda>_. []) (dq_list (ex_worker s')) s'"
    "dq_bottom (ex_worker s') \<le> dq_bottom (ex_worker s) + 64"
    "ex_polls_executed s' = ex_polls_executed s" "ex_default_quantum s' = ex_default_quantum s"
    "ex_tasks_completed s' = ex_tasks_completed s"
    "unat (ex_steals_attempted s') \<le> unat (ex_steals_attempted s) + 1"
    "unat (ex_steals_succeeded s') \<le> unat (ex_steals_succeeded s) + 1"
    "unat (ex_idle_cycles s') \<le> unat (ex_idle_cycles s) + 1"
  shows "core_ok n s'"
  using core_ok_less [OF assms(1)] assms by (simp add: core_ok_def)

lemma unat_add_le: "unat (x + y) \<le> unat x + unat y" for x y :: u64
  by (simp add: unat_word_ariths)

text \<open>A core that has drained its run queue into nothing steals from one of the others.\<close>

lemma idle_cycle:
  assumes "core_ok (Suc n) s"
  shows "add_chk (ex_idle_cycles s) 1 = Some (ex_idle_cycles s + 1)"
    "unat (ex_idle_cycles s + 1) \<le> unat (ex_idle_cycles s) + 1"
  using assms unat_add_small [of "ex_idle_cycles s" 1] by (auto simp: core_ok_def intro!: add_chk_one)

lemma core_steals:
  assumes s: "core_ok (Suc n) s" and xs: "xs \<noteq> []" "\<forall>c \<in> set xs. core_ok (Suc n) c"
    and d: "wf_dq d" "dq_list d = []" "dq_bottom d \<le> dq_bottom (ex_worker s)" "wf_rq h rq (\<lambda>_. [])"
  obtains v s' where "v < length xs"
    "try_steal (s\<lparr>ex_stealers := map ex_worker xs, ex_tasks := h, ex_run_queue := rq, ex_worker := d\<rparr>) =
      Some (dq_list (ex_worker (xs ! v)) \<noteq> [], s')"
    "\<And>i. i = ex_idle_cycles s \<or> i = ex_idle_cycles s + 1 \<Longrightarrow> core_ok n (s'\<lparr>ex_idle_cycles := i\<rparr>)"
    "same_bottoms xs (ex_stealers s')" "ex_tasks s' = h" "ex_polls_executed s' = ex_polls_executed s"
    "ex_idle_cycles s' = ex_idle_cycles s" "dq_list (ex_worker s') = take 64 (dq_list (ex_worker (xs ! v)))"
    "map dq_list (ex_stealers s') = (map (\<lambda>s. dq_list (ex_worker s)) xs)[v := drop 64 (dq_list (ex_worker (xs ! v)))]"
proof -
  let ?s1 = "s\<lparr>ex_stealers := map ex_worker xs, ex_tasks := h, ex_run_queue := rq, ex_worker := d\<rparr>"
  have deq: "\<And>x. x \<in> set (ex_stealers ?s1) \<Longrightarrow> wf_dq x" using xs(2) by (auto simp: core_ok_def exec_ok_def)
  have "dq_bottom (ex_worker ?s1) < 2 ^ 61" using s d(3) by (simp add: core_ok_def)
  then obtain v d' w a where v: "v < length xs" and ts: "try_steal ?s1 = Some (dq_list (ex_worker (xs ! v)) \<noteq> [],
      ?s1\<lparr>ex_steals_attempted := ex_steals_attempted s + 1, ex_stealers := (map ex_worker xs)[v := d'],
        ex_steals_succeeded := ex_steals_succeeded s + a, ex_worker := w\<rparr>)"
    and a: "a \<le> 1" and d': "wf_dq d'" "dq_list d' = drop 64 (dq_list (ex_worker (xs ! v)))"
      "dq_bottom d' = dq_bottom (ex_worker (xs ! v))"
    and w: "wf_dq w" "dq_list w = take 64 (dq_list (ex_worker (xs ! v)))" "dq_bottom w \<le> dq_bottom d + 64"
    using try_steal_list [of ?s1] deq d(1,2) xs(1) s by (auto simp: core_ok_def)
  let ?s2 = "?s1\<lparr>ex_steals_attempted := ex_steals_attempted s + 1, ex_stealers := (map ex_worker xs)[v := d'],
        ex_steals_succeeded := ex_steals_succeeded s + a, ex_worker := w\<rparr>"
  have cnt: "unat (ex_steals_attempted s + 1) \<le> unat (ex_steals_attempted s) + 1"
    "unat (ex_steals_succeeded s + a) \<le> unat (ex_steals_succeeded s) + 1"
    using unat_add_le [of "ex_steals_attempted s" 1] unat_add_le [of "ex_steals_succeeded s" a] a
    by (auto simp: word_le_nat_alt)
  have "core_ok n (?s2\<lparr>ex_idle_cycles := i\<rparr>)" if "i = ex_idle_cycles s \<or> i = ex_idle_cycles s + 1" for i
    by (rule core_ok_idle [OF s])
      (use s d w idle_cycle(2) [OF s] cnt that in \<open>auto simp: core_ok_def exec_ok_def drain_none\<close>)
  moreover have "same_bottoms xs ((map ex_worker xs)[v := d'])"
    using xs(2) v d' by (intro same_bottoms_workers) auto
  ultimately show ?thesis using that [of v ?s2] v ts w(2) d'(2) by (simp add: map_update comp_def)
qed

lemma idle_core_turn:
  assumes s: "core_ok (Suc n) s" and e: "dq_list (ex_worker s) = []" and xs: "\<forall>c \<in> set xs. core_ok (Suc n) c"
  shows "\<exists>r s'. run_turn poll (s\<lparr>ex_tasks := h, ex_stealers := map ex_worker xs\<rparr>) = Some (r, s')
    \<and> same_bottoms xs (ex_stealers s') \<and> core_ok n s' \<and> only_next UNIV h (ex_tasks s')
    \<and> mset (dq_list (ex_worker s')) + mset (concat (map dq_list (ex_stealers s')))
      = mset (concat (map (\<lambda>s. dq_list (ex_worker s)) xs))
    \<and> ex_polls_executed s' = ex_polls_executed s
    \<and> (\<forall>c t. xs = [c] \<longrightarrow> dq_list (ex_worker c) = [t] \<longrightarrow>
        r = Stole \<and> dq_list (ex_worker s') = [t] \<and> map dq_list (ex_stealers s') = [[]])"
proof -
  let ?s = "s\<lparr>ex_tasks := h, ex_stealers := map ex_worker xs\<rparr>"
  have ready: "exec_ok (\<lambda>_. []) [] ?s" using s e by (intro exec_ok_heap) (simp add: core_ok_def)
  obtain h' rq d where t: "run_turn poll ?s = do {
      (stolen, s) \<leftarrow> try_steal (s\<lparr>ex_stealers := map ex_worker xs, ex_tasks := h', ex_run_queue := rq, ex_worker := d\<rparr>);
      if stolen then Some (Stole, s) else do { s \<leftarrow> idle_enter s; Some (Idled, s) } }"
    and d: "wf_dq d" "dq_list d = []" "dq_bottom d \<le> dq_bottom (ex_worker s)" "wf_rq h' rq (\<lambda>_. [])"
    "only_next UNIV h h'" by (rule empty_turn [OF ready, of poll]) (rule that, simp_all)
  let ?s1 = "s\<lparr>ex_stealers := map ex_worker xs, ex_tasks := h', ex_run_queue := rq, ex_worker := d\<rparr>"
  note idle = idle_cycle [OF s]
  show ?thesis
  proof (cases "xs = []")
    case True
    have "core_ok n (?s1\<lparr>ex_idle_cycles := ex_idle_cycles s + 1\<rparr>)"
      by (rule core_ok_idle [OF s]) (use s d idle(2) in \<open>simp_all add: core_ok_def exec_ok_def drain_none\<close>)
    then show ?thesis using t True idle(1) d(2,5)
      by (simp add: try_steal_def idle_enter_def same_bottoms_def)
  next
    case False
    obtain v s2 where v: "v < length xs" and ts: "try_steal ?s1 = Some (dq_list (ex_worker (xs ! v)) \<noteq> [], s2)"
      and ok: "\<And>i. i = ex_idle_cycles s \<or> i = ex_idle_cycles s + 1 \<Longrightarrow> core_ok n (s2\<lparr>ex_idle_cycles := i\<rparr>)"
      and s2: "same_bottoms xs (ex_stealers s2)" "ex_tasks s2 = h'" "ex_polls_executed s2 = ex_polls_executed s"
        "ex_idle_cycles s2 = ex_idle_cycles s" "dq_list (ex_worker s2) = take 64 (dq_list (ex_worker (xs ! v)))"
        "map dq_list (ex_stealers s2) = (map (\<lambda>s. dq_list (ex_worker s)) xs)[v := drop 64 (dq_list (ex_worker (xs ! v)))]"
      by (rule core_steals [OF s False xs d(1-4)]) (rule that)
    have sum: "mset (dq_list (ex_worker s2)) + mset (concat (map dq_list (ex_stealers s2)))
        = mset (concat (map (\<lambda>s. dq_list (ex_worker s)) xs))"
      unfolding s2(5,6) using mset_concat_update [of v "map (\<lambda>s. dq_list (ex_worker s)) xs" 64] v
      by (simp add: add.commute)
    have one: "xs = [c] \<Longrightarrow> v = 0" for c using v by simp
    show ?thesis
    proof (cases "dq_list (ex_worker (xs ! v)) = []")
      case True
      then have "run_turn poll ?s = Some (Idled, s2\<lparr>ex_idle_cycles := ex_idle_cycles s + 1\<rparr>)"
        using t ts idle(1) s2(4) by (simp add: idle_enter_def)
      then show ?thesis using True one sum s2 d(5) ok [of "ex_idle_cycles s + 1"] by auto
    next
      case False
      have "s2\<lparr>ex_idle_cycles := ex_idle_cycles s\<rparr> = s2" using s2(4) by simp
      with False have "run_turn poll ?s = Some (Stole, s2)" "core_ok n s2"
        using t ts ok [of "ex_idle_cycles s"] by simp_all
      then show ?thesis using False one sum s2 d(5) by auto
    qed
  qed
qed

lemma core_turn_idles:
  assumes ok: "cores_ok (Suc n) C" and C: "cu_cores C = as @ s # bs" and q: "dq_list (ex_worker s) = []"
  shows "\<exists>r C'. core_turn poll (length as) C = Some (r, C') \<and> cores_ok n C' \<and> conserves C C'"
proof -
  have s: "core_ok (Suc n) s" and xs: "\<forall>c \<in> set (as @ bs). core_ok (Suc n) c"
    and tasks: "tasks_ok (Suc n) (cu_tasks C) (concat (queued C))" using ok C by (auto simp: cores_ok_def)
  obtain r s' where r: "run_turn poll (s\<lparr>ex_tasks := cu_tasks C, ex_stealers := map ex_worker (as @ bs)\<rparr>) = Some (r, s')"
    "same_bottoms (as @ bs) (ex_stealers s')" "core_ok n s'" "only_next UNIV (cu_tasks C) (ex_tasks s')"
    "mset (dq_list (ex_worker s')) + mset (concat (map dq_list (ex_stealers s')))
      = mset (concat (map (\<lambda>s. dq_list (ex_worker s)) (as @ bs)))"
    using idle_core_turn [OF s q xs] by blast
  let ?da = "take (length as) (ex_stealers s')" and ?db = "drop (length as) (ex_stealers s')"
  have len: "length (ex_stealers s') = length as + length bs"
    using r(2) by (auto simp: same_bottoms_def dest: list_all2_lengthD)
  have bots: "same_bottoms as ?da" "same_bottoms bs ?db"
    using list_all2_takeI [of _ "as @ bs" "ex_stealers s'" "length as"]
      list_all2_dropI [of _ "as @ bs" "ex_stealers s'" "length as"] r(2) by (simp_all add: same_bottoms_def)
  let ?C = "\<lparr>cu_cores = put_deques as ?da @ s' # put_deques bs ?db, cu_tasks = ex_tasks s'\<rparr>"
  have turn: "core_turn poll (length as) C = Some (r, ?C)"
    using r(1) by (simp add: core_turn_def C idx_def deques_but_def)
  have q': "queued ?C = map dq_list ?da @ dq_list (ex_worker s') # map dq_list ?db"
    using len by (simp add: queued_def queued_put)
  have "map dq_list (ex_stealers s') = map dq_list ?da @ map dq_list ?db" by (simp flip: map_append)
  then have "mset (concat (queued ?C)) = mset (dq_list (ex_worker s')) + mset (concat (map dq_list (ex_stealers s')))"
    unfolding q' by simp
  also have "\<dots> = mset (concat (queued C))"
    unfolding r(5) using q by (simp add: queued_def C)
  finally have ms: "mset (concat (queued ?C)) = mset (concat (queued C))" .
  have same: "tc_task_state (ex_tasks s' t) = tc_task_state (cu_tasks C t)" for t
    using only_next_fields(3) [OF r(4)] .
  have "tasks_ok n (ex_tasks s') (concat (queued ?C))"
  proof (rule tasks_ok_mset [OF _ ms])
    show "tasks_ok n (cu_tasks C) (concat (queued C))" using tasks by (fastforce simp: tasks_ok_def)
  qed (simp add: only_next_fields(1,4) [OF r(4)])
  moreover have "\<forall>c \<in> set (cu_cores ?C). core_ok n c"
    using core_ok_put [OF bots(1), of n] core_ok_put [OF bots(2), of n] xs core_ok_less r(3) by auto
  ultimately have "cores_ok n ?C" by (simp add: cores_ok_def)
  moreover have "conserves C ?C"
    using mset_eq_setD [OF ms] same len by (simp add: conserves_def C length_put)
  ultimately show ?thesis using turn by blast
qed



section \<open>A task that nobody polls\<close>

lemma other_core_steals:
  assumes ok: "cores_ok (Suc n) C" and C: "cu_cores C = as @ s # bs" "as @ bs = [c]"
    and q: "dq_list (ex_worker s) = []" "dq_list (ex_worker c) = [t]"
  shows "\<exists>C' s' c'. core_turn poll (length as) C = Some (Stole, C') \<and> cores_ok n C'
    \<and> cu_cores C' = (if as = [] then [s', c'] else [c', s'])
    \<and> dq_list (ex_worker s') = [t] \<and> dq_list (ex_worker c') = []
    \<and> ex_polls_executed s' = ex_polls_executed s \<and> ex_polls_executed c' = ex_polls_executed c
    \<and> (\<forall>x. tc_future (cu_tasks C' x) = tc_future (cu_tasks C x))"
proof -
  obtain r C' where turn: "core_turn poll (length as) C = Some (r, C')" "cores_ok n C'"
    using core_turn_idles [OF ok C(1) q(1)] by blast
  have s: "core_ok (Suc n) s" and xs: "\<forall>x \<in> set [c]. core_ok (Suc n) x"
    using ok C by (auto simp: cores_ok_def append_eq_Cons_conv)
  obtain r' s' where r: "run_turn poll (s\<lparr>ex_tasks := cu_tasks C, ex_stealers := map ex_worker [c]\<rparr>) = Some (r', s')"
    "r' = Stole" "dq_list (ex_worker s') = [t]" "map dq_list (ex_stealers s') = [[]]"
    "ex_polls_executed s' = ex_polls_executed s" "only_next UNIV (cu_tasks C) (ex_tasks s')"
    using idle_core_turn [OF s q(1) xs, of poll "cu_tasks C"] q(2) by blast
  from r(4) obtain d where d: "ex_stealers s' = [d]" "dq_list d = []" by (auto simp: map_eq_Cons_conv)
  let ?c = "c\<lparr>ex_worker := d\<rparr>"
  let ?C = "\<lparr>cu_cores = (if as = [] then [s', ?c] else [?c, s']), cu_tasks = ex_tasks s'\<rparr>"
  have "core_turn poll (length as) C = Some (Stole, ?C)"
    using C r(1,2) d(1)
    by (cases as) (auto simp: core_turn_def idx_def deques_but_def put_deques_def)
  moreover from this turn have "cores_ok n ?C" by simp
  ultimately show ?thesis
    using r(3,5) d(2) only_next_future [OF r(6)]
    by (intro exI [of _ ?C] exI [of _ s'] exI [of _ ?c]) simp
qed

text \<open>
  A task can be passed on for ever: when each of two cores finds its deque empty just after the
  other stole the only task, every turn is a steal and the task is never polled, although it is
  ready all the time and its future would be done at the first poll.
\<close>

theorem steals_pass_task_on:
  assumes "cores_ok (2 * n) C" "queued C = [[t], []]"
  shows "\<exists>C'. run_ops (core_turn poll) (concat (replicate n [1, 0])) C = Some (replicate (2 * n) Stole, C')
    \<and> queued C' = [[t], []] \<and> map ex_polls_executed (cu_cores C') = map ex_polls_executed (cu_cores C)
    \<and> tc_future (cu_tasks C' t) = tc_future (cu_tasks C t)"
  using assms
proof (induction n arbitrary: C)
  case (Suc n)
  obtain a b where C: "cu_cores C = [a, b]" and q: "dq_list (ex_worker a) = [t]" "dq_list (ex_worker b) = []"
    using Suc.prems(2) by (auto simp: queued_def map_eq_Cons_conv)
  have ok: "cores_ok (Suc (Suc (2 * n))) C" using Suc.prems(1) by simp
  obtain C1 a1 b1 where C1: "core_turn poll 1 C = Some (Stole, C1)" "cores_ok (Suc (2 * n)) C1" "cu_cores C1 = [a1, b1]"
    "dq_list (ex_worker b1) = [t]" "dq_list (ex_worker a1) = []" "ex_polls_executed b1 = ex_polls_executed b"
    "ex_polls_executed a1 = ex_polls_executed a" "tc_future (cu_tasks C1 t) = tc_future (cu_tasks C t)"
    using other_core_steals [OF ok, of "[a]" b "[]" a t poll] C q by auto
  obtain C2 a2 b2 where C2: "core_turn poll 0 C1 = Some (Stole, C2)" "cores_ok (2 * n) C2" "cu_cores C2 = [a2, b2]"
    "dq_list (ex_worker a2) = [t]" "dq_list (ex_worker b2) = []" "ex_polls_executed a2 = ex_polls_executed a1"
    "ex_polls_executed b2 = ex_polls_executed b1" "tc_future (cu_tasks C2 t) = tc_future (cu_tasks C1 t)"
    using other_core_steals [OF C1(2), of "[]" a1 "[b1]" b1 t poll] C1(3-5) by auto
  have "queued C2 = [[t], []]" using C2(3-5) by (simp add: queued_def)
  from Suc.IH [OF C2(2) this] obtain C' where
    C': "run_ops (core_turn poll) (concat (replicate n [1, 0])) C2 = Some (replicate (2 * n) Stole, C')"
    "queued C' = [[t], []]" "map ex_polls_executed (cu_cores C') = map ex_polls_executed (cu_cores C2)"
    "tc_future (cu_tasks C' t) = tc_future (cu_tasks C2 t)" by blast
  show ?case
    using C1(1,3,6-8) C2(1,3,6-8) C' C by (intro exI [of _ C']) simp
qed simp

text \<open>Two cores, one of them with a task, for the witnesses.\<close>

lemma core_ok_bootstrap:
  "wf_dq d \<Longrightarrow> dq_bottom d \<le> 1 \<Longrightarrow> n \<le> 9 \<Longrightarrow> core_ok n (bootstrap_executor k d [] h)"
  using wf_rq_new by (simp add: core_ok_def exec_ok_def bootstrap_executor_def Executor_new_def drain_none)

lemma demo_cores:
  assumes "n \<le> 9"
  shows "\<exists>C :: (nat, unit) cores. cores_ok n C \<and> queued C = [[3], []] \<and> length (cu_cores C) = 2"
proof -
  obtain d :: "addr deque_inner" where d: "wf_dq d" "dq_list d = [3]" "dq_bottom d = 1" using demo_deque by blast
  obtain e :: "addr deque_inner" where e: "wf_dq e" "dq_list e = []" "dq_bottom e = 0" using deque_wf by blast
  let ?C = "\<lparr>cu_cores = [bootstrap_executor 0 d [] counting_tcbs, bootstrap_executor 1 e [] counting_tcbs],
    cu_tasks = counting_tcbs\<rparr>"
  have q: "queued ?C = [[3], []]"
    using d(2) e(2) by (simp add: queued_def bootstrap_executor_def Executor_new_def)
  have "tasks_ok n counting_tcbs [3]"
    using assms by (simp add: tasks_ok_def pollable_def tc_task_state_def counting_tcbs_def TCB_new_def)
  then have "cores_ok n ?C"
    using core_ok_bootstrap [of d n 0 counting_tcbs] core_ok_bootstrap [of e n 1 counting_tcbs] assms d(1,3) e(1,3) q
    by (simp add: cores_ok_def)
  with q show ?thesis by (intro exI [of _ ?C]) simp
qed


theorem steals_pass_task_on_witness:
  "\<exists>(C :: (nat, unit) cores) C'. queued C = [[3], []]
    \<and> run_ops (core_turn countdown) [1, 0, 1, 0] C = Some ([Stole, Stole, Stole, Stole], C') \<and> queued C' = [[3], []]"
proof -
  obtain C :: "(nat, unit) cores" where C: "cores_ok (2 * 2) C" "queued C = [[3], []]"
    using demo_cores [of "2 * 2"] by auto
  from steals_pass_task_on [OF C, of countdown] C(2) show ?thesis by (auto simp: eval_nat_numeral)
qed

end
