(* ===== verification/Oneshot.thy ===== *)
theory Oneshot
  imports Interfaces
begin

text \<open>
  The oneshot channel, \<open>src/primitives/oneshot.rs\<close>: the reference-counted box that both halves
  share, and the accesses of the sender and of the receiver to it, one at a time, so that they
  interleave in every order. Memory is sequentially consistent. \<open>T\<close> is a parameter of the box,
  as the code means it.
\<close>

section \<open>The shared box\<close>

definition EMPTY :: u8 where "EMPTY = 0"
definition WAITING :: u8 where "WAITING = 1"
definition READY :: u8 where "READY = 2"
definition CONSUMED :: u8 where "CONSUMED = 3"
definition CLOSED :: u8 where "CLOSED = 4"

record ('a, 'w) shared_box =
  sb_refcount :: u32
  sb_state :: u8
  sb_value :: "'a option"
  sb_waker :: "'w option"
  sb_freed :: bool

text \<open>Every access goes through a raw pointer; once the box is freed it is undefined.\<close>

definition access :: "('a, 'w) shared_box \<Rightarrow> ('a, 'w) shared_box option" where
  "access b = (if sb_freed b then None else Some b)"

definition Shared_clone :: "('a, 'w) shared_box \<Rightarrow> ('a, 'w) shared_box option" where
  "Shared_clone b = do { b \<leftarrow> access b; Some (b\<lparr>sb_refcount := sb_refcount b + 1\<rparr>) }"

text \<open>The flag says whether this was the last reference; the box is then freed.\<close>

definition Shared_drop :: "('a, 'w) shared_box \<Rightarrow> (bool \<times> ('a, 'w) shared_box) option" where
  "Shared_drop b = do { b \<leftarrow> access b;
     let final = (sb_refcount b = 1);
     Some (final, b\<lparr>sb_refcount := sb_refcount b - 1, sb_freed := final\<rparr>) }"

definition oneshot :: "('a, 'w) shared_box option" where
  "oneshot = Shared_clone \<lparr>sb_refcount = 1, sb_state = EMPTY, sb_value = None, sb_waker = None,
     sb_freed = False\<rparr>"

section \<open>The two halves\<close>

datatype 'a send_error = SendClosed 'a
datatype recv_error = RecvClosed

text \<open>
  Where the sender stands: \<open>SIdle\<close> holds the \<open>Sender\<close>; \<open>SLoop\<close>, \<open>SCas\<close>, \<open>SStore\<close> and \<open>STake\<close>
  are the accesses of \<open>send\<close>; the drop of an unused sender goes through \<open>SStore\<close> and \<open>STake\<close> or
  through \<open>SClose\<close>. In the end the reference is dropped; the result is that of \<open>send\<close>, \<open>None\<close>
  after a drop.
\<close>

type_synonym 'a send_result = "('a send_error + unit) option"

datatype 'a send_pc =
    SIdle
  | SLoop
  | SCas
  | SStore u8 "'a send_result"
  | STake "'a send_result"
  | SClose
  | SRelease "'a send_result"
  | SGone "'a send_result"

text \<open>
  Where the receiver stands: \<open>RIdle\<close> before the first poll (a \<open>Receiver\<close>, or a future that was
  not polled), \<open>RParked w\<close> after a poll with the waker \<open>w\<close> that returned \<open>Pending\<close>, \<open>RDone\<close> after
  one that returned \<open>Ready\<close>.
\<close>

datatype ('a, 'w) recv_pc =
    RIdle
  | RParked 'w
  | RPark 'w
  | RCas 'w
  | RRecheck 'w
  | RConsume
  | RTake
  | RDone "recv_error + 'a"
  | RRelease
  | RGone

record ('a, 'w) os_sys =
  os_box :: "('a, 'w) shared_box"
  os_send :: "'a send_pc"
  os_recv :: "('a, 'w) recv_pc"
  os_registered :: bool
  os_sent :: "'a option" \<comment> \<open>the value given to \<open>send\<close>\<close>
  os_woken :: "'w list" \<comment> \<open>the wakers woken so far\<close>

datatype ('a, 'w) os_event = SendV 'a | DropSender | SenderStep | PollWith 'w | RecvStep | DropRecv

text \<open>\<open>send\<close>, from the store of the value on, and the drop of a sender.\<close>

definition Sender_send :: "'a \<Rightarrow> ('a, 'w) os_sys \<Rightarrow> ('a, 'w) os_sys option" where
  "Sender_send v s = do { b \<leftarrow> access (os_box s);
     Some (s\<lparr>os_box := b\<lparr>sb_value := Some v\<rparr>, os_send := SLoop, os_sent := Some v\<rparr>) }"

definition Sender_drop :: "('a, 'w) os_sys \<Rightarrow> ('a, 'w) os_sys option" where
  "Sender_drop s = do { b \<leftarrow> access (os_box s);
     Some (s\<lparr>os_send := (if sb_state b = WAITING then SStore CLOSED None
        else if sb_state b = EMPTY then SClose else SRelease None)\<rparr>) }"

fun sender_step :: "'a send_pc \<Rightarrow> ('a, 'w) os_sys \<Rightarrow> ('a, 'w) os_sys option" where
  "sender_step SIdle s = Some s"
| "sender_step SLoop s = do { b \<leftarrow> access (os_box s);
     if sb_state b = EMPTY then Some (s\<lparr>os_send := SCas\<rparr>)
     else if sb_state b = WAITING then Some (s\<lparr>os_send := SStore READY (Some (Inr ()))\<rparr>)
     else None }"
| "sender_step SCas s = do { b \<leftarrow> access (os_box s);
     if sb_state b = EMPTY
     then Some (s\<lparr>os_box := b\<lparr>sb_state := READY\<rparr>, os_send := SRelease (Some (Inr ()))\<rparr>)
     else Some (s\<lparr>os_send := SLoop\<rparr>) }"
| "sender_step (SStore st r) s = do { b \<leftarrow> access (os_box s);
     Some (s\<lparr>os_box := b\<lparr>sb_state := st\<rparr>, os_send := STake r\<rparr>) }"
| "sender_step (STake r) s = do { b \<leftarrow> access (os_box s);
     Some (s\<lparr>os_box := b\<lparr>sb_waker := None\<rparr>, os_send := SRelease r,
       os_woken := os_woken s @ (case sb_waker b of None \<Rightarrow> [] | Some w \<Rightarrow> [w])\<rparr>) }"
| "sender_step SClose s = do { b \<leftarrow> access (os_box s);
     Some (s\<lparr>os_box := b\<lparr>sb_state := CLOSED\<rparr>, os_send := SRelease None\<rparr>) }"
| "sender_step (SRelease r) s = do { (_, b) \<leftarrow> Shared_drop (os_box s);
     Some (s\<lparr>os_box := b, os_send := SGone r\<rparr>) }"
| "sender_step (SGone r) s = Some s"

text \<open>\<open>poll\<close>, from the first load of the state on.\<close>

definition Recv_poll :: "'w \<Rightarrow> ('a, 'w) os_sys \<Rightarrow> ('a, 'w) os_sys option" where
  "Recv_poll w s = do { b \<leftarrow> access (os_box s);
     if sb_state b = READY then Some (s\<lparr>os_recv := RConsume\<rparr>)
     else if sb_state b = CLOSED then Some (s\<lparr>os_recv := RDone (Inl RecvClosed)\<rparr>)
     else if sb_state b = EMPTY \<or> sb_state b = WAITING then Some (s\<lparr>os_recv := RPark w\<rparr>)
     else None }"

fun recv_step :: "('a, 'w) recv_pc \<Rightarrow> ('a, 'w) os_sys \<Rightarrow> ('a, 'w) os_sys option" where
  "recv_step (RPark w) s = do { b \<leftarrow> access (os_box s);
     Some (s\<lparr>os_box := b\<lparr>sb_waker := Some w\<rparr>,
       os_recv := (if os_registered s then RRecheck w else RCas w)\<rparr>) }"
| "recv_step (RCas w) s = do { b \<leftarrow> access (os_box s);
     Some (s\<lparr>os_box := (if sb_state b = EMPTY then b\<lparr>sb_state := WAITING\<rparr> else b),
       os_recv := RRecheck w, os_registered := True\<rparr>) }"
| "recv_step (RRecheck w) s = do { b \<leftarrow> access (os_box s);
     Some (s\<lparr>os_recv := (if sb_state b = READY then RConsume
       else if sb_state b = CLOSED then RDone (Inl RecvClosed) else RParked w)\<rparr>) }"
| "recv_step RConsume s = do { b \<leftarrow> access (os_box s);
     Some (s\<lparr>os_box := b\<lparr>sb_state := CONSUMED\<rparr>, os_recv := RTake\<rparr>) }"
| "recv_step RTake s = do { b \<leftarrow> access (os_box s); v \<leftarrow> sb_value b;
     Some (s\<lparr>os_box := b\<lparr>sb_value := None\<rparr>, os_recv := RDone (Inr v)\<rparr>) }"
| "recv_step RRelease s = do { (_, b) \<leftarrow> Shared_drop (os_box s);
     Some (s\<lparr>os_box := b, os_recv := RGone\<rparr>) }"
| "recv_step _ s = Some s"

text \<open>
  What may happen next. What ownership or the contract of futures rules out has no effect: a
  second use of the sender, a poll inside a poll or after \<open>Ready\<close>, a drop inside a poll.
\<close>

definition os_step :: "('a, 'w) os_event \<Rightarrow> ('a, 'w) os_sys \<Rightarrow> ('a, 'w) os_sys option" where
  "os_step e s = (case e of
     SendV v \<Rightarrow> (if os_send s = SIdle then Sender_send v s else Some s)
   | DropSender \<Rightarrow> (if os_send s = SIdle then Sender_drop s else Some s)
   | SenderStep \<Rightarrow> sender_step (os_send s) s
   | PollWith w \<Rightarrow> (case os_recv s of RIdle \<Rightarrow> Recv_poll w s | RParked _ \<Rightarrow> Recv_poll w s | _ \<Rightarrow> Some s)
   | RecvStep \<Rightarrow> recv_step (os_recv s) s
   | DropRecv \<Rightarrow> (case os_recv s of
         RIdle \<Rightarrow> Some (s\<lparr>os_recv := RRelease\<rparr>) | RParked _ \<Rightarrow> Some (s\<lparr>os_recv := RRelease\<rparr>)
       | RDone _ \<Rightarrow> Some (s\<lparr>os_recv := RRelease\<rparr>) | _ \<Rightarrow> Some s))"

abbreviation os_run :: "('a, 'w) os_event list \<Rightarrow> ('a, 'w) os_sys \<Rightarrow> ('a, 'w) os_sys option" where
  "os_run \<equiv> event_run os_step"

definition os_init :: "('a, 'w) os_sys option" where
  "os_init = do { b \<leftarrow> oneshot;
     Some \<lparr>os_box = b, os_send = SIdle, os_recv = RIdle, os_registered = False, os_sent = None,
       os_woken = []\<rparr> }"

section \<open>The invariant\<close>

lemma states_distinct [simp]:
  "EMPTY \<noteq> WAITING" "EMPTY \<noteq> READY" "EMPTY \<noteq> CONSUMED" "EMPTY \<noteq> CLOSED" "WAITING \<noteq> EMPTY"
  "WAITING \<noteq> READY" "WAITING \<noteq> CONSUMED" "WAITING \<noteq> CLOSED" "READY \<noteq> EMPTY" "READY \<noteq> WAITING"
  "READY \<noteq> CONSUMED" "READY \<noteq> CLOSED" "CONSUMED \<noteq> EMPTY" "CONSUMED \<noteq> WAITING" "CONSUMED \<noteq> READY"
  "CONSUMED \<noteq> CLOSED" "CLOSED \<noteq> EMPTY" "CLOSED \<noteq> WAITING" "CLOSED \<noteq> READY" "CLOSED \<noteq> CONSUMED"
  by (simp_all add: EMPTY_def WAITING_def READY_def CONSUMED_def CLOSED_def)

text \<open>The states the sender can leave behind when it is through.\<close>

fun sent_final :: "'a send_result \<Rightarrow> u8 \<Rightarrow> 'a option \<Rightarrow> bool" where
  "sent_final (Some (Inr _)) st sent \<longleftrightarrow> sent \<noteq> None \<and> (st = READY \<or> st = CONSUMED)"
| "sent_final (Some (Inl _)) st sent \<longleftrightarrow> False"
| "sent_final None st sent \<longleftrightarrow> sent = None \<and> st = CLOSED"

fun send_inv :: "'a send_pc \<Rightarrow> u8 \<Rightarrow> 'a option \<Rightarrow> bool" where
  "send_inv SIdle st sent \<longleftrightarrow> (st = EMPTY \<or> st = WAITING) \<and> sent = None"
| "send_inv SClose st sent \<longleftrightarrow> (st = EMPTY \<or> st = WAITING) \<and> sent = None"
| "send_inv SLoop st sent \<longleftrightarrow> (st = EMPTY \<or> st = WAITING) \<and> sent \<noteq> None"
| "send_inv SCas st sent \<longleftrightarrow> (st = EMPTY \<or> st = WAITING) \<and> sent \<noteq> None"
| "send_inv (SStore c r) st sent \<longleftrightarrow> st = WAITING
     \<and> (c = READY \<and> sent \<noteq> None \<and> r = Some (Inr ()) \<or> c = CLOSED \<and> sent = None \<and> r = None)"
| "send_inv (STake r) st sent \<longleftrightarrow> sent_final r st sent"
| "send_inv (SRelease r) st sent \<longleftrightarrow> sent_final r st sent"
| "send_inv (SGone r) st sent \<longleftrightarrow> sent_final r st sent"

fun recv_inv :: "('a, 'w) recv_pc \<Rightarrow> u8 \<Rightarrow> 'a option \<Rightarrow> bool" where
  "recv_inv RConsume st sent \<longleftrightarrow> st = READY"
| "recv_inv RTake st sent \<longleftrightarrow> st = CONSUMED"
| "recv_inv (RDone r) st sent \<longleftrightarrow>
     (case r of Inr v \<Rightarrow> st = CONSUMED \<and> sent = Some v | Inl _ \<Rightarrow> st = CLOSED)"
| "recv_inv RRelease st sent \<longleftrightarrow> True"
| "recv_inv RGone st sent \<longleftrightarrow> True"
| "recv_inv _ st sent \<longleftrightarrow> st \<noteq> CONSUMED"

text \<open>How far the sender is from a receiver that is parked with the waker \<open>w\<close>.\<close>

fun park_inv :: "'w \<Rightarrow> 'a send_pc \<Rightarrow> u8 \<Rightarrow> 'w option \<Rightarrow> 'w list \<Rightarrow> bool" where
  "park_inv w (STake r) st waker woken \<longleftrightarrow> waker = Some w"
| "park_inv w (SRelease r) st waker woken \<longleftrightarrow> (r \<noteq> None \<longrightarrow> woken = [w])"
| "park_inv w (SGone r) st waker woken \<longleftrightarrow> (r \<noteq> None \<longrightarrow> woken = [w])"
| "park_inv w _ st waker woken \<longleftrightarrow> st = WAITING \<and> waker = Some w"

fun waker_inv :: "('a, 'w) recv_pc \<Rightarrow> 'a send_pc \<Rightarrow> bool \<Rightarrow> u8 \<Rightarrow> 'w option \<Rightarrow> 'w list \<Rightarrow> bool" where
  "waker_inv RIdle p reg st waker woken \<longleftrightarrow> \<not> reg"
| "waker_inv (RPark w) p reg st waker woken \<longleftrightarrow> (reg \<longrightarrow> st \<noteq> EMPTY)"
| "waker_inv (RCas w) p reg st waker woken \<longleftrightarrow> (st = EMPTY \<or> st = WAITING \<longrightarrow> waker = Some w)"
| "waker_inv (RRecheck w) p reg st waker woken \<longleftrightarrow>
     reg \<and> st \<noteq> EMPTY \<and> (st = WAITING \<longrightarrow> waker = Some w)"
| "waker_inv (RParked w) p reg st waker woken \<longleftrightarrow> reg \<and> st \<noteq> EMPTY \<and> park_inv w p st waker woken"
| "waker_inv _ p reg st waker woken \<longleftrightarrow> True"

fun sender_holds :: "'a send_pc \<Rightarrow> bool" where
  "sender_holds (SGone _) \<longleftrightarrow> False"
| "sender_holds _ \<longleftrightarrow> True"

fun through :: "'a send_pc \<Rightarrow> bool" where
  "through (SRelease _) \<longleftrightarrow> True"
| "through (SGone _) \<longleftrightarrow> True"
| "through _ \<longleftrightarrow> False"

definition box_inv :: "('a, 'w) shared_box \<Rightarrow> bool \<Rightarrow> bool \<Rightarrow> bool" where
  "box_inv b sender receiver \<longleftrightarrow> sb_refcount b = of_bool sender + of_bool receiver
     \<and> sb_freed b = (\<not> sender \<and> \<not> receiver)"

definition os_inv :: "('a, 'w) os_sys \<Rightarrow> bool" where
  "os_inv s \<longleftrightarrow> (let b = os_box s in
     box_inv b (sender_holds (os_send s)) (os_recv s \<noteq> RGone)
     \<and> send_inv (os_send s) (sb_state b) (os_sent s)
     \<and> recv_inv (os_recv s) (sb_state b) (os_sent s)
     \<and> (sb_state b \<noteq> CONSUMED \<or> os_recv s = RTake \<longrightarrow> sb_value b = os_sent s)
     \<and> waker_inv (os_recv s) (os_send s) (os_registered s) (sb_state b) (sb_waker b) (os_woken s)
     \<and> (through (os_send s) \<or> os_woken s = []))"

lemma access_held: "box_inv b x y \<Longrightarrow> x \<or> y \<Longrightarrow> access b = Some b"
  by (auto simp: box_inv_def access_def)

lemma drop_held:
  "box_inv b x y \<Longrightarrow> x \<or> y \<Longrightarrow> Shared_drop b = Some (\<not> (x \<and> y),
     b\<lparr>sb_refcount := sb_refcount b - 1, sb_freed := \<not> (x \<and> y)\<rparr>)"
  by (cases x; cases y) (auto simp: box_inv_def access_def Shared_drop_def Let_def)

lemma send_inv_state: "send_inv p st sent \<Longrightarrow> st \<in> {EMPTY, WAITING, READY, CONSUMED, CLOSED}"
  by (induction p st sent rule: send_inv.induct) (auto elim: sent_final.elims)

lemma sent_final_begun [simp]: "sent_final r EMPTY sent \<longleftrightarrow> False" "sent_final r WAITING sent \<longleftrightarrow> False"
  by (cases r rule: option.exhaust; auto elim: sent_final.elims)+

lemma box_inv_upd [simp]:
  "box_inv (b\<lparr>sb_state := st\<rparr>) x y = box_inv b x y"
  "box_inv (b\<lparr>sb_value := v\<rparr>) x y = box_inv b x y"
  "box_inv (b\<lparr>sb_waker := w\<rparr>) x y = box_inv b x y"
  by (simp_all add: box_inv_def)

lemma box_inv_drop:
  "box_inv b True y \<Longrightarrow> box_inv (b\<lparr>sb_refcount := sb_refcount b - 1, sb_freed := \<not> y\<rparr>) False y"
  "box_inv b x True \<Longrightarrow> box_inv (b\<lparr>sb_refcount := sb_refcount b - 1, sb_freed := \<not> x\<rparr>) x False"
  by (auto simp: box_inv_def)

text \<open>Every step of the sender and of the receiver is defined and keeps the invariant.\<close>

lemma sender_step_inv:
  assumes inv: "os_inv s"
  shows "\<exists>s'. sender_step (os_send s) s = Some s' \<and> os_inv s'"
proof (cases "os_send s")
  case (SRelease r)
  with inv have b: "box_inv (os_box s) True (os_recv s \<noteq> RGone)" by (simp add: os_inv_def Let_def)
  from drop_held [OF b] box_inv_drop(1) [OF b] inv SRelease show ?thesis
    by (cases "os_recv s") (auto simp: os_inv_def Let_def split: sum.splits)
next
  case (SGone r)
  with inv show ?thesis by simp
next
  case SIdle
  with inv show ?thesis by simp
next
  case SLoop
  with inv have "access (os_box s) = Some (os_box s)" by (auto simp: os_inv_def Let_def intro: access_held)
  with inv SLoop show ?thesis by (cases "os_recv s") (auto simp: os_inv_def Let_def split: sum.splits)
next
  case SCas
  with inv have "access (os_box s) = Some (os_box s)" by (auto simp: os_inv_def Let_def intro: access_held)
  with inv SCas show ?thesis
    by (cases "os_recv s") (auto simp: os_inv_def Let_def split: sum.splits)
next
  case SClose
  with inv have "access (os_box s) = Some (os_box s)" by (auto simp: os_inv_def Let_def intro: access_held)
  with inv SClose show ?thesis
    by (cases "os_recv s") (auto simp: os_inv_def Let_def split: sum.splits)
next
  case (SStore st r)
  with inv have "access (os_box s) = Some (os_box s)" by (auto simp: os_inv_def Let_def intro: access_held)
  with inv SStore show ?thesis
    by (cases "os_recv s") (auto simp: os_inv_def Let_def split: sum.splits)
next
  case (STake r)
  with inv have "access (os_box s) = Some (os_box s)" by (auto simp: os_inv_def Let_def intro: access_held)
  moreover have "sb_state (os_box s) \<noteq> EMPTY" "sb_state (os_box s) \<noteq> WAITING"
    using inv STake by (auto simp: os_inv_def Let_def)
  ultimately show ?thesis using inv STake
    by (cases "os_recv s") (auto simp: os_inv_def Let_def)
qed

lemma start_inv:
  assumes inv: "os_inv s" and idle: "os_send s = SIdle"
  shows "\<exists>s'. Sender_send v s = Some s' \<and> os_inv s'" and "\<exists>s'. Sender_drop s = Some s' \<and> os_inv s'"
proof -
  have a: "access (os_box s) = Some (os_box s)"
    using inv idle by (auto simp: os_inv_def Let_def intro: access_held)
  with inv idle show "\<exists>s'. Sender_send v s = Some s' \<and> os_inv s'"
    by (cases "os_recv s") (auto simp: os_inv_def Let_def Sender_send_def split: sum.splits)
  from a inv idle show "\<exists>s'. Sender_drop s = Some s' \<and> os_inv s'"
    by (cases "os_recv s") (auto simp: os_inv_def Let_def Sender_drop_def split: sum.splits)
qed

lemma poll_inv:
  assumes inv: "os_inv s" and pc: "os_recv s = RIdle \<or> os_recv s = RParked w'"
  shows "\<exists>s'. Recv_poll w s = Some s' \<and> os_inv s'"
proof -
  have "access (os_box s) = Some (os_box s)"
    using inv pc by (auto simp: os_inv_def Let_def intro: access_held)
  moreover have "send_inv (os_send s) (sb_state (os_box s)) (os_sent s)"
    using inv by (simp add: os_inv_def Let_def)
  note send_inv_state [OF this]
  ultimately show ?thesis using inv pc
    by (auto simp: os_inv_def Let_def Recv_poll_def)
qed

lemma recv_step_inv:
  assumes inv: "os_inv s"
  shows "\<exists>s'. recv_step (os_recv s) s = Some s' \<and> os_inv s'"
proof -
  have send: "send_inv (os_send s) (sb_state (os_box s)) (os_sent s)"
    using inv by (simp add: os_inv_def Let_def)
  have a: "access (os_box s) = Some (os_box s)" if "os_recv s \<noteq> RGone"
    using inv that by (auto simp: os_inv_def Let_def intro: access_held)
  show ?thesis
  proof (cases "os_recv s")
    case (RPark w)
    with inv a show ?thesis by (auto simp: os_inv_def Let_def)
  next
    case (RCas w)
    with inv a send show ?thesis
      by (cases "os_send s") (auto simp: os_inv_def Let_def)
  next
    case (RRecheck w)
    with inv a send_inv_state [OF send] send show ?thesis
      by (cases "os_send s") (auto simp: os_inv_def Let_def)
  next
    case RConsume
    with inv a send show ?thesis
      by (cases "os_send s") (auto simp: os_inv_def Let_def elim: sent_final.elims)
  next
    case RTake
    with inv a send show ?thesis
      by (cases "os_send s") (auto simp: os_inv_def Let_def elim: sent_final.elims)
  next
    case RRelease
    with inv have b: "box_inv (os_box s) (sender_holds (os_send s)) True" by (simp add: os_inv_def Let_def)
    from drop_held [OF b] box_inv_drop(2) [OF b] inv RRelease show ?thesis
      by (auto simp: os_inv_def Let_def)
  qed (use inv in simp_all)
qed

lemma os_step_inv:
  assumes inv: "os_inv s"
  shows "\<exists>s'. os_step e s = Some s' \<and> os_inv s'"
proof (cases e)
  case (PollWith w)
  with poll_inv [OF inv] inv show ?thesis by (auto simp: os_step_def split: recv_pc.split)
next
  case DropRecv
  with inv show ?thesis
    by (cases "os_recv s") (auto simp: os_step_def os_inv_def Let_def)
qed (use inv start_inv [OF inv] sender_step_inv [OF inv] recv_step_inv [OF inv] in
  \<open>auto simp: os_step_def\<close>)

lemma os_init_inv: "\<exists>s. os_init = Some s \<and> os_inv s"
  by (simp add: os_init_def oneshot_def Shared_clone_def access_def os_inv_def box_inv_def Let_def)

interpretation os: unbounded_events os_step os_inv
  by unfold_locales (use os_step_inv in blast)

section \<open>What the channel promises\<close>

text \<open>
  The box counts its holders. A count at its maximum, or at zero, is outside the contract; the
  channel stays at two.
\<close>

definition shared_count :: "('a, 'w) shared_box \<Rightarrow> nat" where
  "shared_count b = (if sb_freed b then 0 else unat (sb_refcount b))"

interpretation shared: ref_counted shared_count
  "\<lambda>b. if sb_refcount b = 0 \<or> unat (sb_refcount b) \<ge> 2 ^ 32 - 2 then None else Shared_clone b"
  "\<lambda>b. if sb_refcount b = 0 then None else Shared_drop b"
proof unfold_locales
  fix b b' :: "('a, 'b) shared_box"
  assume "(if sb_refcount b = 0 \<or> unat (sb_refcount b) \<ge> 2 ^ 32 - 2 then None else Shared_clone b) = Some b'"
  then have *: "sb_refcount b \<noteq> 0" "unat (sb_refcount b) < 2 ^ 32 - 2" "Shared_clone b = Some b'"
    by (simp_all split: if_splits)
  from * unat_plus_one [OF *(2)] show "0 < shared_count b \<and> shared_count b' = Suc (shared_count b)"
    by (auto simp: Shared_clone_def access_def shared_count_def unat_gt_0 split: if_splits)
next
  fix b b' :: "('a, 'b) shared_box" and final
  assume "(if sb_refcount b = 0 then None else Shared_drop b) = Some (final, b')"
  then have *: "0 < unat (sb_refcount b)" "Shared_drop b = Some (final, b')"
    by (simp_all add: unat_gt_0 split: if_splits)
  from *(2) unat_minus_one32 [OF *(1)] *(1) unat_eq_one [of "sb_refcount b"] show "shared_count b = Suc (shared_count b') \<and> (final \<longleftrightarrow> shared_count b' = 0)"
    by (auto simp: Shared_drop_def access_def shared_count_def Let_def split: if_splits)
qed

lemmas os_inv_unfold = os_inv_def Let_def box_inv_def

lemma os_reach_inv: "os_init = Some s0 \<Longrightarrow> os_run es s0 = Some s \<Longrightarrow> os_inv s"
  using os_init_inv os.run_keeps [of s0 es] by (metis option.inject)



text \<open>
  C30: No wake-up of a send is lost: when \<open>send\<close> has returned and the receiver is parked, its last
  waker was woken, once, and its next poll returns the value.
\<close>

theorem oneshot_send_wakes:
  assumes "os_init = Some s0" "os_run es s0 = Some s" "os_recv s = RParked w" "os_send s = SGone (Some r)"
  shows "os_woken s = [w] \<and> (\<exists>v s'. os_sent s = Some v
    \<and> os_run [PollWith w', RecvStep, RecvStep] s = Some s' \<and> os_recv s' = RDone (Inr v))"
proof -
  have inv: "os_inv s" by (rule os_reach_inv [OF assms(1,2)])
  then have w: "os_woken s = [w]" using assms(3,4) by (simp add: os_inv_unfold)
  have "sb_state (os_box s) = READY" "os_sent s \<noteq> None"
    using inv assms(3,4) by (cases r; auto simp: os_inv_unfold)+
  moreover have "sb_value (os_box s) = os_sent s" "access (os_box s) = Some (os_box s)"
    using inv assms(3) calculation(1) by (auto simp: os_inv_unfold access_def)
  ultimately show ?thesis
    using w assms(3) by (auto simp: os_step_def Recv_poll_def access_def split: if_splits)
qed

text \<open>
  A wake-up of a drop can be lost: the sender reads that nobody waits, the receiver announces
  itself and parks, and the sender stores \<open>Closed\<close> without waking it. Until the receiver is polled
  for another reason or dropped, nothing that happens changes anything: it sleeps forever.
\<close>

theorem oneshot_drop_loses_wakeup:
  fixes w :: 'w
  shows "\<exists>s0 (s :: ('a, 'w) os_sys). os_init = Some s0
    \<and> os_run [PollWith w, RecvStep, DropSender, RecvStep, RecvStep, SenderStep, SenderStep] s0 = Some s
    \<and> os_recv s = RParked w \<and> os_send s = SGone None \<and> os_woken s = []
    \<and> (\<forall>es. set es \<inter> (insert DropRecv (range PollWith)) = {} \<longrightarrow> os_run es s = Some s)"
proof -
  have "os_run es s = Some s"
    if "os_recv s = RParked w" "os_send s = SGone None" "set es \<inter> (insert DropRecv (range PollWith)) = {}"
    for es and s :: "('a, 'w) os_sys"
    using that
  proof (induction es)
    case (Cons e es)
    then have "os_step e s = Some s" by (cases e) (auto simp: os_step_def)
    with Cons show ?case by simp
  qed simp
  then show ?thesis
    by (simp add: os_init_def oneshot_def Shared_clone_def Shared_drop_def access_def os_step_def
        Recv_poll_def Sender_drop_def Let_def)
qed

fun send_left :: "'a send_pc \<Rightarrow> u8 \<Rightarrow> nat" where
  "send_left SLoop st = (if st = EMPTY then 6 else 4)"
| "send_left SCas st = 5"
| "send_left (SStore _ _) st = 3"
| "send_left (STake _) st = 2"
| "send_left SClose st = 2"
| "send_left (SRelease _) st = 1"
| "send_left _ st = 0"

lemma send_left_step:
  assumes inv: "os_inv s" and begun: "os_send s \<noteq> SIdle" and step: "os_step e s = Some s'"
  shows "os_send s' \<noteq> SIdle \<and> send_left (os_send s') (sb_state (os_box s'))
    \<le> send_left (os_send s) (sb_state (os_box s)) - of_bool (e = SenderStep)"
proof (cases "e = SenderStep")
  case True
  with step have "sender_step (os_send s) s = Some s'" by (simp add: os_step_def)
  with inv begun True show ?thesis
    by (cases "os_send s")
      (auto simp: access_def Shared_drop_def Let_def os_inv_unfold bind_eq_Some_conv split: if_splits)
next
  case False
  have "os_send s' = os_send s \<and> (sb_state (os_box s') = sb_state (os_box s) \<or> sb_state (os_box s') \<noteq> EMPTY)"
  proof (cases e)
    case RecvStep
    with step show ?thesis
      by (cases "os_recv s") (auto simp: os_step_def access_def Shared_drop_def Let_def bind_eq_Some_conv split: if_splits)
  qed (use step begun False in
    \<open>auto simp: os_step_def Recv_poll_def access_def bind_eq_Some_conv split: if_splits recv_pc.splits\<close>)
  with begun False show ?thesis by (cases "os_send s") auto
qed

text \<open>
  \<open>send\<close> is wait-free: its loop retries at most once, and however the receiver moves meanwhile,
  the sender is through, its reference dropped, after six accesses.
\<close>

theorem oneshot_send_wait_free:
  assumes "os_init = Some s0" "os_run es s0 = Some s" "os_send s \<noteq> SIdle"
    "os_run es' s = Some s'" "6 \<le> count_list es' SenderStep"
  shows "\<exists>r. os_send s' = SGone r"
proof -
  have "os_inv s' \<and> os_send s' \<noteq> SIdle \<and> send_left (os_send s') (sb_state (os_box s'))
      \<le> send_left (os_send s) (sb_state (os_box s)) - count_list es' SenderStep"
    if "os_inv s" "os_send s \<noteq> SIdle" "os_run es' s = Some s'" for es' and s :: "('a, 'b) os_sys"
    using that
  proof (induction es' arbitrary: s)
    case (Cons e es')
    then obtain s1 where s1: "os_step e s = Some s1" "os_run es' s1 = Some s'"
      by (auto simp: bind_eq_Some_conv)
    with os_step_inv [OF Cons.prems(1), of e] have "os_inv s1" by simp
    with Cons.IH [of s1] send_left_step [OF Cons.prems(1,2) s1(1)] s1(2) show ?case
      by (auto simp: of_bool_def split: if_splits)
  qed simp
  from this [OF os_reach_inv [OF assms(1,2)] assms(3,4)] assms(5)
  have "send_left (os_send s') (sb_state (os_box s')) = 0" "os_send s' \<noteq> SIdle"
    by (cases "os_send s"; simp split: if_splits)+
  then show ?thesis by (cases "os_send s'") (auto split: if_splits)
qed

text \<open>
  The waker is not protected: a receiver that is polled again while it is parked overwrites
  it, and the sender can be taking it out at that moment. Both accesses are plain, so this is a
  data race.
\<close>

theorem oneshot_waker_race:
  "\<exists>s0 s. os_init = Some s0
    \<and> os_run [PollWith w, RecvStep, RecvStep, RecvStep, SendV v, SenderStep, PollWith w', SenderStep] s0 = Some s
    \<and> os_send s = STake (Some (Inr ())) \<and> os_recv s = RPark w'"
  by (simp add: os_init_def oneshot_def Shared_clone_def access_def os_step_def Recv_poll_def Sender_send_def)

section \<open>Runs\<close>

lemmas os_exec = os_init_def oneshot_def Shared_clone_def Shared_drop_def access_def os_step_def
  Recv_poll_def Sender_drop_def Sender_send_def Let_def


definition os_start :: "(nat, nat) os_sys" where
  "os_start = the os_init"

lemma os_init_start: "os_init = Some os_start"
  by (simp add: os_start_def os_exec)

text \<open>The sender finds the receiver parked, and wakes it.\<close>

definition os_parked :: "(nat, nat) os_event list" where
  "os_parked = [PollWith 3, RecvStep, RecvStep, RecvStep, SendV 5]"

definition os_sends :: "(nat, nat) os_event list" where
  "os_sends = replicate 6 SenderStep"

theorem oneshot_send_wakes_witness:
  "\<exists>s s'. os_run (os_parked @ os_sends) os_start = Some s \<and> os_woken s = [3]
    \<and> os_run [PollWith 7, RecvStep, RecvStep] s = Some s' \<and> os_recv s' = RDone (Inr 5)"
proof -
  obtain s where s: "os_run (os_parked @ os_sends) os_start = Some s"
    "os_recv s = RParked 3" "os_send s = SGone (Some (Inr ()))" "os_sent s = Some 5"
    by (simp add: os_parked_def os_sends_def os_start_def os_exec numeral_eq_Suc)
  from oneshot_send_wakes [OF os_init_start s(1-3), of 7] s(1,4) show ?thesis by auto
qed

theorem oneshot_drop_loses_wakeup_witness:
  "\<exists>s0 (s :: (nat, nat) os_sys). os_init = Some s0
    \<and> os_run [PollWith 3, RecvStep, DropSender, RecvStep, RecvStep, SenderStep, SenderStep] s0 = Some s
    \<and> os_recv s = RParked 3 \<and> os_run [RecvStep, SenderStep, SendV 5] s = Some s"
proof -
  have "set [RecvStep, SenderStep, SendV 5] \<inter> insert DropRecv (range PollWith)
      = ({} :: (nat, nat) os_event set)" by auto
  with oneshot_drop_loses_wakeup [of 3] show ?thesis by blast
qed

theorem oneshot_send_wait_free_witness:
  "\<exists>s s' r. os_run os_parked os_start = Some s \<and> os_run os_sends s = Some s' \<and> os_send s' = SGone r"
proof -
  obtain s where s: "os_run os_parked os_start = Some s" "os_send s \<noteq> SIdle"
    by (simp add: os_parked_def os_start_def os_exec)
  obtain s' where s': "os_run os_sends s = Some s'"
    using os.run_keeps [OF os_reach_inv [OF os_init_start s(1)]] by blast
  have "6 \<le> count_list os_sends SenderStep" by (simp add: os_sends_def numeral_eq_Suc)
  from oneshot_send_wait_free [OF os_init_start s s' this] s(1) s' show ?thesis by blast
qed

end
