(* ===== verification/AsyncMutex.thy ===== *)
theory AsyncMutex
  imports WaitQueue
begin

text \<open>
  The async mutex, \<open>src/primitives/async_mutex.rs\<close>: the lock word, the wait queue, the lock
  futures and the guards, and the accesses of \<open>lock\<close>, \<open>poll\<close>, \<open>try_lock\<close> and of the drops of
  futures and guards, one at a time. An operation of the wait queue, which runs under its
  spinlock, is one access.
\<close>

section \<open>State\<close>

definition UNLOCKED :: u32 where "UNLOCKED = 0"
definition LOCKED_NO_WAITERS :: u32 where "LOCKED_NO_WAITERS = 1"
definition LOCKED_HAS_WAITERS :: u32 where "LOCKED_HAS_WAITERS = 2"

lemma lock_words_distinct [simp]:
  "LOCKED_NO_WAITERS \<noteq> UNLOCKED" "LOCKED_HAS_WAITERS \<noteq> UNLOCKED"
  "UNLOCKED \<noteq> LOCKED_NO_WAITERS" "UNLOCKED \<noteq> LOCKED_HAS_WAITERS"
  by (simp_all add: UNLOCKED_def LOCKED_NO_WAITERS_def LOCKED_HAS_WAITERS_def)

record async_mutex =
  am_state :: u32
  am_waiters :: wait_queue
  am_holder_priority :: i32
  am_holder_base_priority :: i32

definition AsyncMutex_new :: async_mutex where
  "AsyncMutex_new = \<lparr>am_state = UNLOCKED, am_waiters = WaitQueue_new, am_holder_priority = 0,
     am_holder_base_priority = 0\<rparr>"

text \<open>
  Each call of \<open>lock\<close> or \<open>try_lock\<close> is a client with an address of its own, that of the wait node
  in its future. Where its future stands: \<open>FRest\<close> between polls, \<open>FDone\<close> after \<open>Ready\<close>, the others
  are the accesses of a poll. Where its guard stands: \<open>GHeld\<close>, or inside its drop.
\<close>

datatype 'w fut_pc = FNone | FRest | FSlow 'w | FEnqueue | FBoost | FCas | FRemove | FDone

datatype guard_pc = GNone | GHeld | GSwap | GStore | GWake

record 'w am_sys =
  ay_mutex :: async_mutex
  ay_heap :: "'w node_heap"
  ay_fut :: "addr \<Rightarrow> 'w fut_pc"
  ay_registered :: "addr \<Rightarrow> bool"
  ay_guard :: "addr \<Rightarrow> guard_pc"
  ay_wakes :: "'w waker_event list" \<comment> \<open>what became of the wakers so far\<close>

section \<open>Operations\<close>

definition set_fut :: "addr \<Rightarrow> 'w fut_pc \<Rightarrow> 'w am_sys \<Rightarrow> 'w am_sys" where
  "set_fut t p s = s\<lparr>ay_fut := (ay_fut s)(t := p)\<rparr>"

definition set_guard :: "addr \<Rightarrow> guard_pc \<Rightarrow> 'w am_sys \<Rightarrow> 'w am_sys" where
  "set_guard t p s = s\<lparr>ay_guard := (ay_guard s)(t := p)\<rparr>"

definition set_state :: "u32 \<Rightarrow> 'w am_sys \<Rightarrow> 'w am_sys" where
  "set_state v s = s\<lparr>ay_mutex := (ay_mutex s)\<lparr>am_state := v\<rparr>\<rparr>"

text \<open>\<open>state.compare_exchange(UNLOCKED, v)\<close>: whether it succeeded.\<close>

definition cas_unlocked :: "u32 \<Rightarrow> 'w am_sys \<Rightarrow> bool \<times> 'w am_sys" where
  "cas_unlocked v s = (if am_state (ay_mutex s) = UNLOCKED then (True, set_state v s) else (False, s))"

text \<open>An operation of the wait queue of the mutex.\<close>

definition with_queue ::
  "('w node_heap \<times> wait_queue \<Rightarrow> ('w node_heap \<times> wait_queue) option) \<Rightarrow> 'w am_sys \<Rightarrow> 'w am_sys option" where
  "with_queue f s = do { (h, q) \<leftarrow> f (ay_heap s, am_waiters (ay_mutex s));
     Some (s\<lparr>ay_heap := h, ay_mutex := (ay_mutex s)\<lparr>am_waiters := q\<rparr>\<rparr>) }"

definition AsyncMutex_lock :: "addr \<Rightarrow> 'w am_sys \<Rightarrow> 'w am_sys" where
  "AsyncMutex_lock t s = set_fut t FRest (s\<lparr>ay_heap := (ay_heap s)(t := WaitNode_new),
     ay_registered := (ay_registered s)(t := False)\<rparr>)"

definition AsyncMutex_try_lock :: "addr \<Rightarrow> 'w am_sys \<Rightarrow> 'w am_sys" where
  "AsyncMutex_try_lock t s = (case cas_unlocked LOCKED_NO_WAITERS s of
     (True, s') \<Rightarrow> set_guard t GHeld s'
   | (False, s') \<Rightarrow> s')"

text \<open>The retry loop of \<open>apply_priority_inheritance\<close> is one atomic maximum.\<close>

definition apply_priority_inheritance :: "i32 \<Rightarrow> async_mutex \<Rightarrow> async_mutex" where
  "apply_priority_inheritance p mx =
     (if p \<le>s am_holder_priority mx then mx else mx\<lparr>am_holder_priority := p\<rparr>)"

text \<open>\<open>poll\<close>: the first compare-exchange, then the other accesses.\<close>

definition MutexLock_poll :: "addr \<Rightarrow> 'w \<Rightarrow> 'w am_sys \<Rightarrow> 'w am_sys" where
  "MutexLock_poll t w s = (case cas_unlocked LOCKED_NO_WAITERS s of
     (True, s') \<Rightarrow> set_guard t GHeld (set_fut t FDone s')
   | (False, s') \<Rightarrow> set_fut t (if ay_registered s' t then FCas else FSlow w) s')"

fun fut_step :: "addr \<Rightarrow> 'w fut_pc \<Rightarrow> 'w am_sys \<Rightarrow> 'w am_sys option" where
  "fut_step t (FSlow w) s = Some (set_fut t FEnqueue (set_state LOCKED_HAS_WAITERS
     (s\<lparr>ay_heap := put_node t (\<lambda>n. WaitNode_set_priority 0 (WaitNode_set_waker w n)) (ay_heap s)\<rparr>)))"
| "fut_step t FEnqueue s = do { s \<leftarrow> with_queue (WaitQueue_enqueue t) s;
     Some (set_fut t FBoost (s\<lparr>ay_registered := (ay_registered s)(t := True)\<rparr>)) }"
| "fut_step t FBoost s = Some (set_fut t FCas (s\<lparr>ay_mutex :=
     apply_priority_inheritance (WaitNode_priority (ay_heap s t)) (ay_mutex s)\<rparr>))"
| "fut_step t FCas s = Some (case cas_unlocked LOCKED_HAS_WAITERS s of
     (True, s') \<Rightarrow> if ay_registered s' t then set_fut t FRemove s'
       else set_guard t GHeld (set_fut t FDone s')
   | (False, s') \<Rightarrow> set_fut t FRest s')"
| "fut_step t FRemove s = do { s \<leftarrow> with_queue (\<lambda>x. Some (WaitQueue_remove t x)) s;
     Some (set_guard t GHeld (set_fut t FDone (s\<lparr>ay_registered := (ay_registered s)(t := False)\<rparr>))) }"
| "fut_step t _ s = Some s"

definition MutexLock_drop :: "addr \<Rightarrow> 'w am_sys \<Rightarrow> 'w am_sys option" where
  "MutexLock_drop t s = do {
     s \<leftarrow> (if ay_registered s t then with_queue (\<lambda>x. Some (WaitQueue_remove t x)) s else Some s);
     Some (set_fut t FNone s) }"

text \<open>\<open>unlock_inner\<close>: the priority and the look at the queue, then the release.\<close>

definition MutexGuard_drop :: "addr \<Rightarrow> 'w am_sys \<Rightarrow> 'w am_sys" where
  "MutexGuard_drop t s = set_guard t
     (if WaitQueue_is_empty (am_waiters (ay_mutex s)) then GSwap else GStore)
     (s\<lparr>ay_mutex := (ay_mutex s)\<lparr>am_holder_priority := 0\<rparr>\<rparr>)"

fun guard_step :: "addr \<Rightarrow> guard_pc \<Rightarrow> 'w am_sys \<Rightarrow> 'w am_sys option" where
  "guard_step t GSwap s = do { assert_that (am_state (ay_mutex s) \<noteq> UNLOCKED);
     Some (set_guard t GNone (set_state UNLOCKED s)) }"
| "guard_step t GStore s = Some (set_guard t GWake (set_state UNLOCKED s))"
| "guard_step t GWake s = (case WaitQueue_wake_one (ay_heap s, am_waiters (ay_mutex s)) of
     ((_, es), h, q) \<Rightarrow> Some (set_guard t GNone (s\<lparr>ay_heap := h,
        ay_mutex := (ay_mutex s)\<lparr>am_waiters := q\<rparr>, ay_wakes := ay_wakes s @ es\<rparr>)))"
| "guard_step t _ s = Some s"

text \<open>
  What may happen next, to any client. What ownership or the contract of futures rules out has no
  effect: a poll inside a poll or after \<open>Ready\<close>, a drop inside a poll, a second drop.
\<close>

datatype 'w am_event =
  Lock addr | TryLock addr | PollLock addr 'w | FutStep addr | DropFut addr | DropGuard addr | GuardStep addr

fun client :: "'w am_event \<Rightarrow> addr" where
  "client (Lock t) = t" | "client (TryLock t) = t" | "client (PollLock t _) = t"
| "client (FutStep t) = t" | "client (DropFut t) = t" | "client (DropGuard t) = t"
| "client (GuardStep t) = t"

definition am_step :: "'w am_event \<Rightarrow> 'w am_sys \<Rightarrow> 'w am_sys option" where
  "am_step e s = (let p = ay_fut s (client e); g = ay_guard s (client e) in case e of
     Lock t \<Rightarrow> Some (if p = FNone \<and> g = GNone then AsyncMutex_lock t s else s)
   | TryLock t \<Rightarrow> Some (if p = FNone \<and> g = GNone then AsyncMutex_try_lock t s else s)
   | PollLock t w \<Rightarrow> Some (if p = FRest then MutexLock_poll t w s else s)
   | FutStep t \<Rightarrow> fut_step t p s
   | DropFut t \<Rightarrow> (if p = FRest \<or> p = FDone then MutexLock_drop t s else Some s)
   | DropGuard t \<Rightarrow> Some (if g = GHeld then MutexGuard_drop t s else s)
   | GuardStep t \<Rightarrow> guard_step t g s)"

abbreviation am_run :: "'w am_event list \<Rightarrow> 'w am_sys \<Rightarrow> 'w am_sys option" where
  "am_run \<equiv> event_run am_step"

definition am_init :: "'w am_sys" where
  "am_init = \<lparr>ay_mutex = AsyncMutex_new, ay_heap = (\<lambda>_. WaitNode_new), ay_fut = (\<lambda>_. FNone),
     ay_registered = (\<lambda>_. False), ay_guard = (\<lambda>_. GNone), ay_wakes = []\<rparr>"

section \<open>The invariant\<close>

text \<open>Who owns the lock: the compare-exchange succeeded, and the release has not come yet.\<close>

definition owns :: "'w am_sys \<Rightarrow> addr \<Rightarrow> bool" where
  "owns s t \<longleftrightarrow> ay_fut s t = FRemove \<or> ay_guard s t \<in> {GHeld, GSwap, GStore}"

definition lock_inv :: "'w am_sys \<Rightarrow> bool" where
  "lock_inv s \<longleftrightarrow> (\<forall>t u. owns s t \<and> owns s u \<longrightarrow> t = u)
     \<and> (\<forall>t. owns s t \<longrightarrow> am_state (ay_mutex s) \<noteq> UNLOCKED)
     \<and> (\<forall>t. ay_guard s t \<noteq> GNone \<longrightarrow> ay_fut s t = FNone \<or> ay_fut s t = FDone)"

text \<open>The nodes in the queue are those of registered futures; no other node is linked.\<close>

fun may_park :: "'w fut_pc \<Rightarrow> bool" where
  "may_park FNone \<longleftrightarrow> False"
| "may_park (FSlow _) \<longleftrightarrow> False"
| "may_park FEnqueue \<longleftrightarrow> False"
| "may_park _ \<longleftrightarrow> True"

definition queue_inv :: "'w am_sys \<Rightarrow> addr list \<Rightarrow> bool" where
  "queue_inv s xs \<longleftrightarrow> wf_wq (ay_heap s, am_waiters (ay_mutex s)) xs
     \<and> (\<forall>t. wn_linked (ay_heap s t) \<longleftrightarrow> t \<in> set xs)
     \<and> (\<forall>t \<in> set xs. ay_registered s t \<and> may_park (ay_fut s t))
     \<and> (\<forall>t. ay_fut s t = FEnqueue \<longrightarrow> wn_waker (ay_heap s t) \<noteq> None)
     \<and> (\<forall>t. wn_priority (ay_heap s t) = 0)"

lemma sys_simps [simp]:
  "ay_fut (set_fut t p s) = (ay_fut s)(t := p)" "ay_guard (set_fut t p s) = ay_guard s"
  "ay_mutex (set_fut t p s) = ay_mutex s" "ay_heap (set_fut t p s) = ay_heap s"
  "ay_registered (set_fut t p s) = ay_registered s" "ay_wakes (set_fut t p s) = ay_wakes s"
  "ay_fut (set_guard t g s) = ay_fut s" "ay_guard (set_guard t g s) = (ay_guard s)(t := g)"
  "ay_mutex (set_guard t g s) = ay_mutex s" "ay_heap (set_guard t g s) = ay_heap s"
  "ay_registered (set_guard t g s) = ay_registered s" "ay_wakes (set_guard t g s) = ay_wakes s"
  "ay_fut (set_state v s) = ay_fut s" "ay_guard (set_state v s) = ay_guard s"
  "ay_mutex (set_state v s) = (ay_mutex s)\<lparr>am_state := v\<rparr>" "ay_heap (set_state v s) = ay_heap s"
  "ay_registered (set_state v s) = ay_registered s" "ay_wakes (set_state v s) = ay_wakes s"
  by (simp_all add: set_fut_def set_guard_def set_state_def)

lemma queue_invD:
  assumes "queue_inv s xs"
  shows "wf_wq (ay_heap s, am_waiters (ay_mutex s)) xs"
    and "\<And>t. wn_linked (ay_heap s t) \<longleftrightarrow> t \<in> set xs"
    and "\<And>t. t \<in> set xs \<Longrightarrow> ay_registered s t"
    and "\<And>t. t \<in> set xs \<Longrightarrow> may_park (ay_fut s t)"
    and "\<And>t. ay_fut s t = FEnqueue \<Longrightarrow> wn_waker (ay_heap s t) \<noteq> None \<and> t \<notin> set xs"
    and "\<And>t. wn_priority (ay_heap s t) = 0"
  using assms by (force simp: queue_inv_def)+

text \<open>A step that leaves the queue and its nodes alone.\<close>

lemma queue_inv_frame:
  assumes "queue_inv s xs" "ay_heap s' = ay_heap s" "am_waiters (ay_mutex s') = am_waiters (ay_mutex s)"
    and "\<And>t. t \<in> set xs \<Longrightarrow> may_park (ay_fut s t) \<Longrightarrow> ay_registered s t \<Longrightarrow>
      ay_registered s' t \<and> may_park (ay_fut s' t)"
    and "\<And>t. ay_fut s' t = FEnqueue \<Longrightarrow> ay_fut s t = FEnqueue"
  shows "queue_inv s' xs"
  unfolding queue_inv_def
  using queue_invD [OF assms(1)] assms(2-5) by auto

lemma wake_queue_inv:
  assumes inv: "queue_inv s xs"
  obtains h q where "WaitQueue_wake_one (ay_heap s, am_waiters (ay_mutex s))
      = ((xs \<noteq> [], map (\<lambda>x. Wake (waker_of (ay_heap s) x)) (take (Suc 0) xs)), h, q)"
    and "\<And>g es. queue_inv (set_guard t g (s\<lparr>ay_heap := h, ay_mutex := (ay_mutex s)\<lparr>am_waiters := q\<rparr>, ay_wakes := es\<rparr>)) (tl xs)"
proof -
  note D = queue_invD [OF inv]
  from wake_one_any [OF D(1)] obtain h q where
    r: "WaitQueue_wake_one (ay_heap s, am_waiters (ay_mutex s))
      = ((xs \<noteq> [], map (\<lambda>x. Wake (waker_of (ay_heap s) x)) (take (Suc 0) xs)), h, q)"
    "wf_wq (h, q) (tl xs)" "\<forall>x. x \<notin> set xs \<longrightarrow> h x = ay_heap s x"
    "\<forall>x. wn_priority (h x) = wn_priority (ay_heap s x)
      \<and> wn_linked (h x) = (x \<notin> set (take (Suc 0) xs) \<and> wn_linked (ay_heap s x))" by blast
  have mem: "x \<in> set (tl xs) \<longleftrightarrow> x \<in> set xs \<and> x \<notin> set (take (Suc 0) xs)" for x
    using wf_wq_set(1) [OF D(1)] by (cases xs) auto
  have "queue_inv (set_guard t g (s\<lparr>ay_heap := h, ay_mutex := (ay_mutex s)\<lparr>am_waiters := q\<rparr>, ay_wakes := es\<rparr>)) (tl xs)"
    for g es
    unfolding queue_inv_def using r(2-4) D(2-6) by (auto simp: mem)
  with r(1) show thesis by (rule that)
qed

lemma remove_queue_inv:
  assumes inv: "queue_inv s xs"
  obtains s1 where "with_queue (\<lambda>x. Some (WaitQueue_remove t x)) s = Some s1"
    and "ay_fut s1 = ay_fut s" "ay_guard s1 = ay_guard s" "ay_registered s1 = ay_registered s"
    and "am_state (ay_mutex s1) = am_state (ay_mutex s)"
    and "queue_inv s1 (remove1 t xs)"
proof -
  note D = queue_invD [OF inv]
  from remove_any [OF D(1) D(2)] obtain h q where
    r: "WaitQueue_remove t (ay_heap s, am_waiters (ay_mutex s)) = (h, q)" "wf_wq (h, q) (remove1 t xs)"
    "leaves (set xs) t False (ay_heap s) h" by blast
  let ?s = "s\<lparr>ay_heap := h, ay_mutex := (ay_mutex s)\<lparr>am_waiters := q\<rparr>\<rparr>"
  have "queue_inv ?s (remove1 t xs)"
    unfolding queue_inv_def using r(2,3) D(2-6) wf_wq_set(1) [OF D(1)]
    by (auto simp: leaves_def set_remove1_eq)
  moreover have "with_queue (\<lambda>x. Some (WaitQueue_remove t x)) s = Some ?s"
    using r(1) by (simp add: with_queue_def)
  ultimately show thesis by (intro that) simp_all
qed

text \<open>Steps that keep, take and release the lock.\<close>

definition guard_ok :: "'w am_sys \<Rightarrow> bool" where
  "guard_ok s \<longleftrightarrow> (\<forall>t. ay_guard s t \<noteq> GNone \<longrightarrow> ay_fut s t = FNone \<or> ay_fut s t = FDone)"

lemma lock_inv_guard_ok: "lock_inv s \<Longrightarrow> guard_ok s"
  by (simp add: lock_inv_def guard_ok_def)

lemma lock_inv_keep:
  assumes "lock_inv s" "\<And>u. owns s' u \<Longrightarrow> owns s u" "guard_ok s'"
    "am_state (ay_mutex s') = am_state (ay_mutex s) \<or> am_state (ay_mutex s') \<noteq> UNLOCKED"
  shows "lock_inv s'"
  using assms unfolding lock_inv_def guard_ok_def by metis

lemma lock_inv_take:
  assumes "lock_inv s" "am_state (ay_mutex s) = UNLOCKED" "am_state (ay_mutex s') \<noteq> UNLOCKED"
    "\<And>u. owns s' u \<Longrightarrow> owns s u \<or> u = t" "guard_ok s'"
  shows "lock_inv s'"
  using assms unfolding lock_inv_def guard_ok_def by metis

lemma lock_inv_release:
  assumes "lock_inv s" "owns s t" "\<not> owns s' t" "\<And>u. owns s' u \<Longrightarrow> owns s u" "guard_ok s'"
  shows "lock_inv s'"
  using assms unfolding lock_inv_def guard_ok_def by metis

definition am_inv :: "'w am_sys \<Rightarrow> bool" where
  "am_inv s \<longleftrightarrow> lock_inv s \<and> (\<exists>xs. queue_inv s xs)"

lemma am_invE:
  assumes "am_inv s"
  obtains xs where "lock_inv s" "guard_ok s" "queue_inv s xs"
  using assms lock_inv_guard_ok by (auto simp: am_inv_def)

lemma lock_step_inv:
  assumes inv: "am_inv s" and t: "ay_fut s t = FNone" "ay_guard s t = GNone"
  shows "am_inv (AsyncMutex_lock t s)" and "am_inv (AsyncMutex_try_lock t s)"
proof -
  from inv obtain xs where L: "lock_inv s" "guard_ok s" and Q: "queue_inv s xs" by (rule am_invE)
  note D = queue_invD [OF Q]
  have out: "t \<notin> set xs" using D(4) [of t] t(1) by auto
  have "lock_inv (AsyncMutex_lock t s)"
    by (rule lock_inv_keep [OF L(1)]) (use L(2) t in \<open>auto simp: AsyncMutex_lock_def owns_def guard_ok_def split: if_splits\<close>)
  moreover have "queue_inv (AsyncMutex_lock t s) xs"
    unfolding queue_inv_def
  proof (intro conjI)
    show "wf_wq (ay_heap (AsyncMutex_lock t s), am_waiters (ay_mutex (AsyncMutex_lock t s))) xs"
      using wf_wq_outside(1) [OF D(1) out] by (simp add: AsyncMutex_lock_def)
  qed (use D(2-6) out in \<open>auto simp: AsyncMutex_lock_def WaitNode_new_def\<close>)
  ultimately show "am_inv (AsyncMutex_lock t s)" by (auto simp: am_inv_def)
  show "am_inv (AsyncMutex_try_lock t s)"
  proof (cases "am_state (ay_mutex s) = UNLOCKED")
    case True
    have "lock_inv (AsyncMutex_try_lock t s)"
      by (rule lock_inv_take [OF L(1) True, where t = t])
        (use L(2) t True in \<open>auto simp: AsyncMutex_try_lock_def cas_unlocked_def owns_def guard_ok_def split: if_splits\<close>)
    moreover have "queue_inv (AsyncMutex_try_lock t s) xs"
      by (rule queue_inv_frame [OF Q]) (use True in \<open>auto simp: AsyncMutex_try_lock_def cas_unlocked_def split: if_splits\<close>)
    ultimately show ?thesis by (auto simp: am_inv_def)
  qed (use inv in \<open>simp add: AsyncMutex_try_lock_def cas_unlocked_def\<close>)
qed

lemma poll_step_inv:
  assumes inv: "am_inv s" and t: "ay_fut s t = FRest"
  shows "am_inv (MutexLock_poll t w s)"
proof -
  from inv obtain xs where L: "lock_inv s" "guard_ok s" and Q: "queue_inv s xs" by (rule am_invE)
  have g: "ay_guard s t = GNone" using L(2) t by (auto simp: guard_ok_def)
  show ?thesis
  proof (cases "am_state (ay_mutex s) = UNLOCKED")
    case True
    have "lock_inv (MutexLock_poll t w s)"
      by (rule lock_inv_take [OF L(1) True, where t = t])
        (use L(2) True in \<open>auto simp: MutexLock_poll_def cas_unlocked_def owns_def guard_ok_def split: if_splits\<close>)
    moreover have "queue_inv (MutexLock_poll t w s) xs"
      by (rule queue_inv_frame [OF Q]) (use True in \<open>auto simp: MutexLock_poll_def cas_unlocked_def split: if_splits\<close>)
    ultimately show ?thesis by (auto simp: am_inv_def)
  next
    case False
    have "lock_inv (MutexLock_poll t w s)"
      by (rule lock_inv_keep [OF L(1)])
        (use L(2) False g in \<open>auto simp: MutexLock_poll_def cas_unlocked_def owns_def guard_ok_def split: if_splits\<close>)
    moreover have "queue_inv (MutexLock_poll t w s) xs"
      by (rule queue_inv_frame [OF Q])
        (use False queue_invD(3) [OF Q] in \<open>auto simp: MutexLock_poll_def cas_unlocked_def split: if_splits\<close>)
    ultimately show ?thesis by (auto simp: am_inv_def)
  qed
qed

lemma fut_no_guard: "guard_ok s \<Longrightarrow> ay_fut s t \<noteq> FNone \<Longrightarrow> ay_fut s t \<noteq> FDone \<Longrightarrow> ay_guard s t = GNone"
  by (auto simp: guard_ok_def)

text \<open>The accesses of a future that change the queue or the lock word.\<close>

lemma fut_slow_inv:
  assumes inv: "am_inv s" and pc: "ay_fut s t = FSlow w"
  shows "\<exists>s'. fut_step t (FSlow w) s = Some s' \<and> am_inv s'"
proof -
  from inv obtain xs where L: "lock_inv s" "guard_ok s" and Q: "queue_inv s xs" by (rule am_invE)
  note D = queue_invD [OF Q]
  let ?n = "\<lambda>n. WaitNode_set_priority 0 (WaitNode_set_waker w n)"
  let ?s = "set_fut t FEnqueue (set_state LOCKED_HAS_WAITERS (s\<lparr>ay_heap := put_node t ?n (ay_heap s)\<rparr>))"
  have out: "t \<notin> set xs" using D(4) [of t] pc by auto
  have "lock_inv ?s"
    by (rule lock_inv_keep [OF L(1)])
      (use L(2) pc fut_no_guard [OF L(2), of t] in \<open>auto simp: owns_def guard_ok_def split: if_splits\<close>)
  moreover have "queue_inv ?s xs"
    unfolding queue_inv_def
  proof (intro conjI)
    show "wf_wq (ay_heap ?s, am_waiters (ay_mutex ?s)) xs"
      using wf_wq_outside(2) [OF D(1) out] by simp
  qed (use D(2-6) out in \<open>auto simp: put_node_def WaitNode_set_priority_def WaitNode_set_waker_def\<close>)
  ultimately show ?thesis by (auto simp: am_inv_def)
qed

lemma fut_enqueue_inv:
  assumes inv: "am_inv s" and pc: "ay_fut s t = FEnqueue"
  shows "\<exists>s'. fut_step t FEnqueue s = Some s' \<and> am_inv s'"
proof -
  from inv obtain xs where L: "lock_inv s" "guard_ok s" and Q: "queue_inv s xs" by (rule am_invE)
  note D = queue_invD [OF Q]
  from enqueue_last [OF D(1), of t] D(2,5,6) pc obtain h q where
    e: "WaitQueue_enqueue t (ay_heap s, am_waiters (ay_mutex s)) = Some (h, q)" "wf_wq (h, q) (xs @ [t])"
    "\<forall>x. x \<notin> insert t (set xs) \<longrightarrow> h x = ay_heap s x"
    "\<forall>x. wn_waker (h x) = wn_waker (ay_heap s x) \<and> wn_priority (h x) = 0
      \<and> wn_linked (h x) = (x = t \<or> wn_linked (ay_heap s x))" by blast
  let ?s = "set_fut t FBoost (s\<lparr>ay_heap := h, ay_mutex := (ay_mutex s)\<lparr>am_waiters := q\<rparr>,
    ay_registered := (ay_registered s)(t := True)\<rparr>)"
  have "lock_inv ?s"
    by (rule lock_inv_keep [OF L(1)])
      (use L(2) pc fut_no_guard [OF L(2), of t] in \<open>auto simp: owns_def guard_ok_def split: if_splits\<close>)
  moreover have "queue_inv ?s (xs @ [t])"
    unfolding queue_inv_def using e(2,4) D pc by auto
  ultimately show ?thesis using e(1) by (auto simp: am_inv_def with_queue_def)
qed

lemma fut_remove_inv:
  assumes inv: "am_inv s" and pc: "ay_fut s t = FRemove"
  shows "\<exists>s'. fut_step t FRemove s = Some s' \<and> am_inv s'"
proof -
  from inv obtain xs where L: "lock_inv s" "guard_ok s" and Q: "queue_inv s xs" by (rule am_invE)
  note D = queue_invD [OF Q]
  from remove_queue_inv [OF Q, of t] obtain s1 where
    r: "with_queue (\<lambda>x. Some (WaitQueue_remove t x)) s = Some s1" "ay_fut s1 = ay_fut s"
    "ay_guard s1 = ay_guard s" "ay_registered s1 = ay_registered s"
    "am_state (ay_mutex s1) = am_state (ay_mutex s)" "queue_inv s1 (remove1 t xs)" by blast
  let ?s = "set_guard t GHeld (set_fut t FDone (s1\<lparr>ay_registered := (ay_registered s1)(t := False)\<rparr>))"
  have "lock_inv ?s"
    by (rule lock_inv_keep [OF L(1)])
      (use L(2) pc fut_no_guard [OF L(2), of t] r(2-5) in \<open>auto simp: owns_def guard_ok_def split: if_splits\<close>)
  moreover have "queue_inv ?s (remove1 t xs)"
    by (rule queue_inv_frame [OF r(6)])
      (use wf_wq_set(1) [OF D(1)] pc in \<open>auto simp: set_remove1_eq split: if_splits\<close>)
  ultimately show ?thesis using r(1) by (auto simp: am_inv_def)
qed

lemma fut_cas_inv:
  assumes inv: "am_inv s" and pc: "ay_fut s t = FCas"
  shows "\<exists>s'. fut_step t FCas s = Some s' \<and> am_inv s'"
proof -
  from inv obtain xs where L: "lock_inv s" "guard_ok s" and Q: "queue_inv s xs" by (rule am_invE)
  note g = fut_no_guard [OF L(2), of t]
  show ?thesis
  proof (cases "am_state (ay_mutex s) = UNLOCKED")
    case True
    let ?s = "if ay_registered s t then set_fut t FRemove (set_state LOCKED_HAS_WAITERS s)
      else set_guard t GHeld (set_fut t FDone (set_state LOCKED_HAS_WAITERS s))"
    have "lock_inv ?s"
      by (rule lock_inv_take [OF L(1) True, where t = t])
        (use L(2) pc g in \<open>auto simp: owns_def guard_ok_def split: if_splits\<close>)
    moreover have "queue_inv ?s xs" by (rule queue_inv_frame [OF Q]) (auto simp: pc split: if_splits)
    ultimately show ?thesis using True by (auto simp: am_inv_def cas_unlocked_def)
  next
    case False
    have "lock_inv (set_fut t FRest s)"
      by (rule lock_inv_keep [OF L(1)])
        (use L(2) pc g in \<open>auto simp: owns_def guard_ok_def split: if_splits\<close>)
    moreover have "queue_inv (set_fut t FRest s) xs"
      by (rule queue_inv_frame [OF Q]) (auto simp: pc split: if_splits)
    ultimately show ?thesis using False by (auto simp: am_inv_def cas_unlocked_def)
  qed
qed

lemma fut_step_inv:
  assumes inv: "am_inv s"
  shows "\<exists>s'. fut_step t (ay_fut s t) s = Some s' \<and> am_inv s'"
proof (cases "ay_fut s t")
  case FBoost
  from inv obtain xs where L: "lock_inv s" "guard_ok s" and Q: "queue_inv s xs" by (rule am_invE)
  let ?s = "set_fut t FCas (s\<lparr>ay_mutex := apply_priority_inheritance (WaitNode_priority (ay_heap s t)) (ay_mutex s)\<rparr>)"
  have "lock_inv ?s"
    by (rule lock_inv_keep [OF L(1)])
      (use L(2) FBoost fut_no_guard [OF L(2), of t] in
        \<open>auto simp: owns_def guard_ok_def apply_priority_inheritance_def split: if_splits\<close>)
  moreover have "queue_inv ?s xs"
    by (rule queue_inv_frame [OF Q]) (auto simp: FBoost apply_priority_inheritance_def split: if_splits)
  ultimately show ?thesis using FBoost by (auto simp: am_inv_def)
qed (use inv fut_slow_inv [OF inv, of t] fut_enqueue_inv [OF inv, of t] fut_remove_inv [OF inv, of t]
    fut_cas_inv [OF inv, of t] in simp_all)

lemma drop_step_inv:
  assumes inv: "am_inv s" and t: "ay_fut s t = FRest \<or> ay_fut s t = FDone"
  shows "\<exists>s'. MutexLock_drop t s = Some s' \<and> am_inv s'"
proof -
  from inv obtain xs where L: "lock_inv s" "guard_ok s" and Q: "queue_inv s xs" by (rule am_invE)
  note D = queue_invD [OF Q]
  show ?thesis
  proof (cases "ay_registered s t")
    case True
    from remove_queue_inv [OF Q, of t] obtain s1 where
      r: "with_queue (\<lambda>x. Some (WaitQueue_remove t x)) s = Some s1" "ay_fut s1 = ay_fut s"
      "ay_guard s1 = ay_guard s" "ay_registered s1 = ay_registered s"
      "am_state (ay_mutex s1) = am_state (ay_mutex s)" "queue_inv s1 (remove1 t xs)" by blast
    have "lock_inv (set_fut t FNone s1)"
      by (rule lock_inv_keep [OF L(1)])
        (use L(2) t r(2-5) in \<open>auto simp: owns_def guard_ok_def split: if_splits\<close>)
    moreover have "queue_inv (set_fut t FNone s1) (remove1 t xs)"
      by (rule queue_inv_frame [OF r(6)])
        (use wf_wq_set(1) [OF D(1)] in \<open>auto simp: set_remove1_eq split: if_splits\<close>)
    ultimately show ?thesis using True r(1) by (auto simp: am_inv_def MutexLock_drop_def)
  next
    case False
    with D(3) have out: "t \<notin> set xs" by blast
    have "lock_inv (set_fut t FNone s)"
      by (rule lock_inv_keep [OF L(1)])
        (use L(2) t in \<open>auto simp: owns_def guard_ok_def split: if_splits\<close>)
    moreover have "queue_inv (set_fut t FNone s) xs"
      by (rule queue_inv_frame [OF Q]) (use out in \<open>auto split: if_splits\<close>)
    ultimately show ?thesis using False by (auto simp: am_inv_def MutexLock_drop_def)
  qed
qed

lemma guard_step_inv:
  assumes inv: "am_inv s"
  shows "ay_guard s t = GHeld \<Longrightarrow> am_inv (MutexGuard_drop t s)"
    and "\<exists>s'. guard_step t (ay_guard s t) s = Some s' \<and> am_inv s'"
proof -
  from inv obtain xs where L: "lock_inv s" "guard_ok s" and Q: "queue_inv s xs" by (rule am_invE)
  have keep: "am_inv s'"
    if "lock_inv s'" "am_waiters (ay_mutex s') = am_waiters (ay_mutex s)" "ay_heap s' = ay_heap s"
      "ay_fut s' = ay_fut s" "ay_registered s' = ay_registered s" for s'
    using queue_inv_frame [OF Q, of s'] that by (auto simp: am_inv_def)
  show "am_inv (MutexGuard_drop t s)" if g: "ay_guard s t = GHeld"
  proof (rule keep)
    show "lock_inv (MutexGuard_drop t s)"
      by (rule lock_inv_keep [OF L(1)])
        (use L(2) g in \<open>auto simp: MutexGuard_drop_def owns_def guard_ok_def split: if_splits\<close>)
  qed (simp_all add: MutexGuard_drop_def)
  have free: "lock_inv (set_guard t g (set_state UNLOCKED s))"
    if g: "ay_guard s t \<in> {GSwap, GStore}" "g \<in> {GNone, GWake}" for g
  proof -
    have fut: "ay_fut s t = FNone \<or> ay_fut s t = FDone"
      using L(2) [unfolded guard_ok_def, rule_format, of t] g(1) by auto
    show ?thesis
      by (rule lock_inv_release [OF L(1), where t = t])
        (use L(2) g fut in \<open>auto simp: owns_def guard_ok_def split: if_splits\<close>)
  qed
  show "\<exists>s'. guard_step t (ay_guard s t) s = Some s' \<and> am_inv s'"
  proof (cases "ay_guard s t")
    case GSwap
    then have "owns s t" by (simp add: owns_def)
    with L(1) have "am_state (ay_mutex s) \<noteq> UNLOCKED" by (auto simp: lock_inv_def)
    with GSwap keep [OF free] show ?thesis by simp
  next
    case GStore
    with keep [OF free] show ?thesis by simp
  next
    case GWake
    from wake_queue_inv [OF Q] obtain h q where
      w: "WaitQueue_wake_one (ay_heap s, am_waiters (ay_mutex s))
        = ((xs \<noteq> [], map (\<lambda>x. Wake (waker_of (ay_heap s) x)) (take (Suc 0) xs)), h, q)"
      "\<And>g es. queue_inv (set_guard t g (s\<lparr>ay_heap := h, ay_mutex := (ay_mutex s)\<lparr>am_waiters := q\<rparr>,
        ay_wakes := es\<rparr>)) (tl xs)" by blast
    have "lock_inv (set_guard t GNone (s\<lparr>ay_heap := h, ay_mutex := (ay_mutex s)\<lparr>am_waiters := q\<rparr>, ay_wakes := es\<rparr>))"
      for es
      by (rule lock_inv_keep [OF L(1)])
        (use L(2) GWake in \<open>auto simp: owns_def guard_ok_def split: if_splits\<close>)
    with w GWake show ?thesis by (auto simp: am_inv_def)
  qed (use inv in simp_all)
qed

lemma am_step_inv:
  assumes "am_inv s"
  shows "\<exists>s'. am_step e s = Some s' \<and> am_inv s'"
  using assms lock_step_inv [OF assms] poll_step_inv [OF assms] fut_step_inv [OF assms]
    drop_step_inv [OF assms] guard_step_inv [OF assms]
  by (cases e) (auto simp: am_step_def Let_def)

lemma am_init_inv: "am_inv am_init"
proof -
  have "queue_inv am_init []"
    by (simp add: queue_inv_def am_init_def AsyncMutex_new_def WaitQueue_new_def WaitNode_new_def wf_wq_def)
  then show ?thesis by (auto simp: am_inv_def lock_inv_def owns_def am_init_def)
qed

interpretation am: unbounded_events am_step am_inv
  by unfold_locales (rule am_step_inv)

section \<open>What the mutex promises\<close>

text \<open>
  C6: However the accesses of all clients interleave, futures cancelled and guards dropped at any
  point, nothing panics, at most one client owns the lock at a time, and only while the lock word
  says so.
\<close>

theorem mutex_excludes:
  fixes es :: "'w am_event list"
  shows "\<exists>s x. am_run es am_init = Some s
    \<and> Collect (owns s) \<subseteq> (if am_state (ay_mutex s) = UNLOCKED then {} else {x})"
proof -
  obtain s :: "'w am_sys" where s: "am_run es am_init = Some s" "am_inv s"
    using am.run_keeps [OF am_init_inv] by blast
  then have "lock_inv s" by (simp add: am_inv_def)
  then have "Collect (owns s) \<subseteq> (if am_state (ay_mutex s) = UNLOCKED then {} else {THE t. owns s t})"
    by (auto simp: lock_inv_def intro!: the_equality [symmetric])
  with s(1) show ?thesis by blast
qed

lemmas am_exec = am_step_def am_init_def AsyncMutex_new_def WaitQueue_new_def Let_def
  AsyncMutex_lock_def AsyncMutex_try_lock_def cas_unlocked_def MutexLock_poll_def MutexLock_drop_def
  MutexGuard_drop_def WaitQueue_is_empty_def WaitQueue_len_def with_queue_def WaitNode_new_def
  put_node_def WaitNode_set_waker_def WaitNode_set_priority_def WaitNode_priority_def
  apply_priority_inheritance_def WaitQueue_enqueue_def WaitQueue_wake_one_def pop_head_def
  WaitQueue_remove_def assert_that_def

text \<open>A lock that is marked as held while nobody owns it stays so.\<close>

definition stuck :: "'w am_sys \<Rightarrow> bool" where
  "stuck s \<longleftrightarrow> am_inv s \<and> Collect (owns s) = {} \<and> am_state (ay_mutex s) \<noteq> UNLOCKED"

lemma stuck_step: "stuck s \<Longrightarrow> \<exists>s'. am_step e s = Some s' \<and> stuck s'"
proof -
  assume st: "stuck s"
  then have inv: "am_inv s" and no: "\<And>t. \<not> owns s t" and held: "am_state (ay_mutex s) \<noteq> UNLOCKED"
    by (auto simp: stuck_def)
  obtain s' where s': "am_step e s = Some s'" "am_inv s'" using am_step_inv [OF inv] by blast
  have none: "ay_fut s t \<noteq> FRemove" "ay_guard s t \<noteq> GHeld" "ay_guard s t \<noteq> GSwap" "ay_guard s t \<noteq> GStore" for t
    using no [of t] by (auto simp: owns_def)
  have "(\<forall>t. \<not> owns s' t) \<and> am_state (ay_mutex s') \<noteq> UNLOCKED"
  proof (cases e)
    case (FutStep t)
    with s'(1) none held show ?thesis
      by (cases "ay_fut s t") (auto simp: am_step_def owns_def with_queue_def cas_unlocked_def
          apply_priority_inheritance_def bind_eq_Some_conv split: if_splits)
  next
    case (GuardStep t)
    with s'(1) none held show ?thesis
      by (cases "ay_guard s t") (auto simp: am_step_def owns_def split: prod.splits if_splits)
  next
    case (DropFut t)
    with s'(1) none held show ?thesis
      by (auto simp: am_step_def Let_def owns_def MutexLock_drop_def with_queue_def bind_eq_Some_conv
          split: if_splits prod.splits)
  qed (use s'(1) none held in \<open>auto simp: am_step_def owns_def AsyncMutex_lock_def AsyncMutex_try_lock_def
      MutexLock_poll_def MutexGuard_drop_def cas_unlocked_def Let_def split: if_splits\<close>)
  with s' show ?thesis by (auto simp: stuck_def)
qed

interpretation stuck: unbounded_events am_step stuck
  by unfold_locales (rule stuck_step)

text \<open>
  C36: A poll can lock the mutex for ever without getting it: it fails on the lock word, the holder
  releases and sees no waiters, and the poll then stores that the lock is held. Whatever happens
  afterwards, nobody owns the lock and nobody can take it.
\<close>

theorem mutex_stuck:
  fixes w :: 'w
  shows "\<exists>s. am_run [TryLock 5, Lock 3, PollLock 3 w, DropGuard 5, GuardStep 5, FutStep 3, FutStep 3,
      FutStep 3, FutStep 3] am_init = Some s
    \<and> ay_fut s 3 = FRest
    \<and> (\<forall>es. \<exists>s'. am_run es s = Some s' \<and> am_state (ay_mutex s') \<noteq> UNLOCKED \<and> Collect (owns s') = {})"
proof -
  let ?es = "[TryLock 5, Lock 3, PollLock 3 w, DropGuard 5, GuardStep 5, FutStep 3, FutStep 3, FutStep 3, FutStep 3]"
  obtain s :: "'w am_sys" where s: "am_run ?es am_init = Some s" "am_inv s"
    using am.run_keeps [OF am_init_inv] by blast
  have "ay_fut s 3 = FRest \<and> Collect (owns s) = {} \<and> am_state (ay_mutex s) \<noteq> UNLOCKED"
    using s(1) by (auto simp: am_exec owns_def split: if_splits)
  with s stuck.run_keeps [of s] show ?thesis unfolding stuck_def by blast
qed

text \<open>What the other clients do leaves a future alone, except that a wake unlinks its node.\<close>

definition same_client :: "addr \<Rightarrow> 'w am_sys \<Rightarrow> 'w am_sys \<Rightarrow> bool" where
  "same_client t s s' \<longleftrightarrow> ay_fut s' t = ay_fut s t \<and> ay_registered s' t = ay_registered s t
     \<and> (wn_linked (ay_heap s' t) \<longrightarrow> wn_linked (ay_heap s t))"

lemma with_queue_remove_same:
  assumes "queue_inv s xs" "with_queue (\<lambda>x. Some (WaitQueue_remove u x)) s = Some s'"
  shows "same_client t s s'"
proof -
  note D = queue_invD [OF assms(1)]
  from remove_any [OF D(1) D(2), of u] assms(2) show ?thesis
    by (auto simp: with_queue_def same_client_def leaves_def)
qed

lemma other_client_step:
  assumes inv: "am_inv s" and step: "am_step e s = Some s'" and other: "client e \<noteq> t"
  shows "same_client t s s'"
proof -
  from inv obtain xs where L: "lock_inv s" "guard_ok s" and Q: "queue_inv s xs" by (rule am_invE)
  note D = queue_invD [OF Q]
  show ?thesis
  proof (cases e)
    case (FutStep u)
    with step other have s: "fut_step u (ay_fut s u) s = Some s'" "u \<noteq> t" by (simp_all add: am_step_def)
    show ?thesis
    proof (cases "ay_fut s u")
      case FEnqueue
      with enqueue_last [OF D(1), of u] D(2,5,6) s show ?thesis
        by (auto simp: same_client_def with_queue_def)
    next
      case FRemove
      with s obtain s1 where "with_queue (\<lambda>x. Some (WaitQueue_remove u x)) s = Some s1"
        "s' = set_guard u GHeld (set_fut u FDone (s1\<lparr>ay_registered := (ay_registered s1)(u := False)\<rparr>))"
        by (auto simp: bind_eq_Some_conv)
      with with_queue_remove_same [OF Q, of u s1 t] s(2) show ?thesis by (simp add: same_client_def)
    qed (use s in \<open>auto simp: same_client_def cas_unlocked_def put_node_def split: if_splits\<close>)
  next
    case (GuardStep u)
    with step have s: "guard_step u (ay_guard s u) s = Some s'" by (simp add: am_step_def)
    show ?thesis
    proof (cases "ay_guard s u")
      case GWake
      with wake_one_any [OF D(1)] s show ?thesis by (auto simp: same_client_def)
    qed (use s in \<open>auto simp: same_client_def\<close>)
  next
    case (DropFut u)
    show ?thesis
    proof (cases "(ay_fut s u = FRest \<or> ay_fut s u = FDone) \<and> ay_registered s u")
      case True
      with DropFut step obtain s1 where "with_queue (\<lambda>x. Some (WaitQueue_remove u x)) s = Some s1"
        "s' = set_fut u FNone s1"
        by (auto simp: am_step_def Let_def MutexLock_drop_def bind_eq_Some_conv)
      with with_queue_remove_same [OF Q, of u s1 t] DropFut other show ?thesis by (simp add: same_client_def)
    next
      case False
      with DropFut step other show ?thesis
        by (auto simp: am_step_def Let_def MutexLock_drop_def same_client_def split: if_splits)
    qed
  qed (use step other in \<open>auto simp: am_step_def Let_def same_client_def AsyncMutex_lock_def
      AsyncMutex_try_lock_def MutexLock_poll_def MutexGuard_drop_def cas_unlocked_def split: if_splits\<close>)
qed

lemma other_clients_run:
  "am_inv s \<Longrightarrow> \<exists>s'. am_run (filter (\<lambda>e. client e \<noteq> t) es) s = Some s' \<and> same_client t s s'"
proof (induction es arbitrary: s)
  case (Cons e es)
  show ?case
  proof (cases "client e = t")
    case False
    from am_step_inv [OF Cons.prems, of e] obtain s1 where s1: "am_step e s = Some s1" "am_inv s1" by blast
    from Cons.IH [OF s1(2)] other_client_step [OF Cons.prems s1(1) False] s1(1) False
    show ?thesis by (auto simp: same_client_def)
  qed (use Cons in simp)
qed (simp add: same_client_def)

text \<open>
  A waiter that was woken but found the lock taken by somebody faster is forgotten: its node is
  out of the queue, its future believes that it is registered and does not enqueue it again. The
  mutex is free in the end, nobody owns it, and whatever the other clients do the waiter is never
  in the queue again, so no unlock wakes it.
\<close>

theorem mutex_forgets_waiter:
  fixes w w' :: 'w
  shows "\<exists>s. am_run ([TryLock 5, Lock 3, PollLock 3 w, FutStep 3, FutStep 3, FutStep 3, FutStep 3]
      @ [DropGuard 5, GuardStep 5, GuardStep 5] @ [TryLock 7] @ [PollLock 3 w', FutStep 3]
      @ [DropGuard 7, GuardStep 7]) am_init = Some s
    \<and> am_state (ay_mutex s) = UNLOCKED \<and> Collect (owns s) = {} \<and> ay_wakes s = [Wake w]
    \<and> (\<forall>es. \<exists>s'. am_run (filter (\<lambda>e. client e \<noteq> 3) es) s = Some s'
        \<and> ay_fut s' 3 = FRest \<and> ay_registered s' 3 \<and> \<not> wn_linked (ay_heap s' 3))"
    (is "\<exists>s. am_run ?es am_init = Some s \<and> _")
proof -
  obtain s :: "'w am_sys" where s: "am_run ?es am_init = Some s" "am_inv s"
    using am.run_keeps [OF am_init_inv] by blast
  have now: "am_state (ay_mutex s) = UNLOCKED \<and> Collect (owns s) = {} \<and> ay_wakes s = [Wake w]
    \<and> ay_fut s 3 = FRest \<and> ay_registered s 3 \<and> \<not> wn_linked (ay_heap s 3)"
    using s(1) by (auto simp: am_exec owns_def split: if_splits)
  have "\<exists>s'. am_run (filter (\<lambda>e. client e \<noteq> 3) es) s = Some s'
      \<and> ay_fut s' 3 = FRest \<and> ay_registered s' 3 \<and> \<not> wn_linked (ay_heap s' 3)" for es
    using other_clients_run [OF s(2), of 3 es] now by (auto simp: same_client_def)
  with s(1) now show ?thesis by blast
qed

lemma mutex_cancel_loses_wake:
  fixes w w' :: 'w
  shows "\<exists>s. am_run ([TryLock 5, Lock 3, PollLock 3 w, FutStep 3, FutStep 3, FutStep 3, FutStep 3]
      @ [Lock 7, PollLock 7 w', FutStep 7, FutStep 7, FutStep 7, FutStep 7]
      @ [DropGuard 5, GuardStep 5, GuardStep 5, DropFut 3]) am_init = Some s
    \<and> am_state (ay_mutex s) = UNLOCKED \<and> Collect (owns s) = {} \<and> ay_wakes s = [Wake w]
    \<and> ay_fut s 7 = FRest \<and> wn_linked (ay_heap s 7)"
  by (auto simp: am_exec owns_def split: if_splits)

text \<open>
  C32: Without a race the lock is handed over: dropping a guard while others wait wakes the first
  of them, exactly that one, and its next poll gets the lock.
\<close>

theorem mutex_hands_over:
  assumes "am_inv s" "queue_inv s (x # xs)" "length (x # xs) < 2 ^ 64" "ay_guard s t = GHeld" "ay_fut s x = FRest"
  shows "\<exists>s'. am_run [DropGuard t, GuardStep t, GuardStep t, PollLock x w] s = Some s'
    \<and> ay_wakes s' = ay_wakes s @ [Wake (waker_of (ay_heap s) x)]
    \<and> ay_guard s' x = GHeld \<and> queue_inv s' xs"
proof -
  note D = queue_invD [OF assms(2)]
  have ne: "\<not> WaitQueue_is_empty (am_waiters (ay_mutex s))"
    using is_empty_iff [OF D(1) assms(3)] by simp
  let ?s1 = "set_guard t GWake (set_state UNLOCKED (MutexGuard_drop t s))"
  have q1: "queue_inv ?s1 (x # xs)"
    by (rule queue_inv_frame [OF assms(2)]) (simp_all add: MutexGuard_drop_def)
  have h1: "ay_heap ?s1 = ay_heap s" by (simp add: MutexGuard_drop_def)
  from wake_queue_inv [OF q1] obtain h q where
    w: "WaitQueue_wake_one (ay_heap ?s1, am_waiters (ay_mutex ?s1)) = ((True, [Wake (waker_of (ay_heap s) x)]), h, q)"
    "\<And>g es. queue_inv (set_guard t g (?s1\<lparr>ay_heap := h, ay_mutex := (ay_mutex ?s1)\<lparr>am_waiters := q\<rparr>,
      ay_wakes := es\<rparr>)) xs" unfolding h1 by auto
  let ?s2 = "set_guard t GNone (?s1\<lparr>ay_heap := h, ay_mutex := (ay_mutex ?s1)\<lparr>am_waiters := q\<rparr>,
    ay_wakes := ay_wakes s @ [Wake (waker_of (ay_heap s) x)]\<rparr>)"
  have run: "am_run [DropGuard t, GuardStep t, GuardStep t] s = Some ?s2"
    using ne w(1) assms(4) by (simp add: am_step_def Let_def MutexGuard_drop_def)
  have poll: "am_run [PollLock x w] ?s2 = Some (MutexLock_poll x w ?s2)"
    using assms(5) by (simp add: am_step_def MutexGuard_drop_def)
  have "queue_inv (MutexLock_poll x w ?s2) xs"
    by (rule queue_inv_frame [OF w(2) [of GNone]]) (auto simp: MutexLock_poll_def cas_unlocked_def split: if_splits)
  moreover have "ay_wakes (MutexLock_poll x w ?s2) = ay_wakes s @ [Wake (waker_of (ay_heap s) x)]"
    "ay_guard (MutexLock_poll x w ?s2) x = GHeld"
    by (simp_all add: MutexLock_poll_def cas_unlocked_def)
  ultimately show ?thesis
    using event_run_append [of am_step "[DropGuard t, GuardStep t, GuardStep t]" "[PollLock x w]" s] run poll
    by (simp del: event_run.simps)
qed

lemma queue_inv_single: "am_inv s \<Longrightarrow> (\<And>t. wn_linked (ay_heap s t) \<longleftrightarrow> t = x) \<Longrightarrow> queue_inv s [x]"
proof (erule am_invE)
  fix xs assume Q: "queue_inv s xs" and l: "\<And>t. wn_linked (ay_heap s t) \<longleftrightarrow> t = x"
  then have "set xs = {x}" "distinct xs"
    using queue_invD(1,2) [OF Q] wf_wq_set(1) by blast+
  then have "xs = [x]" by (cases xs; cases "tl xs") auto
  with Q show "queue_inv s [x]" by simp
qed

theorem mutex_hands_over_witness:
  "\<exists>s s'. am_run [TryLock 5, Lock 3, PollLock 3 (9 :: nat), FutStep 3, FutStep 3, FutStep 3, FutStep 3] am_init = Some s
    \<and> am_run [DropGuard 5, GuardStep 5, GuardStep 5, PollLock 3 11] s = Some s'
    \<and> ay_wakes s' = [Wake 9] \<and> ay_guard s' 3 = GHeld"
proof -
  obtain s :: "nat am_sys" where s: "am_run [TryLock 5, Lock 3, PollLock 3 9, FutStep 3, FutStep 3, FutStep 3,
    FutStep 3] am_init = Some s" "am_inv s"
    using am.run_keeps [OF am_init_inv] by blast
  have now: "wn_linked (ay_heap s t) \<longleftrightarrow> t = 3" "ay_guard s 5 = GHeld" "ay_fut s 3 = FRest"
    "waker_of (ay_heap s) 3 = 9" "ay_wakes s = []" for t
    using s(1) by (auto simp: am_exec waker_of_def split: if_splits)
  from mutex_hands_over [OF s(2) queue_inv_single [OF s(2) now(1)] _ now(2,3), of 11] now(4,5) s(1)
  show ?thesis by (auto simp del: event_run.simps)
qed

end
