(* ===== verification/Channel.thy ===== *)
theory Channel
  imports WaitQueue
begin

text \<open>
  The bounded async channel, \<open>src/primitives/channel.rs\<close>: the slot array with its counters, the
  two wait queues, and the futures of \<open>send\<close> and \<open>recv\<close>. The operations are put together from the
  accesses between which other cores may act: the look at the length, the claim of a position, the
  slot, the length again, the wait queue. Memory comes from \<open>kernel_alloc\<close>, which is not part of
  the sources: whether it succeeds is a parameter.
\<close>

section \<open>The shared part\<close>

text \<open>
  \<open>None\<close> is a slot that holds no value: never written, or moved out of. \<open>usize\<close> counters wrap.
\<close>

record 'a channel_inner =
  ch_data :: "'a option list"
  ch_occupied :: "bool list"
  ch_capacity :: nat
  ch_send_waiters :: wait_queue
  ch_recv_waiters :: wait_queue
  ch_send_pos :: nat
  ch_recv_pos :: nat
  ch_len :: nat
  ch_closed :: bool

definition wrap_add :: "nat \<Rightarrow> nat" where "wrap_add n = (n + 1) mod 2 ^ 64"

definition wrap_sub :: "nat \<Rightarrow> nat" where "wrap_sub n = (n + 2 ^ 64 - 1) mod 2 ^ 64"

definition VecSlot_new :: "(nat \<Rightarrow> bool) \<Rightarrow> nat \<Rightarrow> ('a option list \<times> bool list) option" where
  "VecSlot_new kernel_alloc capacity = do { assert_that (kernel_alloc capacity);
     Some (replicate capacity None, replicate capacity False) }"

text \<open>The values that dropping the slots drops; an occupied slot without a value is undefined.\<close>

fun VecSlot_drop :: "'a option list \<Rightarrow> bool list \<Rightarrow> 'a list option" where
  "VecSlot_drop (d # ds) (occ # os) = (if occ then do { v \<leftarrow> d; vs \<leftarrow> VecSlot_drop ds os; Some (v # vs) }
     else VecSlot_drop ds os)"
| "VecSlot_drop _ _ = Some []"

definition channel :: "(nat \<Rightarrow> bool) \<Rightarrow> nat \<Rightarrow> 'a channel_inner option" where
  "channel kernel_alloc capacity = do { assert_that (0 < capacity);
     (d, occ) \<leftarrow> VecSlot_new kernel_alloc capacity;
     Some \<lparr>ch_data = d, ch_occupied = occ, ch_capacity = capacity, ch_send_waiters = WaitQueue_new,
       ch_recv_waiters = WaitQueue_new, ch_send_pos = 0, ch_recv_pos = 0, ch_len = 0, ch_closed = False\<rparr> }"

text \<open>The accesses of a send: \<open>len >= capacity\<close>, the claim, the slot, the length.\<close>

definition ch_full :: "'a channel_inner \<Rightarrow> bool" where
  "ch_full c \<longleftrightarrow> ch_capacity c \<le> ch_len c"

definition send_claim :: "'a channel_inner \<Rightarrow> (nat \<times> 'a channel_inner) option" where
  "send_claim c = do { assert_that (ch_capacity c \<noteq> 0);
     Some (ch_send_pos c mod ch_capacity c, c\<lparr>ch_send_pos := wrap_add (ch_send_pos c)\<rparr>) }"

definition send_write :: "nat \<Rightarrow> 'a \<Rightarrow> 'a channel_inner \<Rightarrow> 'a channel_inner" where
  "send_write i v c = c\<lparr>ch_data := (ch_data c)[i := Some v], ch_occupied := (ch_occupied c)[i := True]\<rparr>"

definition send_publish :: "'a channel_inner \<Rightarrow> 'a channel_inner" where
  "send_publish c = c\<lparr>ch_len := wrap_add (ch_len c)\<rparr>"

definition send_value :: "'a \<Rightarrow> 'a channel_inner \<Rightarrow> 'a channel_inner option" where
  "send_value v c = do { (i, c) \<leftarrow> send_claim c; Some (send_publish (send_write i v c)) }"

text \<open>The accesses of a receive. Reading a slot that holds no value is undefined.\<close>

definition recv_claim :: "'a channel_inner \<Rightarrow> (nat \<times> 'a channel_inner) option" where
  "recv_claim c = do { assert_that (ch_capacity c \<noteq> 0);
     Some (ch_recv_pos c mod ch_capacity c, c\<lparr>ch_recv_pos := wrap_add (ch_recv_pos c)\<rparr>) }"

definition recv_read :: "nat \<Rightarrow> 'a channel_inner \<Rightarrow> ('a \<times> 'a channel_inner) option" where
  "recv_read i c = do { d \<leftarrow> idx (ch_data c) i; v \<leftarrow> d;
     Some (v, c\<lparr>ch_data := (ch_data c)[i := None], ch_occupied := (ch_occupied c)[i := False]\<rparr>) }"

definition recv_release :: "'a channel_inner \<Rightarrow> 'a channel_inner" where
  "recv_release c = c\<lparr>ch_len := wrap_sub (ch_len c)\<rparr>"

definition recv_value :: "'a channel_inner \<Rightarrow> ('a \<times> 'a channel_inner) option" where
  "recv_value c = do { (i, c) \<leftarrow> recv_claim c; (v, c) \<leftarrow> recv_read i c; Some (v, recv_release c) }"

section \<open>Futures and operations\<close>

datatype 'a chan_send_error = ChanSendClosed 'a
datatype 'a try_send_error = TrySendFull 'a | TrySendClosed 'a
datatype chan_recv_error = ChanRecvClosed
datatype try_recv_error = TryRecvEmpty | TryRecvClosed

text \<open>The future at the address of its wait node: the value still to send, and \<open>registered\<close>.\<close>

datatype 'a chan_future = NoFuture | SendFuture "'a option" bool | RecvFuture bool

record ('a, 'w) chan_sys =
  cs_inner :: "'a channel_inner"
  cs_heap :: "'w node_heap"
  cs_fut :: "addr \<Rightarrow> 'a chan_future"
  cs_wakes :: "'w waker_event list"

definition set_future :: "addr \<Rightarrow> 'a chan_future \<Rightarrow> ('a, 'w) chan_sys \<Rightarrow> ('a, 'w) chan_sys" where
  "set_future n f s = s\<lparr>cs_fut := (cs_fut s)(n := f)\<rparr>"

definition set_node_waker :: "addr \<Rightarrow> 'w \<Rightarrow> ('a, 'w) chan_sys \<Rightarrow> ('a, 'w) chan_sys" where
  "set_node_waker n w s = s\<lparr>cs_heap := put_node n (WaitNode_set_waker w) (cs_heap s)\<rparr>"

text \<open>\<open>wake_one\<close>, \<open>enqueue\<close> and \<open>remove\<close> on the queue of the receivers and on that of the senders.\<close>

definition wake_recv :: "('a, 'w) chan_sys \<Rightarrow> ('a, 'w) chan_sys" where
  "wake_recv s = (case WaitQueue_wake_one (cs_heap s, ch_recv_waiters (cs_inner s)) of ((_, es), h, q) \<Rightarrow>
     s\<lparr>cs_heap := h, cs_inner := (cs_inner s)\<lparr>ch_recv_waiters := q\<rparr>, cs_wakes := cs_wakes s @ es\<rparr>)"

definition wake_send :: "('a, 'w) chan_sys \<Rightarrow> ('a, 'w) chan_sys" where
  "wake_send s = (case WaitQueue_wake_one (cs_heap s, ch_send_waiters (cs_inner s)) of ((_, es), h, q) \<Rightarrow>
     s\<lparr>cs_heap := h, cs_inner := (cs_inner s)\<lparr>ch_send_waiters := q\<rparr>, cs_wakes := cs_wakes s @ es\<rparr>)"

definition enqueue_send :: "addr \<Rightarrow> ('a, 'w) chan_sys \<Rightarrow> ('a, 'w) chan_sys option" where
  "enqueue_send n s = do { (h, q) \<leftarrow> WaitQueue_enqueue n (cs_heap s, ch_send_waiters (cs_inner s));
     Some (s\<lparr>cs_heap := h, cs_inner := (cs_inner s)\<lparr>ch_send_waiters := q\<rparr>\<rparr>) }"

definition enqueue_recv :: "addr \<Rightarrow> ('a, 'w) chan_sys \<Rightarrow> ('a, 'w) chan_sys option" where
  "enqueue_recv n s = do { (h, q) \<leftarrow> WaitQueue_enqueue n (cs_heap s, ch_recv_waiters (cs_inner s));
     Some (s\<lparr>cs_heap := h, cs_inner := (cs_inner s)\<lparr>ch_recv_waiters := q\<rparr>\<rparr>) }"

definition remove_send :: "addr \<Rightarrow> ('a, 'w) chan_sys \<Rightarrow> ('a, 'w) chan_sys" where
  "remove_send n s = (case WaitQueue_remove n (cs_heap s, ch_send_waiters (cs_inner s)) of (h, q) \<Rightarrow>
     s\<lparr>cs_heap := h, cs_inner := (cs_inner s)\<lparr>ch_send_waiters := q\<rparr>\<rparr>)"

definition remove_recv :: "addr \<Rightarrow> ('a, 'w) chan_sys \<Rightarrow> ('a, 'w) chan_sys" where
  "remove_recv n s = (case WaitQueue_remove n (cs_heap s, ch_recv_waiters (cs_inner s)) of (h, q) \<Rightarrow>
     s\<lparr>cs_heap := h, cs_inner := (cs_inner s)\<lparr>ch_recv_waiters := q\<rparr>\<rparr>)"

definition Channel_send :: "addr \<Rightarrow> 'a \<Rightarrow> ('a, 'w) chan_sys \<Rightarrow> ('a, 'w) chan_sys" where
  "Channel_send n v s = set_future n (SendFuture (Some v) False)
     (s\<lparr>cs_heap := (cs_heap s)(n := WaitNode_new)\<rparr>)"

definition Channel_recv :: "addr \<Rightarrow> ('a, 'w) chan_sys \<Rightarrow> ('a, 'w) chan_sys" where
  "Channel_recv n s = set_future n (RecvFuture False) (s\<lparr>cs_heap := (cs_heap s)(n := WaitNode_new)\<rparr>)"

definition Channel_try_send ::
  "'a \<Rightarrow> ('a, 'w) chan_sys \<Rightarrow> (('a try_send_error + unit) \<times> ('a, 'w) chan_sys) option" where
  "Channel_try_send v s = (let c = cs_inner s in
     if ch_closed c then Some (Inl (TrySendClosed v), s)
     else if ch_full c then Some (Inl (TrySendFull v), s)
     else do { c \<leftarrow> send_value v c; Some (Inr (), wake_recv (s\<lparr>cs_inner := c\<rparr>)) })"

definition Channel_try_recv ::
  "('a, 'w) chan_sys \<Rightarrow> ((try_recv_error + 'a) \<times> ('a, 'w) chan_sys) option" where
  "Channel_try_recv s = (let c = cs_inner s in
     if ch_len c = 0 then Some (Inl (if ch_closed c then TryRecvClosed else TryRecvEmpty), s)
     else do { (v, c) \<leftarrow> recv_value c; Some (Inr v, wake_send (s\<lparr>cs_inner := c\<rparr>)) })"

text \<open>The two ends of a poll of a send: what it does when there is room, and how it parks.\<close>

definition SendFuture_put ::
  "addr \<Rightarrow> 'a \<Rightarrow> bool \<Rightarrow> ('a, 'w) chan_sys \<Rightarrow> ('a, 'w) chan_sys option" where
  "SendFuture_put n v registered s = do { c \<leftarrow> send_value v (cs_inner s);
     let s = wake_recv (s\<lparr>cs_inner := c\<rparr>);
     Some (set_future n (SendFuture None False) (if registered then remove_send n s else s)) }"

definition SendFuture_park ::
  "addr \<Rightarrow> 'w \<Rightarrow> 'a option \<Rightarrow> bool \<Rightarrow> ('a, 'w) chan_sys \<Rightarrow> ('a, 'w) chan_sys option" where
  "SendFuture_park n w value registered s =
     (if registered then Some (set_node_waker n w s)
      else do { s \<leftarrow> enqueue_send n (set_node_waker n w s);
        Some (set_future n (SendFuture value True) s) })"

definition SendFuture_poll :: "addr \<Rightarrow> 'w \<Rightarrow> 'a option \<Rightarrow> bool \<Rightarrow> ('a, 'w) chan_sys \<Rightarrow>
    (('a chan_send_error + unit) option \<times> ('a, 'w) chan_sys) option" where
  "SendFuture_poll n w value registered s = (let c = cs_inner s in
     if ch_closed c then do { v \<leftarrow> value;
       Some (Some (Inl (ChanSendClosed v)), set_future n (SendFuture None registered) s) }
     else case (if ch_full c then None else value) of
         Some v \<Rightarrow> map_option (Pair (Some (Inr ()))) (SendFuture_put n v registered s)
       | None \<Rightarrow> map_option (Pair None) (SendFuture_park n w value registered s))"

text \<open>A poll of a receive: taking a value, parking, and the look at the channel after parking.\<close>

definition RecvFuture_take :: "addr \<Rightarrow> bool \<Rightarrow> ('a, 'w) chan_sys \<Rightarrow> ('a \<times> ('a, 'w) chan_sys) option" where
  "RecvFuture_take n registered s = do { (v, c) \<leftarrow> recv_value (cs_inner s);
     let s = wake_send (s\<lparr>cs_inner := c\<rparr>);
     Some (v, set_future n (RecvFuture False) (if registered then remove_recv n s else s)) }"

definition RecvFuture_park ::
  "addr \<Rightarrow> 'w \<Rightarrow> bool \<Rightarrow> ('a, 'w) chan_sys \<Rightarrow> ('a, 'w) chan_sys option" where
  "RecvFuture_park n w registered s =
     (if registered then Some (set_node_waker n w s)
      else do { s \<leftarrow> enqueue_recv n (set_node_waker n w s); Some (set_future n (RecvFuture True) s) })"

definition RecvFuture_recheck ::
  "addr \<Rightarrow> ('a, 'w) chan_sys \<Rightarrow> ((chan_recv_error + 'a) option \<times> ('a, 'w) chan_sys) option" where
  "RecvFuture_recheck n s =
     (if 0 < ch_len (cs_inner s) then do {
        let s = set_future n (RecvFuture False) (remove_recv n s);
        (v, c) \<leftarrow> recv_value (cs_inner s);
        Some (Some (Inr v), wake_send (s\<lparr>cs_inner := c\<rparr>)) }
      else if ch_closed (cs_inner s)
        then Some (Some (Inl ChanRecvClosed), set_future n (RecvFuture False) (remove_recv n s))
      else Some (None, s))"

definition RecvFuture_poll :: "addr \<Rightarrow> 'w \<Rightarrow> bool \<Rightarrow> ('a, 'w) chan_sys \<Rightarrow>
    ((chan_recv_error + 'a) option \<times> ('a, 'w) chan_sys) option" where
  "RecvFuture_poll n w registered s = (let c = cs_inner s in
     if 0 < ch_len c then map_option (map_prod (\<lambda>v. Some (Inr v)) id) (RecvFuture_take n registered s)
     else if ch_closed c then Some (Some (Inl ChanRecvClosed),
       set_future n (RecvFuture False) (if registered then remove_recv n s else s))
     else do { s \<leftarrow> RecvFuture_park n w registered s; RecvFuture_recheck n s })"

text \<open>The drops of the futures.\<close>

definition SendFuture_drop :: "addr \<Rightarrow> bool \<Rightarrow> ('a, 'w) chan_sys \<Rightarrow> ('a, 'w) chan_sys" where
  "SendFuture_drop n registered s = (if registered then remove_send n s else s)"

definition RecvFuture_drop :: "addr \<Rightarrow> bool \<Rightarrow> ('a, 'w) chan_sys \<Rightarrow> ('a, 'w) chan_sys" where
  "RecvFuture_drop n registered s = (if registered then remove_recv n s else s)"

definition Future_drop :: "addr \<Rightarrow> ('a, 'w) chan_sys \<Rightarrow> ('a, 'w) chan_sys" where
  "Future_drop n s = set_future n NoFuture (case cs_fut s n of
     SendFuture v registered \<Rightarrow> SendFuture_drop n registered s
   | RecvFuture registered \<Rightarrow> RecvFuture_drop n registered s
   | NoFuture \<Rightarrow> s)"

section \<open>The buffer\<close>

text \<open>
  The buffer holds \<open>vs\<close>, oldest first: position by position, from \<open>recv_pos\<close> on for one capacity,
  the slots hold the values and then nothing. The counters have not wrapped.
\<close>

definition buf_holds :: "'a channel_inner \<Rightarrow> 'a list \<Rightarrow> bool" where
  "buf_holds c vs \<longleftrightarrow> 0 < ch_capacity c \<and> ch_capacity c < 2 ^ 64
     \<and> length (ch_data c) = ch_capacity c \<and> length (ch_occupied c) = ch_capacity c
     \<and> length vs \<le> ch_capacity c \<and> ch_len c = length vs
     \<and> ch_send_pos c = ch_recv_pos c + length vs \<and> ch_send_pos c < 2 ^ 64 \<and> \<not> ch_closed c
     \<and> (\<forall>k \<ge> ch_recv_pos c. k < ch_recv_pos c + ch_capacity c \<longrightarrow>
          ch_data c ! (k mod ch_capacity c) = (if k < ch_send_pos c then Some (vs ! (k - ch_recv_pos c)) else None)
          \<and> ch_occupied c ! (k mod ch_capacity c) = (k < ch_send_pos c))"

lemma buf_holdsD:
  assumes "buf_holds c vs"
  shows "0 < ch_capacity c" "ch_capacity c < 2 ^ 64" "length (ch_data c) = ch_capacity c"
    "length (ch_occupied c) = ch_capacity c" "length vs \<le> ch_capacity c" "ch_len c = length vs"
    "ch_send_pos c = ch_recv_pos c + length vs" "ch_send_pos c < 2 ^ 64" "\<not> ch_closed c"
    and "\<And>k. ch_recv_pos c \<le> k \<Longrightarrow> k < ch_recv_pos c + ch_capacity c \<Longrightarrow>
      ch_data c ! (k mod ch_capacity c) = (if k < ch_send_pos c then Some (vs ! (k - ch_recv_pos c)) else None)
      \<and> ch_occupied c ! (k mod ch_capacity c) = (k < ch_send_pos c)"
  using assms unfolding buf_holds_def by blast+

lemma buf_holds_queues [simp]:
  "buf_holds (c\<lparr>ch_send_waiters := q\<rparr>) vs = buf_holds c vs"
  "buf_holds (c\<lparr>ch_recv_waiters := q\<rparr>) vs = buf_holds c vs"
  by (simp_all add: buf_holds_def)

lemma wrap_small: "n + 1 < 2 ^ 64 \<Longrightarrow> wrap_add n = Suc n" "0 < n \<Longrightarrow> n < 2 ^ 64 \<Longrightarrow> wrap_sub n = n - 1"
proof -
  assume "0 < n" "n < 2 ^ 64"
  then have "n + 2 ^ 64 - 1 = (n - 1) + 2 ^ 64" "n - 1 < 2 ^ 64" by simp_all
  then show "wrap_sub n = n - 1" unfolding wrap_sub_def by (simp only: mod_add_self2 mod_less)
qed (simp add: wrap_add_def)

lemma send_value_holds:
  assumes b: "buf_holds c vs" and room: "length vs < ch_capacity c" and pos: "ch_send_pos c + 1 < 2 ^ 64"
  shows "\<exists>c'. send_value v c = Some c' \<and> buf_holds c' (vs @ [v]) \<and> ch_capacity c' = ch_capacity c
    \<and> ch_send_pos c' = Suc (ch_send_pos c)
    \<and> ch_send_waiters c' = ch_send_waiters c \<and> ch_recv_waiters c' = ch_recv_waiters c"
proof -
  note D = buf_holdsD [OF b]
  let ?i = "ch_send_pos c mod ch_capacity c"
  let ?c = "c\<lparr>ch_send_pos := Suc (ch_send_pos c), ch_data := (ch_data c)[?i := Some v],
    ch_occupied := (ch_occupied c)[?i := True], ch_len := Suc (ch_len c)\<rparr>"
  have i: "?i < ch_capacity c" using D(1) by simp
  have "ch_len c + 1 < 2 ^ 64" using D(2,6) room by simp
  then have eq: "send_value v c = Some ?c"
    using D(1) wrap_small(1) [OF pos]
    by (simp add: send_value_def send_claim_def send_write_def send_publish_def wrap_small(1))
  have "ch_data ?c ! (k mod ch_capacity c)
        = (if k < Suc (ch_send_pos c) then Some ((vs @ [v]) ! (k - ch_recv_pos c)) else None)
      \<and> ch_occupied ?c ! (k mod ch_capacity c) = (k < Suc (ch_send_pos c))"
    if k: "ch_recv_pos c \<le> k" "k < ch_recv_pos c + ch_capacity c" for k
  proof (cases "k = ch_send_pos c")
    case True
    then show ?thesis using D(3,4,7) i by simp
  next
    case False
    have "k mod ch_capacity c \<noteq> ?i"
      by (rule mod_neq_window) (use False k D(5,7) room in auto)
    then show ?thesis using D(10) [OF k] False D(3,4,7) i k by (auto simp: nth_append)
  qed
  then have "buf_holds ?c (vs @ [v])"
    unfolding buf_holds_def using D(1-9) room pos by simp
  with eq show ?thesis by simp
qed

lemma recv_value_holds:
  assumes b: "buf_holds c (v # vs)"
  shows "\<exists>c'. recv_value c = Some (v, c') \<and> buf_holds c' vs \<and> ch_capacity c' = ch_capacity c
    \<and> ch_send_pos c' = ch_send_pos c
    \<and> ch_send_waiters c' = ch_send_waiters c \<and> ch_recv_waiters c' = ch_recv_waiters c"
proof -
  note D = buf_holdsD [OF b]
  let ?i = "ch_recv_pos c mod ch_capacity c"
  let ?c = "c\<lparr>ch_recv_pos := Suc (ch_recv_pos c), ch_data := (ch_data c)[?i := None],
    ch_occupied := (ch_occupied c)[?i := False], ch_len := ch_len c - 1\<rparr>"
  have i: "?i < ch_capacity c" using D(1) by simp
  have "ch_data c ! ?i = Some v" using D(10) [of "ch_recv_pos c"] D(1,7) by simp
  moreover have "wrap_sub (ch_len c) = ch_len c - 1"
    by (rule wrap_small(2)) (use D(2,5,6) in auto)
  moreover have "wrap_add (ch_recv_pos c) = Suc (ch_recv_pos c)"
    by (rule wrap_small(1)) (use D(7,8) in simp)
  ultimately have eq: "recv_value c = Some (v, ?c)"
    using D(1,3) i by (simp add: recv_value_def recv_claim_def recv_read_def recv_release_def)
  have "ch_data ?c ! (k mod ch_capacity c)
        = (if k < ch_send_pos c then Some (vs ! (k - Suc (ch_recv_pos c))) else None)
      \<and> ch_occupied ?c ! (k mod ch_capacity c) = (k < ch_send_pos c)"
    if k: "Suc (ch_recv_pos c) \<le> k" "k < Suc (ch_recv_pos c) + ch_capacity c" for k
  proof (cases "k = ch_recv_pos c + ch_capacity c")
    case True
    then show ?thesis using D(3-5,7) i by simp
  next
    case False
    have "k mod ch_capacity c \<noteq> ?i"
      by (rule mod_neq_window) (use False k in auto)
    then show ?thesis using D(10) [of k] False D(3,4,7) i k by (auto simp: nth_Cons')
  qed
  then have "buf_holds ?c vs"
    unfolding buf_holds_def using D(1-9) by simp
  with eq show ?thesis by simp
qed

text \<open>The values in the buffer, read off the slots.\<close>

definition buffered :: "'a channel_inner \<Rightarrow> 'a list" where
  "buffered c = map (\<lambda>i. the (ch_data c ! ((ch_recv_pos c + i) mod ch_capacity c))) [0..<ch_len c]"

lemma buffered_holds: "buf_holds c vs \<Longrightarrow> buffered c = vs"
  by (rule nth_equalityI)
    (use buf_holdsD(5-7,10) [of c vs] in \<open>auto simp: buffered_def\<close>)

text \<open>
  Sends and receives that do not overlap, as a bounded FIFO. A send that would wrap the position
  is outside the contract.
\<close>

definition ch_put :: "'a \<Rightarrow> 'a channel_inner \<Rightarrow> (bool \<times> 'a channel_inner) option" where
  "ch_put v c = (if ch_full c then Some (False, c)
     else if wrap_add (ch_send_pos c) = 0 then None else map_option (Pair True) (send_value v c))"

definition ch_get :: "'a channel_inner \<Rightarrow> ('a option \<times> 'a channel_inner) option" where
  "ch_get c = (if ch_len c = 0 then Some (None, c) else map_option (map_prod Some id) (recv_value c))"

interpretation chan: bounded_fifo "\<lambda>c. \<exists>vs. buf_holds c vs" buffered ch_capacity ch_put ch_get
proof unfold_locales
  fix c c' :: "'a channel_inner" and v b r
  assume "\<exists>vs. buf_holds c vs"
  then obtain vs where h: "buf_holds c vs" ..
  note D = buf_holdsD [OF h] and bv = buffered_holds [OF h]
  show "length (buffered c) \<le> ch_capacity c" using D(5) bv by simp
  show "(\<exists>vs. buf_holds c' vs) \<and> ch_capacity c' = ch_capacity c \<and> b = (length (buffered c) < ch_capacity c)
      \<and> buffered c' = (if b then buffered c @ [v] else buffered c)" if p: "ch_put v c = Some (b, c')"
  proof (cases "ch_full c")
    case True
    with p D(6) bv h show ?thesis by (auto simp: ch_put_def ch_full_def)
  next
    case False
    with p have "wrap_add (ch_send_pos c) \<noteq> 0" by (auto simp: ch_put_def split: if_splits)
    then have "ch_send_pos c + 1 \<noteq> 2 ^ 64" by (auto simp: wrap_add_def)
    with D(8) have "ch_send_pos c + 1 < 2 ^ 64" by linarith
    with send_value_holds [OF h, of v] False D(6) p bv buffered_holds show ?thesis
      by (auto simp: ch_put_def ch_full_def not_le split: if_splits)
  qed
  show "(\<exists>vs. buf_holds c' vs) \<and> ch_capacity c' = ch_capacity c \<and> r = hd_opt (buffered c)
      \<and> buffered c' = tl (buffered c)" if g: "ch_get c = Some (r, c')"
  proof (cases vs)
    case Nil
    with g D(6) bv h show ?thesis by (auto simp: ch_get_def)
  next
    case (Cons x xs)
    with recv_value_holds [of c x xs] h g D(6) bv buffered_holds show ?thesis
      by (auto simp: ch_get_def)
  qed
qed

text \<open>So any run of such sends and receives gives out what it took in, in order.\<close>

lemma channel_history:
  "run_ops (fifo_step ch_put ch_get) xs c = Some (rs, c') \<Longrightarrow> buf_holds c vs \<Longrightarrow>
    vs @ fifo_in xs rs = fifo_out rs @ buffered c'"
  using chan.fifo_history [of xs c rs c'] buffered_holds [of c vs] by auto

text \<open>Dropping the slots of such a buffer drops what the occupied slots hold, and is defined.\<close>

lemma VecSlot_drop_zip:
  "list_all2 (\<lambda>d occ. occ \<longrightarrow> d \<noteq> None) ds os \<Longrightarrow>
    VecSlot_drop ds os = Some (map (the \<circ> fst) (filter snd (zip ds os)))"
  by (induction rule: list_all2_induct) auto

lemma VecSlot_drop_holds:
  assumes "buf_holds c vs"
  shows "VecSlot_drop (ch_data c) (ch_occupied c)
    = Some (map (the \<circ> fst) (filter snd (zip (ch_data c) (ch_occupied c))))"
proof (rule VecSlot_drop_zip, rule list_all2_all_nthI)
  note D = buf_holdsD [OF assms]
  show "length (ch_data c) = length (ch_occupied c)" using D(3,4) by simp
  fix i assume "i < length (ch_data c)"
  then have i: "i < ch_capacity c" using D(3) by simp
  let ?n = "ch_capacity c" and ?r = "ch_recv_pos c mod ch_capacity c"
  have "\<exists>k \<ge> ch_recv_pos c. k < ch_recv_pos c + ?n \<and> k mod ?n = i"
  proof (cases "?r \<le> i")
    case True
    have "(ch_recv_pos c + (i - ?r)) mod ?n = (?r + (i - ?r)) mod ?n" by (simp add: mod_add_left_eq)
    with True i show ?thesis by (intro exI [of _ "ch_recv_pos c + (i - ?r)"]) auto
  next
    case False
    have "(ch_recv_pos c + (?n - ?r + i)) mod ?n = (?r + (?n - ?r + i)) mod ?n" by (simp add: mod_add_left_eq)
    also have "?r + (?n - ?r + i) = ?n + i" using mod_less_divisor [OF D(1), of "ch_recv_pos c"] by simp
    finally show ?thesis using False i D(1) by (intro exI [of _ "ch_recv_pos c + (?n - ?r + i)"]) auto
  qed
  then obtain k where k: "ch_recv_pos c \<le> k" "k < ch_recv_pos c + ?n" "k mod ?n = i" by blast
  from D(10) [OF k(1,2)] k(3) show "ch_occupied c ! i \<longrightarrow> ch_data c ! i \<noteq> None" by auto
qed

section \<open>The channel with its waiters\<close>

definition chan_inv :: "('a, 'w) chan_sys \<Rightarrow> 'a list \<Rightarrow> addr list \<Rightarrow> addr list \<Rightarrow> bool" where
  "chan_inv s vs xs ys \<longleftrightarrow> buf_holds (cs_inner s) vs
     \<and> two_queues (cs_heap s) (ch_send_waiters (cs_inner s)) (ch_recv_waiters (cs_inner s)) xs ys
     \<and> (\<forall>n \<in> set xs. \<exists>v. cs_fut s n = SendFuture (Some v) True)
     \<and> (\<forall>n \<in> set ys. cs_fut s n = RecvFuture True)"

lemma chan_frame [simp]:
  "cs_fut (wake_recv s) = cs_fut s" "cs_fut (wake_send s) = cs_fut s"
  "cs_fut (remove_recv n s) = cs_fut s" "cs_fut (remove_send n s) = cs_fut s"
  "ch_send_pos (cs_inner (wake_recv s)) = ch_send_pos (cs_inner s)"
  "ch_send_pos (cs_inner (wake_send s)) = ch_send_pos (cs_inner s)"
  "ch_send_pos (cs_inner (remove_recv n s)) = ch_send_pos (cs_inner s)"
  "ch_send_pos (cs_inner (remove_send n s)) = ch_send_pos (cs_inner s)"
  "ch_capacity (cs_inner (wake_recv s)) = ch_capacity (cs_inner s)"
  "ch_capacity (cs_inner (wake_send s)) = ch_capacity (cs_inner s)"
  "ch_capacity (cs_inner (remove_recv n s)) = ch_capacity (cs_inner s)"
  "ch_capacity (cs_inner (remove_send n s)) = ch_capacity (cs_inner s)"
  "cs_inner (set_future n f s) = cs_inner s" "cs_heap (set_future n f s) = cs_heap s"
  "cs_fut (set_future n f s) = (cs_fut s)(n := f)" "cs_wakes (set_future n f s) = cs_wakes s"
  "cs_inner (set_node_waker n w s) = cs_inner s" "cs_fut (set_node_waker n w s) = cs_fut s"
  by (simp_all add: wake_recv_def wake_send_def remove_recv_def remove_send_def set_future_def
      set_node_waker_def split: prod.splits)

lemma wake_inv:
  assumes "chan_inv s vs xs ys"
  shows "chan_inv (wake_recv s) vs xs (tl ys)" and "chan_inv (wake_send s) vs (tl xs) ys"
proof -
  from assms have b: "buf_holds (cs_inner s) vs"
    and q: "two_queues (cs_heap s) (ch_send_waiters (cs_inner s)) (ch_recv_waiters (cs_inner s)) xs ys"
    and f: "\<forall>n \<in> set xs. \<exists>v. cs_fut s n = SendFuture (Some v) True" "\<forall>n \<in> set ys. cs_fut s n = RecvFuture True"
    by (auto simp: chan_inv_def)
  have tl: "set (tl zs) \<subseteq> set zs" for zs :: "addr list" by (cases zs) auto
  from two_queues_wake [OF q] b f tl [of xs] show "chan_inv (wake_send s) vs (tl xs) ys"
    by (auto simp: chan_inv_def wake_send_def)
  from two_queues_wake [OF two_queues_sym [OF q]] b f tl [of ys] show "chan_inv (wake_recv s) vs xs (tl ys)"
    by (auto simp: chan_inv_def wake_recv_def dest: two_queues_sym)
qed

text \<open>A future leaves its queue, if it is in one, and changes.\<close>

lemma remove_inv:
  assumes inv: "chan_inv s vs xs ys"
  shows "(\<exists>v. cs_fut s n = SendFuture v r) \<Longrightarrow>
      chan_inv (set_future n f (remove_send n s)) vs (remove1 n xs) ys"
    and "cs_fut s n = RecvFuture r \<Longrightarrow> chan_inv (set_future n f (remove_recv n s)) vs xs (remove1 n ys)"
proof -
  from inv have b: "buf_holds (cs_inner s) vs"
    and q: "two_queues (cs_heap s) (ch_send_waiters (cs_inner s)) (ch_recv_waiters (cs_inner s)) xs ys"
    and f: "\<And>n. n \<in> set xs \<Longrightarrow> \<exists>v. cs_fut s n = SendFuture (Some v) True"
      "\<And>n. n \<in> set ys \<Longrightarrow> cs_fut s n = RecvFuture True"
    by (auto simp: chan_inv_def)
  note d = two_queues_distinct [OF q]
  show "chan_inv (set_future n f (remove_send n s)) vs (remove1 n xs) ys"
    if "\<exists>v. cs_fut s n = SendFuture v r"
  proof -
    have "n \<notin> set ys" using f(2) [of n] that by auto
    with two_queues_remove [OF q this] b f d show ?thesis
      by (auto simp: chan_inv_def remove_send_def set_remove1_eq split: prod.splits)
  qed
  show "chan_inv (set_future n f (remove_recv n s)) vs xs (remove1 n ys)" if "cs_fut s n = RecvFuture r"
  proof -
    have "n \<notin> set xs" using f(1) [of n] that by auto
    with two_queues_remove [OF two_queues_sym [OF q] this] b f d show ?thesis
      by (auto simp: chan_inv_def remove_recv_def set_remove1_eq dest: two_queues_sym split: prod.splits)
  qed
qed

lemma future_inv:
  assumes "chan_inv s vs xs ys" "n \<notin> set xs \<union> set ys"
  shows "chan_inv (set_future n f s) vs xs ys"
    and "chan_inv (set_future n f (s\<lparr>cs_heap := (cs_heap s)(n := WaitNode_new)\<rparr>)) vs xs ys"
  using assms by (auto simp: chan_inv_def intro!: two_queues_new_node)

lemma chan_waker_inv: "chan_inv s vs xs ys \<Longrightarrow> chan_inv (set_node_waker n w s) vs xs ys"
  by (simp add: chan_inv_def set_node_waker_def two_queues_set_waker)

text \<open>A future parks: it is appended to its queue.\<close>

lemma chan_park_inv:
  assumes inv: "chan_inv s vs xs ys" and n: "n \<notin> set xs \<union> set ys"
  shows "\<exists>s'. enqueue_send n (set_node_waker n w s) = Some s' \<and> cs_inner s' = (cs_inner s)\<lparr>ch_send_waiters := ch_send_waiters (cs_inner s')\<rparr>
      \<and> chan_inv (set_future n (SendFuture (Some v) True) s') vs (xs @ [n]) ys"
    and "\<exists>s'. enqueue_recv n (set_node_waker n w s) = Some s' \<and> cs_inner s' = (cs_inner s)\<lparr>ch_recv_waiters := ch_recv_waiters (cs_inner s')\<rparr>
      \<and> chan_inv (set_future n (RecvFuture True) s') vs xs (ys @ [n])"
proof -
  let ?s = "set_node_waker n w s"
  from chan_waker_inv [OF inv] have b: "buf_holds (cs_inner s) vs"
    and q: "two_queues (cs_heap ?s) (ch_send_waiters (cs_inner s)) (ch_recv_waiters (cs_inner s)) xs ys"
    and f: "\<And>n. n \<in> set xs \<Longrightarrow> \<exists>v. cs_fut s n = SendFuture (Some v) True"
      "\<And>n. n \<in> set ys \<Longrightarrow> cs_fut s n = RecvFuture True"
    by (auto simp: chan_inv_def)
  have w: "wn_waker (cs_heap ?s n) \<noteq> None"
    by (simp add: set_node_waker_def WaitNode_set_waker_def)
  from two_queues_enqueue [OF q n w] b f n show
    "\<exists>s'. enqueue_send n (set_node_waker n w s) = Some s' \<and> cs_inner s' = (cs_inner s)\<lparr>ch_send_waiters := ch_send_waiters (cs_inner s')\<rparr>
      \<and> chan_inv (set_future n (SendFuture (Some v) True) s') vs (xs @ [n]) ys"
    by (auto simp: chan_inv_def enqueue_send_def)
  from two_queues_enqueue [OF two_queues_sym [OF q] _ w] b f n show
    "\<exists>s'. enqueue_recv n (set_node_waker n w s) = Some s' \<and> cs_inner s' = (cs_inner s)\<lparr>ch_recv_waiters := ch_recv_waiters (cs_inner s')\<rparr>
      \<and> chan_inv (set_future n (RecvFuture True) s') vs xs (ys @ [n])"
    by (auto simp: chan_inv_def enqueue_recv_def dest: two_queues_sym)
qed

section \<open>Runs\<close>

text \<open>
  The operations of any number of senders and receivers, in any order, as long as they do not
  overlap. An event that ownership or the contract of futures rules out has no effect: a second
  future at an address, a poll where there is no future or after a send completed.
\<close>

datatype ('a, 'w) chan_event =
  TrySend 'a | TryRecv | Send addr 'a | Recv addr | PollAt addr 'w | DropAt addr

datatype 'a chan_res = Silent | Sent 'a | Refused 'a | Got 'a | SawClosed

definition chan_step :: "('a, 'w) chan_event \<Rightarrow> ('a, 'w) chan_sys \<Rightarrow> ('a chan_res \<times> ('a, 'w) chan_sys) option" where
  "chan_step e s = (case e of
     TrySend v \<Rightarrow> map_option (map_prod (\<lambda>r. case r of Inr _ \<Rightarrow> Sent v | Inl (TrySendFull x) \<Rightarrow> Refused x
         | Inl (TrySendClosed _) \<Rightarrow> SawClosed) id) (Channel_try_send v s)
   | TryRecv \<Rightarrow> map_option (map_prod (\<lambda>r. case r of Inr v \<Rightarrow> Got v | Inl TryRecvEmpty \<Rightarrow> Silent
         | Inl TryRecvClosed \<Rightarrow> SawClosed) id) (Channel_try_recv s)
   | Send n v \<Rightarrow> Some (Silent, if cs_fut s n = NoFuture then Channel_send n v s else s)
   | Recv n \<Rightarrow> Some (Silent, if cs_fut s n = NoFuture then Channel_recv n s else s)
   | PollAt n w \<Rightarrow> (case cs_fut s n of
       SendFuture (Some v) reg \<Rightarrow> map_option (map_prod (\<lambda>r. case r of None \<Rightarrow> Silent
         | Some (Inr _) \<Rightarrow> Sent v | Some (Inl _) \<Rightarrow> SawClosed) id) (SendFuture_poll n w (Some v) reg s)
     | RecvFuture reg \<Rightarrow> map_option (map_prod (\<lambda>r. case r of None \<Rightarrow> Silent
         | Some (Inr v) \<Rightarrow> Got v | Some (Inl _) \<Rightarrow> SawClosed) id) (RecvFuture_poll n w reg s)
     | _ \<Rightarrow> Some (Silent, s))
   | DropAt n \<Rightarrow> Some (Silent, if cs_fut s n = NoFuture then s else Future_drop n s))"

definition chan_init :: "'a channel_inner \<Rightarrow> ('a, 'w) chan_sys" where
  "chan_init c = \<lparr>cs_inner = c, cs_heap = (\<lambda>_. WaitNode_new), cs_fut = (\<lambda>_. NoFuture), cs_wakes = []\<rparr>"

fun sent_by :: "'a chan_res \<Rightarrow> 'a list" where
  "sent_by (Sent v) = [v]" | "sent_by _ = []"

fun got_by :: "'a chan_res \<Rightarrow> 'a list" where
  "got_by (Got v) = [v]" | "got_by _ = []"

lemma put_inv:
  assumes inv: "chan_inv s vs xs ys" and room: "\<not> ch_full (cs_inner s)"
    and pos: "ch_send_pos (cs_inner s) + 1 < 2 ^ 64"
  obtains c where "send_value v (cs_inner s) = Some c" "ch_capacity c = ch_capacity (cs_inner s)"
    "ch_send_pos c = Suc (ch_send_pos (cs_inner s))" "chan_inv (wake_recv (s\<lparr>cs_inner := c\<rparr>)) (vs @ [v]) xs (tl ys)"
proof -
  from inv have b: "buf_holds (cs_inner s) vs" by (simp add: chan_inv_def)
  have "length vs < ch_capacity (cs_inner s)" using room buf_holdsD(6) [OF b] by (simp add: ch_full_def)
  from send_value_holds [OF b this pos, of v] obtain c where
    c: "send_value v (cs_inner s) = Some c" "buf_holds c (vs @ [v])" "ch_capacity c = ch_capacity (cs_inner s)"
    "ch_send_pos c = Suc (ch_send_pos (cs_inner s))"
    "ch_send_waiters c = ch_send_waiters (cs_inner s)" "ch_recv_waiters c = ch_recv_waiters (cs_inner s)" by blast
  then have "chan_inv (s\<lparr>cs_inner := c\<rparr>) (vs @ [v]) xs ys" using inv by (simp add: chan_inv_def)
  from wake_inv(1) [OF this] c(1,3,4) show thesis by (intro that)
qed

lemma take_inv:
  assumes inv: "chan_inv s vs xs ys" and some: "0 < ch_len (cs_inner s)"
  obtains c v vs' where "vs = v # vs'" "recv_value (cs_inner s) = Some (v, c)" "ch_capacity c = ch_capacity (cs_inner s)"
    "ch_send_pos c = ch_send_pos (cs_inner s)" "chan_inv (wake_send (s\<lparr>cs_inner := c\<rparr>)) vs' (tl xs) ys"
proof -
  from inv have b: "buf_holds (cs_inner s) vs" by (simp add: chan_inv_def)
  from some buf_holdsD(6) [OF b] obtain v vs' where vs: "vs = v # vs'" by (cases vs) auto
  from recv_value_holds [OF b [unfolded vs]] obtain c where
    c: "recv_value (cs_inner s) = Some (v, c)" "buf_holds c vs'" "ch_capacity c = ch_capacity (cs_inner s)"
    "ch_send_pos c = ch_send_pos (cs_inner s)"
    "ch_send_waiters c = ch_send_waiters (cs_inner s)" "ch_recv_waiters c = ch_recv_waiters (cs_inner s)" by blast
  then have "chan_inv (s\<lparr>cs_inner := c\<rparr>) vs' xs ys" using inv by (simp add: chan_inv_def)
  from wake_inv(2) [OF this] c(1,3,4) vs show thesis by (intro that)
qed

text \<open>What one event does, seen from the buffer.\<close>

definition chan_effect :: "('a, 'w) chan_sys \<Rightarrow> 'a list \<Rightarrow> 'a chan_res \<Rightarrow> ('a, 'w) chan_sys \<Rightarrow> bool" where
  "chan_effect s vs r s' \<longleftrightarrow> (\<exists>vs' xs' ys'. chan_inv s' vs' xs' ys' \<and> vs @ sent_by r = got_by r @ vs'
     \<and> ch_send_pos (cs_inner s') \<le> ch_send_pos (cs_inner s) + 1
     \<and> ch_capacity (cs_inner s') = ch_capacity (cs_inner s) \<and> r \<noteq> SawClosed
     \<and> (\<forall>v. r = Refused v \<longrightarrow> length vs = ch_capacity (cs_inner s)))"

lemma chan_effectI:
  assumes "chan_inv s' vs' xs' ys'" "vs @ sent_by r = got_by r @ vs'"
    "ch_send_pos (cs_inner s') \<le> ch_send_pos (cs_inner s) + 1"
    "ch_capacity (cs_inner s') = ch_capacity (cs_inner s)" "r \<noteq> SawClosed"
    "\<And>v. r = Refused v \<Longrightarrow> length vs = ch_capacity (cs_inner s)"
  shows "chan_effect s vs r s'"
  using assms unfolding chan_effect_def by blast

lemma poll_send_effect:
  assumes inv: "chan_inv s vs xs ys" and pos: "ch_send_pos (cs_inner s) + 1 < 2 ^ 64"
    and f: "cs_fut s n = SendFuture (Some v) reg"
  shows "\<exists>r s'. chan_step (PollAt n w) s = Some (r, s') \<and> chan_effect s vs r s'"
proof -
  have open_ch: "\<not> ch_closed (cs_inner s)" using inv buf_holdsD(9) by (auto simp: chan_inv_def)
  show ?thesis
  proof (cases "ch_full (cs_inner s)")
    case False
    from put_inv [OF inv False pos, of v] obtain c where
      c: "send_value v (cs_inner s) = Some c" "ch_capacity c = ch_capacity (cs_inner s)"
      "ch_send_pos c = Suc (ch_send_pos (cs_inner s))" "chan_inv (wake_recv (s\<lparr>cs_inner := c\<rparr>)) (vs @ [v]) xs (tl ys)"
      by blast
    let ?s = "wake_recv (s\<lparr>cs_inner := c\<rparr>)"
    let ?r = "set_future n (SendFuture None False) (if reg then remove_send n ?s else ?s)"
    have step: "chan_step (PollAt n w) s = Some (Sent v, ?r)"
      using open_ch False f c(1) by (simp add: chan_step_def SendFuture_poll_def SendFuture_put_def Let_def)
    have "\<exists>xs' ys'. chan_inv ?r (vs @ [v]) xs' ys'"
    proof (cases reg)
      case True
      from remove_inv(1) [OF c(4), of n True "SendFuture None False"] f True show ?thesis by auto
    next
      case False
      have "n \<notin> set xs \<union> set (tl ys)" using c(4) f False by (auto simp: chan_inv_def)
      from future_inv(1) [OF c(4) this] False show ?thesis by auto
    qed
    then have "chan_effect s vs (Sent v) ?r" using c(2,3) by (auto intro!: chan_effectI)
    with step show ?thesis by blast
  next
    case True
    show ?thesis
    proof (cases reg)
      case reg: True
      have "chan_effect s vs Silent (set_node_waker n w s)"
        by (rule chan_effectI [OF chan_waker_inv [OF inv]]) simp_all
      with reg True open_ch f show ?thesis
        by (auto simp: chan_step_def SendFuture_poll_def SendFuture_park_def Let_def)
    next
      case reg: False
      have "n \<notin> set xs \<union> set ys" using inv f reg by (auto simp: chan_inv_def)
      from chan_park_inv(1) [OF inv this, of w v] obtain s' where
        p: "enqueue_send n (set_node_waker n w s) = Some s'"
        "cs_inner s' = (cs_inner s)\<lparr>ch_send_waiters := ch_send_waiters (cs_inner s')\<rparr>"
        "chan_inv (set_future n (SendFuture (Some v) True) s') vs (xs @ [n]) ys" by blast
      have "ch_send_pos (cs_inner s') = ch_send_pos (cs_inner s)" "ch_capacity (cs_inner s') = ch_capacity (cs_inner s)"
        by (subst p(2), simp)+
      then have "chan_effect s vs Silent (set_future n (SendFuture (Some v) True) s')"
        by (intro chan_effectI [OF p(3)]) simp_all
      with reg True open_ch f p(1) show ?thesis
        by (auto simp: chan_step_def SendFuture_poll_def SendFuture_park_def Let_def)
    qed
  qed
qed

lemma poll_recv_effect:
  assumes inv: "chan_inv s vs xs ys" and f: "cs_fut s n = RecvFuture reg"
  shows "\<exists>r s'. chan_step (PollAt n w) s = Some (r, s') \<and> chan_effect s vs r s'"
proof -
  have open_ch: "\<not> ch_closed (cs_inner s)" using inv buf_holdsD(9) by (auto simp: chan_inv_def)
  show ?thesis
  proof (cases "0 < ch_len (cs_inner s)")
    case True
    from take_inv [OF inv True] obtain c v vs' where
      c: "vs = v # vs'" "recv_value (cs_inner s) = Some (v, c)" "ch_capacity c = ch_capacity (cs_inner s)"
      "ch_send_pos c = ch_send_pos (cs_inner s)" "chan_inv (wake_send (s\<lparr>cs_inner := c\<rparr>)) vs' (tl xs) ys" by blast
    let ?s = "wake_send (s\<lparr>cs_inner := c\<rparr>)"
    let ?r = "set_future n (RecvFuture False) (if reg then remove_recv n ?s else ?s)"
    have step: "chan_step (PollAt n w) s = Some (Got v, ?r)"
      using True f c(2) by (simp add: chan_step_def RecvFuture_poll_def RecvFuture_take_def Let_def)
    have "\<exists>xs' ys'. chan_inv ?r vs' xs' ys'"
    proof (cases reg)
      case True
      from remove_inv(2) [OF c(5), of n True "RecvFuture False"] f True show ?thesis by auto
    next
      case False
      have "n \<notin> set (tl xs) \<union> set ys" using c(5) f False by (auto simp: chan_inv_def)
      from future_inv(1) [OF c(5) this] False show ?thesis by auto
    qed
    then have "chan_effect s vs (Got v) ?r" using c(1,3,4) by (auto intro!: chan_effectI)
    with step show ?thesis by blast
  next
    case False
    show ?thesis
    proof (cases reg)
      case reg: True
      have "chan_effect s vs Silent (set_node_waker n w s)"
        by (rule chan_effectI [OF chan_waker_inv [OF inv]]) simp_all
      with reg False open_ch f show ?thesis
        by (auto simp: chan_step_def RecvFuture_poll_def RecvFuture_park_def RecvFuture_recheck_def Let_def)
    next
      case reg: False
      have "n \<notin> set xs \<union> set ys" using inv f reg by (auto simp: chan_inv_def)
      from chan_park_inv(2) [OF inv this, of w] obtain s' where
        p: "enqueue_recv n (set_node_waker n w s) = Some s'"
        "cs_inner s' = (cs_inner s)\<lparr>ch_recv_waiters := ch_recv_waiters (cs_inner s')\<rparr>"
        "chan_inv (set_future n (RecvFuture True) s') vs xs (ys @ [n])" by blast
      have eq: "ch_send_pos (cs_inner s') = ch_send_pos (cs_inner s)" "ch_capacity (cs_inner s') = ch_capacity (cs_inner s)"
        "ch_len (cs_inner s') = ch_len (cs_inner s)" "ch_closed (cs_inner s') = ch_closed (cs_inner s)"
        by (subst p(2), simp)+
      then have "chan_effect s vs Silent (set_future n (RecvFuture True) s')"
        by (intro chan_effectI [OF p(3)]) simp_all
      with reg False open_ch f p(1) eq show ?thesis
        by (auto simp: chan_step_def RecvFuture_poll_def RecvFuture_park_def RecvFuture_recheck_def Let_def)
    qed
  qed
qed

lemma try_effect:
  assumes inv: "chan_inv s vs xs ys" and pos: "ch_send_pos (cs_inner s) + 1 < 2 ^ 64"
  shows "\<exists>r s'. chan_step (TrySend v) s = Some (r, s') \<and> chan_effect s vs r s'"
    and "\<exists>r s'. chan_step TryRecv s = Some (r, s') \<and> chan_effect s vs r s'"
proof -
  from inv have b: "buf_holds (cs_inner s) vs" by (simp add: chan_inv_def)
  note D = buf_holdsD [OF b]
  show "\<exists>r s'. chan_step (TrySend v) s = Some (r, s') \<and> chan_effect s vs r s'"
  proof (cases "ch_full (cs_inner s)")
    case True
    have "chan_effect s vs (Refused v) s"
      by (rule chan_effectI [OF inv]) (use True D(5,6) in \<open>auto simp: ch_full_def\<close>)
    with True D(9) show ?thesis by (auto simp: chan_step_def Channel_try_send_def Let_def)
  next
    case False
    from put_inv [OF inv False pos, of v] obtain c where
      c: "send_value v (cs_inner s) = Some c" "ch_capacity c = ch_capacity (cs_inner s)"
      "ch_send_pos c = Suc (ch_send_pos (cs_inner s))" "chan_inv (wake_recv (s\<lparr>cs_inner := c\<rparr>)) (vs @ [v]) xs (tl ys)"
      by blast
    have "chan_effect s vs (Sent v) (wake_recv (s\<lparr>cs_inner := c\<rparr>))"
      by (rule chan_effectI [OF c(4)]) (use c(2,3) in simp_all)
    with False D(9) c(1) show ?thesis by (auto simp: chan_step_def Channel_try_send_def Let_def)
  qed
  show "\<exists>r s'. chan_step TryRecv s = Some (r, s') \<and> chan_effect s vs r s'"
  proof (cases "0 < ch_len (cs_inner s)")
    case True
    from take_inv [OF inv True] obtain c v vs' where
      c: "vs = v # vs'" "recv_value (cs_inner s) = Some (v, c)" "ch_capacity c = ch_capacity (cs_inner s)"
      "ch_send_pos c = ch_send_pos (cs_inner s)" "chan_inv (wake_send (s\<lparr>cs_inner := c\<rparr>)) vs' (tl xs) ys" by blast
    have "chan_effect s vs (Got v) (wake_send (s\<lparr>cs_inner := c\<rparr>))"
      by (rule chan_effectI [OF c(5)]) (use c(1,3,4) in simp_all)
    with True c(2) show ?thesis by (auto simp: chan_step_def Channel_try_recv_def Let_def)
  next
    case False
    have "chan_effect s vs Silent s" by (rule chan_effectI [OF inv]) simp_all
    with False D(9) show ?thesis by (auto simp: chan_step_def Channel_try_recv_def Let_def)
  qed
qed

lemma drop_effect:
  assumes inv: "chan_inv s vs xs ys" and f: "cs_fut s n \<noteq> NoFuture"
  shows "chan_effect s vs Silent (Future_drop n s)"
proof -
  have out: "n \<notin> set xs \<union> set ys"
    if "cs_fut s n \<noteq> RecvFuture True" "\<And>v. cs_fut s n \<noteq> SendFuture v True"
    using inv that by (auto simp: chan_inv_def)
  have "\<exists>xs' ys'. chan_inv (Future_drop n s) vs xs' ys'"
  proof (cases "cs_fut s n")
    case (SendFuture v reg)
    with remove_inv(1) [OF inv, of n True NoFuture] future_inv(1) [OF inv out, of NoFuture] show ?thesis
      by (cases reg) (auto simp: Future_drop_def SendFuture_drop_def RecvFuture_drop_def)
  next
    case (RecvFuture reg)
    with remove_inv(2) [OF inv, of n True NoFuture] future_inv(1) [OF inv out, of NoFuture] show ?thesis
      by (cases reg) (auto simp: Future_drop_def SendFuture_drop_def RecvFuture_drop_def)
  qed (use f in simp)
  moreover have "ch_send_pos (cs_inner (Future_drop n s)) = ch_send_pos (cs_inner s)"
    "ch_capacity (cs_inner (Future_drop n s)) = ch_capacity (cs_inner s)"
    by (auto simp: Future_drop_def SendFuture_drop_def RecvFuture_drop_def split: chan_future.splits)
  ultimately show ?thesis by (auto intro!: chan_effectI)
qed

lemma chan_step_effect:
  assumes inv: "chan_inv s vs xs ys" and pos: "ch_send_pos (cs_inner s) + 1 < 2 ^ 64"
  shows "\<exists>r s'. chan_step e s = Some (r, s') \<and> chan_effect s vs r s'"
proof -
  have same: "chan_effect s vs Silent s" by (rule chan_effectI [OF inv]) simp_all
  show ?thesis
  proof (cases e)
    case (PollAt n w)
    show ?thesis
    proof (cases "cs_fut s n")
      case (SendFuture v reg)
      with PollAt same poll_send_effect [OF inv pos] show ?thesis
        by (cases v) (auto simp: chan_step_def)
    qed (use PollAt same poll_recv_effect [OF inv] in \<open>auto simp: chan_step_def\<close>)
  next
    case (Send n v)
    have "chan_effect s vs Silent (Channel_send n v s)" if "cs_fut s n = NoFuture"
    proof -
      have "n \<notin> set xs \<union> set ys" using inv that by (auto simp: chan_inv_def)
      note new = future_inv(2) [OF inv this, of "SendFuture (Some v) False"]
      show ?thesis unfolding Channel_send_def by (rule chan_effectI [OF new]) simp_all
    qed
    with Send same show ?thesis by (simp add: chan_step_def)
  next
    case (Recv n)
    have "chan_effect s vs Silent (Channel_recv n s)" if "cs_fut s n = NoFuture"
    proof -
      have "n \<notin> set xs \<union> set ys" using inv that by (auto simp: chan_inv_def)
      note new = future_inv(2) [OF inv this, of "RecvFuture False"]
      show ?thesis unfolding Channel_recv_def by (rule chan_effectI [OF new]) simp_all
    qed
    with Recv same show ?thesis by (simp add: chan_step_def)
  next
    case (DropAt n)
    with same drop_effect [OF inv] show ?thesis by (simp add: chan_step_def)
  qed (use try_effect [OF inv pos] in auto)
qed

lemma channel_new_inv:
  assumes "kernel_alloc capacity" "0 < capacity" "capacity < 2 ^ 64"
  shows "\<exists>c. channel kernel_alloc capacity = Some c \<and> ch_capacity c = capacity \<and> ch_send_pos c = 0
    \<and> chan_inv (chan_init c :: ('a, 'w) chan_sys) [] [] []"
  using assms by (auto simp: channel_def VecSlot_new_def chan_inv_def chan_init_def buf_holds_def
      two_queues_def wf_wq_def WaitQueue_new_def WaitNode_new_def)

text \<open>
  C7: Operations that do not overlap keep the channel a bounded FIFO, whatever number of senders
  and receivers poll, cancel, wait and are woken: no operation panics or reads an empty slot, the
  values received are the first values sent, in their order, a send is refused only when the
  channel is full, and both wait queues stay well formed. Nobody ever sees the channel closed,
  even when all senders are gone.
\<close>

theorem channel_fifo:
  fixes es :: "('a, 'w) chan_event list"
  assumes "kernel_alloc capacity" "0 < capacity" "capacity < 2 ^ 64" "length es < 2 ^ 64"
  shows "\<exists>c rs s vs xs ys. channel kernel_alloc capacity = Some c
    \<and> run_ops chan_step es (chan_init c) = Some (rs, s) \<and> chan_inv s vs xs ys
    \<and> concat (map sent_by rs) = concat (map got_by rs) @ vs \<and> length vs \<le> capacity
    \<and> SawClosed \<notin> set rs"
proof -
  have run: "\<exists>rs s' vs' xs' ys'. run_ops chan_step es s = Some (rs, s') \<and> chan_inv s' vs' xs' ys'
      \<and> ch_capacity (cs_inner s') = ch_capacity (cs_inner s)
      \<and> vs @ concat (map sent_by rs) = concat (map got_by rs) @ vs' \<and> SawClosed \<notin> set rs"
    if "chan_inv s vs xs ys" "ch_send_pos (cs_inner s) + length es < 2 ^ 64"
    for es and s :: "('a, 'w) chan_sys" and vs xs ys
    using that
  proof (induction es arbitrary: s vs xs ys)
    case (Cons e es)
    then have "ch_send_pos (cs_inner s) + 1 < 2 ^ 64" by simp
    from chan_step_effect [OF Cons.prems(1) this, of e] obtain r s1 vs1 xs1 ys1 where
      s1: "chan_step e s = Some (r, s1)" "chan_inv s1 vs1 xs1 ys1" "vs @ sent_by r = got_by r @ vs1"
      "ch_send_pos (cs_inner s1) \<le> ch_send_pos (cs_inner s) + 1"
      "ch_capacity (cs_inner s1) = ch_capacity (cs_inner s)" "r \<noteq> SawClosed"
      unfolding chan_effect_def by blast
    from s1(4) Cons.prems(2) have "ch_send_pos (cs_inner s1) + length es < 2 ^ 64" by simp
    from Cons.IH [OF s1(2) this] obtain rs s' vs' xs' ys' where
      r: "run_ops chan_step es s1 = Some (rs, s')" "chan_inv s' vs' xs' ys'"
      "ch_capacity (cs_inner s') = ch_capacity (cs_inner s1)"
      "vs1 @ concat (map sent_by rs) = concat (map got_by rs) @ vs'" "SawClosed \<notin> set rs" by blast
    have "vs @ sent_by r @ concat (map sent_by rs) = got_by r @ concat (map got_by rs) @ vs'"
      using s1(3) r(4) by (metis append.assoc)
    with s1 r show ?case by auto
  qed auto
  obtain c where c: "channel kernel_alloc capacity = Some c" "ch_capacity c = capacity"
    "ch_send_pos c = 0" "chan_inv (chan_init c :: ('a, 'w) chan_sys) [] [] []"
    using channel_new_inv [where kernel_alloc = kernel_alloc, OF assms(1-3)] by blast
  have "ch_send_pos (cs_inner (chan_init c :: ('a, 'w) chan_sys)) + length es < 2 ^ 64"
    using c(3) assms(4) by (simp add: chan_init_def)
  from run [OF c(4) this] obtain rs s vs xs ys where
    r: "run_ops chan_step es (chan_init c) = Some (rs, s)" "chan_inv s vs xs ys"
    "ch_capacity (cs_inner s) = ch_capacity (cs_inner (chan_init c :: ('a, 'w) chan_sys))"
    "[] @ concat (map sent_by rs) = concat (map got_by rs) @ vs" "SawClosed \<notin> set rs" by blast
  have "length vs \<le> capacity"
    using r(2,3) c(2) buf_holdsD(5) by (fastforce simp: chan_inv_def chan_init_def)
  with c(1) r show ?thesis by auto
qed

theorem channel_fifo_witness:
  "\<exists>c rs s vs. channel (\<lambda>n. n \<le> 4096) 2 = Some c
    \<and> run_ops chan_step [TrySend 5, Send 3 6, PollAt 3 9, TrySend 7, TryRecv] (chan_init c :: (nat, nat) chan_sys)
      = Some (rs, s) \<and> concat (map sent_by rs) = concat (map got_by rs) @ vs"
proof -
  have "length [TrySend 5, Send 3 6, PollAt 3 9, TrySend 7, TryRecv :: (nat, nat) chan_event] < 2 ^ 64" by simp
  from channel_fifo [of "\<lambda>n. n \<le> 4096" 2, OF _ _ _ this] show ?thesis by auto
qed

section \<open>What overlapping operations do\<close>

text \<open>
  Two producers that both see room for the last slot both write: the second one's position
  has come round to the oldest value, which is overwritten before it is received, and the length
  exceeds the capacity.
\<close>

theorem channel_producers_overwrite:
  assumes "buf_holds c (x # vs)" "Suc (length (x # vs)) = ch_capacity c" "ch_capacity c + 1 < 2 ^ 64"
    "ch_send_pos c + 2 < 2 ^ 64"
  shows "\<exists>c1 c2 c3. \<not> ch_full c \<and> send_value a c = Some c1 \<and> send_value b c1 = Some c2
    \<and> ch_len c2 = ch_capacity c + 1 \<and> recv_value c2 = Some (b, c3)"
proof -
  have room: "length (x # vs) < ch_capacity c" "\<not> ch_full c"
    using assms(2) buf_holdsD(6) [OF assms(1)] by (simp_all add: ch_full_def)
  from send_value_holds [OF assms(1) room(1), of a] assms(4) obtain c1 where
    c1: "send_value a c = Some c1" "buf_holds c1 (x # vs @ [a])" "ch_capacity c1 = ch_capacity c"
    "ch_send_pos c1 = Suc (ch_send_pos c)" by auto
  note D = buf_holdsD [OF c1(2)]
  have pos: "ch_send_pos c1 = ch_recv_pos c1 + ch_capacity c1" using D(7) c1(3) assms(2) by simp
  let ?i = "ch_recv_pos c1 mod ch_capacity c1"
  have i: "?i < ch_capacity c1" using D(1) by simp
  have len: "ch_len c1 = ch_capacity c1" using D(6) c1(3) assms(2) by simp
  let ?c2 = "c1\<lparr>ch_send_pos := Suc (ch_send_pos c1), ch_data := (ch_data c1)[?i := Some b],
    ch_occupied := (ch_occupied c1)[?i := True], ch_len := Suc (ch_len c1)\<rparr>"
  have "wrap_add (ch_send_pos c1) = Suc (ch_send_pos c1)" "wrap_add (ch_len c1) = Suc (ch_len c1)"
    "wrap_add (ch_recv_pos c1) = Suc (ch_recv_pos c1)"
    using assms(3,4) c1(3,4) len D(7,8) by (simp_all add: wrap_small(1))
  then have "send_value b c1 = Some ?c2"
    "recv_value ?c2 = Some (b, ?c2\<lparr>ch_recv_pos := Suc (ch_recv_pos c1), ch_data := (ch_data c1)[?i := None],
      ch_occupied := (ch_occupied c1)[?i := False], ch_len := wrap_sub (Suc (ch_len c1))\<rparr>)"
    using D(1,3,4) i pos
    by (simp_all add: send_value_def send_claim_def send_write_def send_publish_def recv_value_def
        recv_claim_def recv_read_def recv_release_def)
  then show ?thesis using room(2) c1(1,3) len by auto
qed

text \<open>
  A producer that has claimed a position and not yet written it is not seen: when a second
  producer finishes first, the receiver takes the claimed slot, which holds nothing, and reads
  uninitialised memory.
\<close>

theorem channel_reads_unwritten:
  assumes "buf_holds c []" "1 < ch_capacity c" "ch_send_pos c + 2 < 2 ^ 64"
  shows "\<exists>i c1 c2. send_claim c = Some (i, c1) \<and> \<not> ch_full c1 \<and> send_value b c1 = Some c2
    \<and> ch_len c2 = 1 \<and> recv_value c2 = None"
proof -
  note D = buf_holdsD [OF assms(1)]
  let ?i = "ch_send_pos c mod ch_capacity c" and ?j = "Suc (ch_send_pos c) mod ch_capacity c"
  have i: "?i < ch_capacity c" using D(1) by simp
  have wrap: "wrap_add (ch_send_pos c) = Suc (ch_send_pos c)"
    "wrap_add (Suc (ch_send_pos c)) = Suc (Suc (ch_send_pos c))" "wrap_add 0 = 1"
    using assms(3) by (simp_all add: wrap_small(1))
  have ne: "?j \<noteq> ?i" by (rule mod_neq_window) (use assms(2) in auto)
  have none: "ch_data c ! ?i = None" using D(10) [of "ch_send_pos c"] D(1,7) by simp
  have pos: "ch_recv_pos c = ch_send_pos c" "ch_len c = 0" using D(6,7) by simp_all
  let ?c1 = "c\<lparr>ch_send_pos := Suc (ch_send_pos c)\<rparr>"
  let ?c2 = "c\<lparr>ch_send_pos := Suc (Suc (ch_send_pos c)), ch_data := (ch_data c)[?j := Some b],
    ch_occupied := (ch_occupied c)[?j := True], ch_len := 1\<rparr>"
  have "send_claim c = Some (?i, ?c1)" "send_value b ?c1 = Some ?c2"
    using D(1) wrap pos
    by (simp_all add: send_claim_def send_value_def send_write_def send_publish_def)
  moreover have "recv_value ?c2 = None"
    using D(1,3) ne none i pos by (simp add: recv_value_def recv_claim_def recv_read_def)
  ultimately show ?thesis using D(1) pos by (auto simp: ch_full_def)
qed

lemmas chan_exec = chan_step_def chan_init_def channel_def VecSlot_new_def WaitQueue_new_def
  Channel_try_send_def Channel_try_recv_def Channel_send_def Channel_recv_def SendFuture_poll_def
  SendFuture_park_def SendFuture_put_def RecvFuture_poll_def RecvFuture_park_def RecvFuture_recheck_def
  RecvFuture_take_def ch_full_def send_value_def send_claim_def send_write_def send_publish_def
  recv_value_def recv_claim_def recv_read_def recv_release_def wrap_add_def wrap_sub_def
  wake_recv_def wake_send_def enqueue_send_def enqueue_recv_def remove_send_def remove_recv_def
  set_future_def set_node_waker_def WaitQueue_wake_one_def WaitQueue_enqueue_def WaitQueue_remove_def
  pop_head_def put_node_def WaitNode_set_waker_def WaitNode_new_def assert_that_def Let_def

text \<open>
  A send that saw the channel full parks without looking again. When the receiver empties the
  channel in between, finding nobody to wake, and then parks itself, both sides sleep over an empty
  channel and no waker was ever called.
\<close>

theorem channel_deadlock:
  fixes u v :: 'a and w w' :: 'w
  shows "\<exists>c s1 s2 s3. channel (\<lambda>_. True) 1 = Some c
    \<and> run_ops chan_step [TrySend u, Send 3 v, Recv 7] (chan_init c) = Some ([Sent u, Silent, Silent], s1)
    \<and> ch_full (cs_inner s1)
    \<and> run_ops chan_step [TryRecv, PollAt 7 w] s1 = Some ([Got u, Silent], s2)
    \<and> SendFuture_park 3 w' (Some v) False s2 = Some s3
    \<and> ch_len (cs_inner s3) = 0 \<and> wn_linked (cs_heap s3 3) \<and> wn_linked (cs_heap s3 7) \<and> cs_wakes s3 = []"
  by (simp add: chan_exec)

text \<open>
  A parked send that is woken and finds the channel full again is forgotten: it stays marked as
  registered, its node is not enqueued again, and when the channel is emptied nobody wakes it. The
  receiver then waits for a value that this sender still holds.
\<close>

theorem channel_forgets_sender:
  fixes u v x :: 'a and w w' w'' :: 'w
  shows "\<exists>c s. channel (\<lambda>_. True) 1 = Some c
    \<and> run_ops chan_step [TrySend u, Send 3 v, PollAt 3 w, TryRecv, TrySend x, PollAt 3 w', TryRecv, Recv 7, PollAt 7 w'']
        (chan_init c) = Some ([Sent u, Silent, Silent, Got u, Sent x, Silent, Got x, Silent, Silent], s)
    \<and> ch_len (cs_inner s) = 0 \<and> cs_wakes s = [Wake w]
    \<and> cs_fut s 3 = SendFuture (Some v) True \<and> \<not> wn_linked (cs_heap s 3) \<and> wn_linked (cs_heap s 7)"
  by (simp add: chan_exec)

lemma demo_channel:
  obtains c :: "nat channel_inner" where "buf_holds c []" "ch_capacity c = 2" "ch_send_pos c = 0"
  using channel_new_inv [of "\<lambda>_. True" 2, where 'a = nat and 'w = nat]
  by (auto simp: chan_inv_def chan_init_def)

theorem channel_producers_overwrite_witness:
  "\<exists>(c :: nat channel_inner) c1 c2 c3. buffered c = [5] \<and> \<not> ch_full c \<and> send_value 6 c = Some c1
    \<and> send_value 7 c1 = Some c2 \<and> recv_value c2 = Some (7, c3)"
proof -
  obtain c0 :: "nat channel_inner" where c0: "buf_holds c0 []" "ch_capacity c0 = 2" "ch_send_pos c0 = 0"
    by (rule demo_channel)
  from send_value_holds [OF c0(1), of 5] c0(2,3) obtain c :: "nat channel_inner" where
    c: "buf_holds c [5]" "ch_capacity c = 2" "ch_send_pos c = Suc 0" by auto
  from channel_producers_overwrite [OF c(1), of 6 7] c(2,3) buffered_holds [OF c(1)] show ?thesis by auto
qed

theorem channel_reads_unwritten_witness:
  "\<exists>(c :: nat channel_inner) i c1 c2. send_claim c = Some (i, c1) \<and> send_value 7 c1 = Some c2
    \<and> ch_len c2 = 1 \<and> recv_value c2 = None"
proof -
  obtain c :: "nat channel_inner" where c: "buf_holds c []" "ch_capacity c = 2" "ch_send_pos c = 0"
    by (rule demo_channel)
  from channel_reads_unwritten [OF c(1), of 7] c(2,3) show ?thesis by auto
qed

end
