(* ===== verification/ChannelRuns.thy ===== *)
theory ChannelRuns
  imports Channel
begin

text \<open>
  The async channel, \<open>src/primitives/channel.rs\<close>, with one producer and one receiver on different
  cores: each access to the shared counters, to a slot and to a wait queue is a step of its own. The
  producer calls \<open>try_send\<close> or polls the future of \<open>send\<close>, whose wait node is at the address \<open>m\<close>;
  the receiver calls \<open>try_recv\<close> or polls the future of \<open>recv\<close>, with the node at \<open>n\<close>. The flag
  \<open>closed\<close>, which nothing stores, is loaded together with the length.
\<close>

section \<open>The accesses\<close>

text \<open>
  Where the producer is. The flag of the later points says whether this is a poll; the looks know
  the waker of the poll, \<open>None\<close> in \<open>try_send\<close>.
\<close>

datatype ('a, 'w) snd_pc =
  SIdle | SLook 'a "'w option" | SClaim 'a bool | SWrite 'a nat bool | SPublish bool | SWake bool
  | SLeave | SPark 'a 'w

datatype ('a, 'w) rcv_pc =
  RIdle | RLook "'w option" | RClaim bool | RRead nat bool | RRelease 'a bool | RWake bool
  | RLeave | RPark 'w | RRecheck | RUnlink bool

record ('a, 'w) cx =
  cx_sys :: "('a, 'w) chan_sys"
  cx_snd :: "('a, 'w) snd_pc"
  cx_rcv :: "('a, 'w) rcv_pc"
  cx_sent :: "'a list"
  cx_got :: "'a list"

text \<open>The values written to a slot and those read out of one are logged.\<close>

fun registered :: "'a chan_future \<Rightarrow> bool" where
  "registered (SendFuture _ r) = r"
| "registered (RecvFuture r) = r"
| "registered NoFuture = False"

text \<open>\<open>try_send\<close> and \<open>SendFuture::poll\<close>, access by access.\<close>

fun snd_step :: "addr \<Rightarrow> ('a, 'w) snd_pc \<Rightarrow> ('a, 'w) cx \<Rightarrow> ('a, 'w) cx option" where
  "snd_step m SIdle s = Some s"
| "snd_step m (SLook v k) s = (let c = cs_inner (cx_sys s) in
     if ch_closed c then Some (s\<lparr>cx_snd := SIdle,
       cx_sys := if k = None then cx_sys s
         else set_future m (SendFuture None (registered (cs_fut (cx_sys s) m))) (cx_sys s)\<rparr>)
     else if ch_full c then Some (s\<lparr>cx_snd := (case k of None \<Rightarrow> SIdle | Some w \<Rightarrow> SPark v w)\<rparr>)
     else Some (s\<lparr>cx_snd := SClaim v (k \<noteq> None)\<rparr>))"
| "snd_step m (SClaim v p) s = do { (i, c) \<leftarrow> send_claim (cs_inner (cx_sys s));
     Some (s\<lparr>cx_sys := (cx_sys s)\<lparr>cs_inner := c\<rparr>, cx_snd := SWrite v i p\<rparr>) }"
| "snd_step m (SWrite v i p) s =
     Some (s\<lparr>cx_sys := (cx_sys s)\<lparr>cs_inner := send_write i v (cs_inner (cx_sys s))\<rparr>,
       cx_snd := SPublish p, cx_sent := cx_sent s @ [v]\<rparr>)"
| "snd_step m (SPublish p) s =
     Some (s\<lparr>cx_sys := (cx_sys s)\<lparr>cs_inner := send_publish (cs_inner (cx_sys s))\<rparr>, cx_snd := SWake p\<rparr>)"
| "snd_step m (SWake p) s =
     Some (s\<lparr>cx_sys := wake_recv (cx_sys s), cx_snd := if p then SLeave else SIdle\<rparr>)"
| "snd_step m SLeave s = (let t = cx_sys s in
     Some (s\<lparr>cx_sys := set_future m (SendFuture None False) (if registered (cs_fut t m) then remove_send m t else t),
       cx_snd := SIdle\<rparr>))"
| "snd_step m (SPark v w) s = do {
     t \<leftarrow> SendFuture_park m w (Some v) (registered (cs_fut (cx_sys s) m)) (cx_sys s);
     Some (s\<lparr>cx_sys := t, cx_snd := SIdle\<rparr>) }"

text \<open>\<open>try_recv\<close> and \<open>RecvFuture::poll\<close>, access by access.\<close>

fun rcv_step :: "addr \<Rightarrow> ('a, 'w) rcv_pc \<Rightarrow> ('a, 'w) cx \<Rightarrow> ('a, 'w) cx option" where
  "rcv_step n RIdle s = Some s"
| "rcv_step n (RLook k) s = (let c = cs_inner (cx_sys s) in
     if 0 < ch_len c then Some (s\<lparr>cx_rcv := RClaim (k \<noteq> None)\<rparr>)
     else if ch_closed c then Some (s\<lparr>cx_rcv := if k = None then RIdle else RLeave\<rparr>)
     else Some (s\<lparr>cx_rcv := (case k of None \<Rightarrow> RIdle | Some w \<Rightarrow> RPark w)\<rparr>))"
| "rcv_step n (RClaim p) s = do { (i, c) \<leftarrow> recv_claim (cs_inner (cx_sys s));
     Some (s\<lparr>cx_sys := (cx_sys s)\<lparr>cs_inner := c\<rparr>, cx_rcv := RRead i p\<rparr>) }"
| "rcv_step n (RRead i p) s = do { (v, c) \<leftarrow> recv_read i (cs_inner (cx_sys s));
     Some (s\<lparr>cx_sys := (cx_sys s)\<lparr>cs_inner := c\<rparr>, cx_rcv := RRelease v p, cx_got := cx_got s @ [v]\<rparr>) }"
| "rcv_step n (RRelease v p) s =
     Some (s\<lparr>cx_sys := (cx_sys s)\<lparr>cs_inner := recv_release (cs_inner (cx_sys s))\<rparr>, cx_rcv := RWake p\<rparr>)"
| "rcv_step n (RWake p) s =
     Some (s\<lparr>cx_sys := wake_send (cx_sys s), cx_rcv := if p then RLeave else RIdle\<rparr>)"
| "rcv_step n RLeave s = (let t = cx_sys s in
     Some (s\<lparr>cx_sys := set_future n (RecvFuture False) (if registered (cs_fut t n) then remove_recv n t else t),
       cx_rcv := RIdle\<rparr>))"
| "rcv_step n (RPark w) s = do {
     t \<leftarrow> RecvFuture_park n w (registered (cs_fut (cx_sys s) n)) (cx_sys s);
     Some (s\<lparr>cx_sys := t, cx_rcv := RRecheck\<rparr>) }"
| "rcv_step n RRecheck s = (let c = cs_inner (cx_sys s) in
     if 0 < ch_len c then Some (s\<lparr>cx_rcv := RUnlink True\<rparr>)
     else if ch_closed c then Some (s\<lparr>cx_rcv := RUnlink False\<rparr>)
     else Some (s\<lparr>cx_rcv := RIdle\<rparr>))"
| "rcv_step n (RUnlink some) s =
     Some (s\<lparr>cx_sys := set_future n (RecvFuture False) (remove_recv n (cx_sys s)),
       cx_rcv := if some then RClaim True else RIdle\<rparr>)"

text \<open>
  The two parties start operations and go on with them in any order. An event that the sources
  rule out has no effect: a second operation of the same party, a poll where there is no future or
  after a send completed, a future created over another one.
\<close>

datatype ('a, 'w) cx_event =
  SndTry 'a | SndNew 'a | SndPoll 'w | SndDrop | SndGo
  | RcvTry | RcvNew | RcvPoll 'w | RcvDrop | RcvGo

fun snd_idle :: "('a, 'w) snd_pc \<Rightarrow> bool" where
  "snd_idle SIdle = True" | "snd_idle _ = False"

fun rcv_idle :: "('a, 'w) rcv_pc \<Rightarrow> bool" where
  "rcv_idle RIdle = True" | "rcv_idle _ = False"

definition cx_step :: "addr \<Rightarrow> addr \<Rightarrow> ('a, 'w) cx_event \<Rightarrow> ('a, 'w) cx \<Rightarrow> ('a, 'w) cx option" where
  "cx_step m n e s = (let t = cx_sys s in case e of
     SndTry v \<Rightarrow> Some (if snd_idle (cx_snd s) then s\<lparr>cx_snd := SLook v None\<rparr> else s)
   | SndNew v \<Rightarrow> Some (if snd_idle (cx_snd s) \<and> cs_fut t m = NoFuture then s\<lparr>cx_sys := Channel_send m v t\<rparr> else s)
   | SndPoll w \<Rightarrow> Some (case cs_fut t m of
       SendFuture (Some v) _ \<Rightarrow> if snd_idle (cx_snd s) then s\<lparr>cx_snd := SLook v (Some w)\<rparr> else s
     | _ \<Rightarrow> s)
   | SndDrop \<Rightarrow> Some (if snd_idle (cx_snd s) then s\<lparr>cx_sys := Future_drop m t\<rparr> else s)
   | SndGo \<Rightarrow> snd_step m (cx_snd s) s
   | RcvTry \<Rightarrow> Some (if rcv_idle (cx_rcv s) then s\<lparr>cx_rcv := RLook None\<rparr> else s)
   | RcvNew \<Rightarrow> Some (if rcv_idle (cx_rcv s) \<and> cs_fut t n = NoFuture then s\<lparr>cx_sys := Channel_recv n t\<rparr> else s)
   | RcvPoll w \<Rightarrow> Some (case cs_fut t n of
       RecvFuture _ \<Rightarrow> if rcv_idle (cx_rcv s) then s\<lparr>cx_rcv := RLook (Some w)\<rparr> else s
     | _ \<Rightarrow> s)
   | RcvDrop \<Rightarrow> Some (if rcv_idle (cx_rcv s) then s\<lparr>cx_sys := Future_drop n t\<rparr> else s)
   | RcvGo \<Rightarrow> rcv_step n (cx_rcv s) s)"

abbreviation cx_run :: "addr \<Rightarrow> addr \<Rightarrow> ('a, 'w) cx_event list \<Rightarrow> ('a, 'w) cx \<Rightarrow> ('a, 'w) cx option" where
  "cx_run m n \<equiv> event_run (cx_step m n)"

definition cx_init :: "'a channel_inner \<Rightarrow> ('a, 'w) cx" where
  "cx_init c = \<lparr>cx_sys = chan_init c, cx_snd = SIdle, cx_rcv = RIdle, cx_sent = [], cx_got = []\<rparr>"

section \<open>The slots\<close>

text \<open>
  How far a claim, a value and a release are ahead of the counters, and what a party knows about
  the length: the producer, that there is room, until it publishes; the receiver, that there is
  something, until it releases.
\<close>

fun s_claimed :: "('a, 'w) snd_pc \<Rightarrow> nat" where
  "s_claimed (SWrite v i p) = 1" | "s_claimed _ = 0"

fun s_unpublished :: "('a, 'w) snd_pc \<Rightarrow> nat" where
  "s_unpublished (SPublish p) = 1" | "s_unpublished _ = 0"

fun s_room :: "('a, 'w) snd_pc \<Rightarrow> bool" where
  "s_room (SClaim v p) = True" | "s_room (SWrite v i p) = True" | "s_room (SPublish p) = True"
| "s_room _ = False"

fun s_slot :: "('a, 'w) snd_pc \<Rightarrow> nat option" where
  "s_slot (SWrite v i p) = Some i" | "s_slot _ = None"

fun r_claimed :: "('a, 'w) rcv_pc \<Rightarrow> nat" where
  "r_claimed (RRead i p) = 1" | "r_claimed _ = 0"

fun r_unreleased :: "('a, 'w) rcv_pc \<Rightarrow> nat" where
  "r_unreleased (RRelease v p) = 1" | "r_unreleased _ = 0"

fun r_some :: "('a, 'w) rcv_pc \<Rightarrow> bool" where
  "r_some (RClaim p) = True" | "r_some (RRead i p) = True" | "r_some (RRelease v p) = True"
| "r_some (RUnlink b) = b" | "r_some _ = False"

fun r_slot :: "('a, 'w) rcv_pc \<Rightarrow> nat option" where
  "r_slot (RRead i p) = Some i" | "r_slot _ = None"

definition slots_hold ::
  "'a channel_inner \<Rightarrow> ('a, 'w) snd_pc \<Rightarrow> ('a, 'w) rcv_pc \<Rightarrow> 'a list \<Rightarrow> nat \<Rightarrow> bool" where
  "slots_hold c p r sent got \<longleftrightarrow> 0 < ch_capacity c \<and> ch_capacity c < 2 ^ 64 \<and> \<not> ch_closed c
     \<and> length (ch_data c) = ch_capacity c
     \<and> ch_send_pos c = length sent + s_claimed p \<and> ch_recv_pos c = got + r_claimed r
     \<and> ch_len c + got + s_unpublished p = length sent + r_unreleased r
     \<and> ch_len c \<le> ch_capacity c \<and> (s_room p \<longrightarrow> ch_len c < ch_capacity c) \<and> (r_some r \<longrightarrow> 0 < ch_len c)
     \<and> s_slot p \<in> {None, Some (length sent mod ch_capacity c)}
     \<and> r_slot r \<in> {None, Some (got mod ch_capacity c)}
     \<and> (\<forall>k < length sent. got \<le> k \<longrightarrow> ch_data c ! (k mod ch_capacity c) = Some (sent ! k))"

lemma slots_holdD:
  assumes "slots_hold c p r sent got"
  shows "0 < ch_capacity c" "ch_capacity c < 2 ^ 64" "\<not> ch_closed c" "length (ch_data c) = ch_capacity c"
    "ch_send_pos c = length sent + s_claimed p" "ch_recv_pos c = got + r_claimed r"
    "ch_len c + got + s_unpublished p = length sent + r_unreleased r" "ch_len c \<le> ch_capacity c"
    "s_room p \<Longrightarrow> ch_len c < ch_capacity c" "r_some r \<Longrightarrow> 0 < ch_len c"
    "s_slot p = Some i \<Longrightarrow> i = length sent mod ch_capacity c"
    "r_slot r = Some j \<Longrightarrow> j = got mod ch_capacity c"
    "k < length sent \<Longrightarrow> got \<le> k \<Longrightarrow> ch_data c ! (k mod ch_capacity c) = Some (sent ! k)"
  using assms unfolding slots_hold_def by auto

lemma slots_hold_queues [simp]:
  "slots_hold (c\<lparr>ch_send_waiters := q\<rparr>) p r sent got = slots_hold c p r sent got"
  "slots_hold (c\<lparr>ch_recv_waiters := q\<rparr>) p r sent got = slots_hold c p r sent got"
  by (simp_all add: slots_hold_def)

text \<open>A party that only moves on keeps the slots, if it knows what the next point asks for.\<close>

lemma slots_hold_snd:
  assumes "slots_hold c p r sent got" "s_claimed p' = s_claimed p" "s_unpublished p' = s_unpublished p"
    "s_slot p' = s_slot p" "s_room p' \<Longrightarrow> ch_len c < ch_capacity c"
  shows "slots_hold c p' r sent got"
  using assms unfolding slots_hold_def by simp

lemma slots_hold_rcv:
  assumes "slots_hold c p r sent got" "r_claimed r' = r_claimed r" "r_unreleased r' = r_unreleased r"
    "r_slot r' = r_slot r" "r_some r' \<Longrightarrow> 0 < ch_len c"
  shows "slots_hold c p r' sent got"
  using assms unfolding slots_hold_def by simp

text \<open>The producer's three changes of the slots.\<close>

lemma claim_holds:
  assumes "slots_hold c (SClaim v b) r sent got" "length sent + 1 < 2 ^ 64"
  shows "\<exists>i c'. send_claim c = Some (i, c') \<and> c' = c\<lparr>ch_send_pos := ch_send_pos c'\<rparr>
    \<and> slots_hold c' (SWrite v i b) r sent got"
proof -
  note D = slots_holdD [OF assms(1)]
  have "wrap_add (ch_send_pos c) = Suc (ch_send_pos c)" using D(5) assms(2) by (simp add: wrap_small(1))
  with D assms(1) show ?thesis by (simp add: send_claim_def slots_hold_def)
qed

lemma write_holds:
  assumes "slots_hold c (SWrite v i b) r sent got"
  shows "slots_hold (send_write i v c) (SPublish b) r (sent @ [v]) got"
proof -
  note D = slots_holdD [OF assms]
  have i: "i = length sent mod ch_capacity c" using D(11) by simp
  have new: "ch_data (send_write i v c) ! (k mod ch_capacity c) = Some ((sent @ [v]) ! k)"
    if k: "k < length (sent @ [v])" "got \<le> k" for k
  proof (cases "k = length sent")
    case True
    then show ?thesis using D(1,4) i by (simp add: send_write_def)
  next
    case False
    have "length sent < k + ch_capacity c"
      using k(2) D(7) D(9) by simp
    then have "k mod ch_capacity c \<noteq> i"
      unfolding i using False k(1) by (intro mod_neq_window) auto
    then show ?thesis using D(13) [of k] k False by (simp add: send_write_def nth_append)
  qed
  show ?thesis using assms new by (simp add: slots_hold_def send_write_def)
qed

lemma publish_holds:
  assumes "slots_hold c (SPublish b) r sent got"
  shows "slots_hold (send_publish c) (SWake b) r sent got" "ch_len (send_publish c) = Suc (ch_len c)"
proof -
  note D = slots_holdD [OF assms]
  have "wrap_add (ch_len c) = Suc (ch_len c)" using D(2,9) by (simp add: wrap_small(1))
  with assms show "slots_hold (send_publish c) (SWake b) r sent got" "ch_len (send_publish c) = Suc (ch_len c)"
    by (simp_all add: slots_hold_def send_publish_def)
qed

text \<open>The receiver's three changes.\<close>

lemma recv_claim_holds:
  assumes "slots_hold c p (RClaim b) sent got" "length sent + 1 < 2 ^ 64"
  shows "\<exists>i c'. recv_claim c = Some (i, c') \<and> c' = c\<lparr>ch_recv_pos := ch_recv_pos c'\<rparr>
    \<and> slots_hold c' p (RRead i b) sent got"
proof -
  note D = slots_holdD [OF assms(1)]
  have "got \<le> length sent" using D(7) by simp
  then have "wrap_add (ch_recv_pos c) = Suc (ch_recv_pos c)" using D(6) assms(2) by (simp add: wrap_small(1))
  with D(1) assms(1) show ?thesis by (simp add: recv_claim_def slots_hold_def)
qed

lemma read_holds:
  assumes "slots_hold c p (RRead i b) sent got"
  shows "\<exists>c'. recv_read i c = Some (sent ! got, c')
    \<and> c' = c\<lparr>ch_data := ch_data c', ch_occupied := ch_occupied c'\<rparr>
    \<and> slots_hold c' p (RRelease (sent ! got) b) sent (Suc got) \<and> got < length sent"
proof -
  note D = slots_holdD [OF assms]
  have i: "i = got mod ch_capacity c" using D(12) by simp
  have got: "got < length sent" using D(7) D(10) by simp
  let ?c = "c\<lparr>ch_data := (ch_data c)[i := None], ch_occupied := (ch_occupied c)[i := False]\<rparr>"
  have read: "recv_read i c = Some (sent ! got, ?c)"
    using D(1,4) i D(13) [of got] got by (simp add: recv_read_def)
  have "ch_data ?c ! (k mod ch_capacity c) = Some (sent ! k)" if k: "k < length sent" "Suc got \<le> k" for k
  proof -
    have "length sent \<le> got + ch_capacity c"
      using D(7,8) D(9) by (cases p) auto
    then have "k mod ch_capacity c \<noteq> i"
      unfolding i using k by (intro mod_neq_window) auto
    then show ?thesis using D(13) [of k] k by simp
  qed
  then have "slots_hold ?c p (RRelease (sent ! got) b) sent (Suc got)"
    using assms by (simp add: slots_hold_def)
  with read got show ?thesis by simp
qed

lemma release_holds:
  assumes "slots_hold c p (RRelease v b) sent got"
  shows "slots_hold (recv_release c) p (RWake b) sent got" "ch_len (recv_release c) = ch_len c - 1"
proof -
  note D = slots_holdD [OF assms]
  have len: "0 < ch_len c" using D(10) by simp
  then have "wrap_sub (ch_len c) = ch_len c - 1" using D(2,8) by (simp add: wrap_small(2))
  with assms len show "slots_hold (recv_release c) p (RWake b) sent got" "ch_len (recv_release c) = ch_len c - 1"
    by (auto simp: slots_hold_def recv_release_def)
qed

text \<open>The two never work on the same slot.\<close>

lemma slots_apart:
  assumes "slots_hold c p r sent got" "s_slot p = Some i" "r_slot r = Some j"
  shows "i \<noteq> j"
proof -
  note D = slots_holdD [OF assms(1)]
  have p: "s_room p" "s_unpublished p = 0" using assms(2) by (cases p; simp)+
  have r: "r_some r" "r_unreleased r = 0" using assms(3) by (cases r; simp)+
  have "got < length sent" "length sent < got + ch_capacity c"
    using D(7) D(9) [OF p(1)] D(10) [OF r(1)] p(2) r(2) by auto
  then show ?thesis
    using D(11) [OF assms(2)] D(12) [OF assms(3)] mod_neq_window [of "length sent" got] by auto
qed

section \<open>The waiters\<close>

text \<open>
  Each queue has at most the node of its party, and a queued party knows that it is registered. A
  queued receiver has an empty channel before it, unless \<open>b\<close>: the producer is about to wake it or
  it has yet to look again itself.
\<close>

definition cx_waiters :: "addr \<Rightarrow> addr \<Rightarrow> ('a, 'w) chan_sys \<Rightarrow> bool \<Rightarrow> bool" where
  "cx_waiters m n t b \<longleftrightarrow> (\<exists>xs ys.
     two_queues (cs_heap t) (ch_send_waiters (cs_inner t)) (ch_recv_waiters (cs_inner t)) xs ys
     \<and> set xs \<subseteq> {m} \<and> set ys \<subseteq> {n} \<and> (xs \<noteq> [] \<longrightarrow> (\<exists>v. cs_fut t m = SendFuture (Some v) True))
     \<and> (ys \<noteq> [] \<longrightarrow> cs_fut t n = RecvFuture True \<and> (ch_len (cs_inner t) = 0 \<or> b)))
   \<and> (\<forall>r. cs_fut t m \<noteq> RecvFuture r) \<and> (\<forall>v r. cs_fut t n \<noteq> SendFuture v r)"

lemma cx_waitersE:
  assumes "cx_waiters m n t b"
  obtains xs ys where
    "two_queues (cs_heap t) (ch_send_waiters (cs_inner t)) (ch_recv_waiters (cs_inner t)) xs ys"
    "xs = [] \<or> xs = [m] \<and> (\<exists>v. cs_fut t m = SendFuture (Some v) True)"
    "ys = [] \<or> ys = [n] \<and> cs_fut t n = RecvFuture True \<and> (ch_len (cs_inner t) = 0 \<or> b)"
    "\<forall>r. cs_fut t m \<noteq> RecvFuture r" "\<forall>v r. cs_fut t n \<noteq> SendFuture v r"
proof -
  have one: "zs = [] \<or> zs = [x]" if "distinct zs" "set zs \<subseteq> {x}" for zs and x :: addr
    using that by (cases zs; cases "tl zs") auto
  from assms obtain xs ys where *:
    "two_queues (cs_heap t) (ch_send_waiters (cs_inner t)) (ch_recv_waiters (cs_inner t)) xs ys"
    "set xs \<subseteq> {m}" "set ys \<subseteq> {n}" "xs \<noteq> [] \<longrightarrow> (\<exists>v. cs_fut t m = SendFuture (Some v) True)"
    "ys \<noteq> [] \<longrightarrow> cs_fut t n = RecvFuture True \<and> (ch_len (cs_inner t) = 0 \<or> b)"
    "\<forall>r. cs_fut t m \<noteq> RecvFuture r" "\<forall>v r. cs_fut t n \<noteq> SendFuture v r"
    unfolding cx_waiters_def by blast
  from that [OF *(1)] one [of xs m] one [of ys n] two_queues_distinct [OF *(1)] * show thesis by blast
qed

lemma cx_waitersI:
  assumes "two_queues (cs_heap t) (ch_send_waiters (cs_inner t)) (ch_recv_waiters (cs_inner t)) xs ys"
    "xs = [] \<or> xs = [m] \<and> (\<exists>v. cs_fut t m = SendFuture (Some v) True)"
    "ys = [] \<or> ys = [n] \<and> cs_fut t n = RecvFuture True \<and> (ch_len (cs_inner t) = 0 \<or> b)"
    "\<And>r. cs_fut t m \<noteq> RecvFuture r" "\<And>v r. cs_fut t n \<noteq> SendFuture v r"
  shows "cx_waiters m n t b"
  unfolding cx_waiters_def using assms by (intro conjI exI [of _ xs] exI [of _ ys]) auto

definition same_slots :: "('a, 'w) chan_sys \<Rightarrow> ('a, 'w) chan_sys \<Rightarrow> bool" where
  "same_slots t t' \<longleftrightarrow> cs_inner t' = (cs_inner t)\<lparr>ch_send_waiters := ch_send_waiters (cs_inner t'),
     ch_recv_waiters := ch_recv_waiters (cs_inner t')\<rparr>"

lemma same_slots_hold: "same_slots t t' \<Longrightarrow> slots_hold (cs_inner t') p r sent got = slots_hold (cs_inner t) p r sent got"
  unfolding same_slots_def by (metis slots_hold_queues)

lemma same_slots_capacity: "same_slots t t' \<Longrightarrow> ch_capacity (cs_inner t') = ch_capacity (cs_inner t)"
  unfolding same_slots_def by (metis channel_inner.select_convs(3) channel_inner.surjective channel_inner.update_convs(4,5))

lemma same_slots_ops [simp]:
  "same_slots t t" "same_slots t (wake_recv t)" "same_slots t (wake_send t)"
  "same_slots t (set_future a f t)" "same_slots t (set_node_waker a w t)"
  "same_slots t (set_future a f (remove_send a t))" "same_slots t (set_future a f (remove_recv a t))"
  "same_slots t (t\<lparr>cs_heap := h\<rparr>)"
  by (simp_all add: same_slots_def wake_recv_def wake_send_def remove_send_def remove_recv_def
      set_future_def set_node_waker_def split: prod.splits)

lemma cx_waiters_inner:
  assumes "cx_waiters m n t b" "ch_send_waiters c = ch_send_waiters (cs_inner t)"
    "ch_recv_waiters c = ch_recv_waiters (cs_inner t)" "ch_len (cs_inner t) = 0 \<or> b \<Longrightarrow> ch_len c = 0 \<or> b'"
  shows "cx_waiters m n (t\<lparr>cs_inner := c\<rparr>) b'"
  using assms(1) by (rule cx_waitersE) (rule cx_waitersI; use assms(2-) in auto)

lemma cx_waiters_mono: "cx_waiters m n t b \<Longrightarrow> (b \<Longrightarrow> b' \<or> ch_len (cs_inner t) = 0) \<Longrightarrow> cx_waiters m n t b'"
  using cx_waiters_inner [of m n t b "cs_inner t" b'] by auto

lemma cx_waiters_wake:
  assumes "cx_waiters m n t b"
  shows "cx_waiters m n (wake_recv t) b'" "cx_waiters m n (wake_send t) b"
proof -
  obtain xs ys where *:
    "two_queues (cs_heap t) (ch_send_waiters (cs_inner t)) (ch_recv_waiters (cs_inner t)) xs ys"
    "xs = [] \<or> xs = [m] \<and> (\<exists>v. cs_fut t m = SendFuture (Some v) True)"
    "ys = [] \<or> ys = [n] \<and> cs_fut t n = RecvFuture True \<and> (ch_len (cs_inner t) = 0 \<or> b)"
    "\<forall>r. cs_fut t m \<noteq> RecvFuture r" "\<forall>v r. cs_fut t n \<noteq> SendFuture v r" by (rule cx_waitersE [OF assms(1)])
  from two_queues_wake [OF two_queues_sym [OF *(1)]] obtain h q e where
    w: "WaitQueue_wake_one (cs_heap t, ch_recv_waiters (cs_inner t)) = (e, h, q)"
    "two_queues h q (ch_send_waiters (cs_inner t)) (tl ys) xs" by blast
  show "cx_waiters m n (wake_recv t) b'"
    by (rule cx_waitersI [of _ xs "tl ys"])
      (use w * in \<open>auto simp: wake_recv_def dest: two_queues_sym split: prod.splits\<close>)
  from two_queues_wake [OF *(1)] obtain h' q' e' where
    w': "WaitQueue_wake_one (cs_heap t, ch_send_waiters (cs_inner t)) = (e', h', q')"
    "two_queues h' q' (ch_recv_waiters (cs_inner t)) (tl xs) ys" by blast
  show "cx_waiters m n (wake_send t) b"
    by (rule cx_waitersI [of _ "tl xs" ys])
      (use w' * in \<open>auto simp: wake_send_def split: prod.splits\<close>)
qed

text \<open>A party leaves its queue, or finds that it is not in it.\<close>

lemma cx_waiters_leave:
  assumes "cx_waiters m n t b" "m \<noteq> n"
  shows "\<forall>r. f \<noteq> RecvFuture r \<Longrightarrow> cx_waiters m n (set_future m f (remove_send m t)) b"
    and "\<forall>v r. f \<noteq> SendFuture v r \<Longrightarrow> cx_waiters m n (set_future n f (remove_recv n t)) b'"
    and "\<forall>r. f \<noteq> RecvFuture r \<Longrightarrow> \<not> registered (cs_fut t m) \<Longrightarrow> cx_waiters m n (set_future m f t) b"
    and "\<forall>v r. f \<noteq> SendFuture v r \<Longrightarrow> \<not> registered (cs_fut t n) \<Longrightarrow> cx_waiters m n (set_future n f t) b'"
proof -
  obtain xs ys where *:
    "two_queues (cs_heap t) (ch_send_waiters (cs_inner t)) (ch_recv_waiters (cs_inner t)) xs ys"
    "xs = [] \<or> xs = [m] \<and> (\<exists>v. cs_fut t m = SendFuture (Some v) True)"
    "ys = [] \<or> ys = [n] \<and> cs_fut t n = RecvFuture True \<and> (ch_len (cs_inner t) = 0 \<or> b)"
    "\<forall>r. cs_fut t m \<noteq> RecvFuture r" "\<forall>v r. cs_fut t n \<noteq> SendFuture v r" by (rule cx_waitersE [OF assms(1)])
  have "m \<notin> set ys" "n \<notin> set xs" using *(2,3) assms(2) by auto
  from two_queues_remove [OF *(1) this(1)] obtain h q where
    l: "WaitQueue_remove m (cs_heap t, ch_send_waiters (cs_inner t)) = (h, q)"
    "two_queues h q (ch_recv_waiters (cs_inner t)) (remove1 m xs) ys" by blast
  from two_queues_remove [OF two_queues_sym [OF *(1)] \<open>n \<notin> set xs\<close>] obtain h' q' where
    l': "WaitQueue_remove n (cs_heap t, ch_recv_waiters (cs_inner t)) = (h', q')"
    "two_queues h' q' (ch_send_waiters (cs_inner t)) (remove1 n ys) xs" by blast
  show "cx_waiters m n (set_future m f (remove_send m t)) b" if "\<forall>r. f \<noteq> RecvFuture r"
    by (rule cx_waitersI [of _ "remove1 m xs" ys])
      (use l * assms(2) that in \<open>auto simp: remove_send_def set_future_def\<close>)
  show "cx_waiters m n (set_future n f (remove_recv n t)) b'" if "\<forall>v r. f \<noteq> SendFuture v r"
    by (rule cx_waitersI [of _ xs "remove1 n ys"])
      (use l' * assms(2) that in \<open>auto simp: remove_recv_def set_future_def dest: two_queues_sym\<close>)
  show "cx_waiters m n (set_future m f t) b" if "\<forall>r. f \<noteq> RecvFuture r" "\<not> registered (cs_fut t m)"
    by (rule cx_waitersI [of _ xs ys]) (use * assms(2) that in \<open>auto simp: set_future_def\<close>)
  show "cx_waiters m n (set_future n f t) b'" if "\<forall>v r. f \<noteq> SendFuture v r" "\<not> registered (cs_fut t n)"
    by (rule cx_waitersI [of _ xs ys]) (use * assms(2) that in \<open>auto simp: set_future_def\<close>)
qed

text \<open>A party parks: it changes its waker, or is put into the empty queue.\<close>

lemma cx_waiters_park:
  assumes "cx_waiters m n t b" "m \<noteq> n"
  shows "\<exists>t'. SendFuture_park m w (Some v) (registered (cs_fut t m)) t = Some t'
      \<and> same_slots t t' \<and> cx_waiters m n t' b"
    and "\<exists>t'. RecvFuture_park n w (registered (cs_fut t n)) t = Some t'
      \<and> same_slots t t' \<and> cx_waiters m n t' True"
proof -
  obtain xs ys where *:
    "two_queues (cs_heap t) (ch_send_waiters (cs_inner t)) (ch_recv_waiters (cs_inner t)) xs ys"
    "xs = [] \<or> xs = [m] \<and> (\<exists>v. cs_fut t m = SendFuture (Some v) True)"
    "ys = [] \<or> ys = [n] \<and> cs_fut t n = RecvFuture True \<and> (ch_len (cs_inner t) = 0 \<or> b)"
    "\<forall>r. cs_fut t m \<noteq> RecvFuture r" "\<forall>v r. cs_fut t n \<noteq> SendFuture v r" by (rule cx_waitersE [OF assms(1)])
  note q = two_queues_set_waker [OF *(1)]
  have waker: "cx_waiters m n (set_node_waker a w t) b" for a
    by (rule cx_waitersI [of _ xs ys]) (use q * in \<open>auto simp: set_node_waker_def\<close>)
  have some: "wn_waker (put_node a (WaitNode_set_waker w) (cs_heap t) a) \<noteq> None" for a by (simp add: put_node_def WaitNode_set_waker_def)
  show "\<exists>t'. SendFuture_park m w (Some v) (registered (cs_fut t m)) t = Some t'
      \<and> same_slots t t' \<and> cx_waiters m n t' b"
  proof (cases "registered (cs_fut t m)")
    case False
    then have xs: "xs = []" "m \<notin> set xs \<union> set ys" using * assms(2) by auto
    from two_queues_enqueue [OF q [of m w] xs(2) some] obtain h p where
      e: "WaitQueue_enqueue m (put_node m (WaitNode_set_waker w) (cs_heap t), ch_send_waiters (cs_inner t)) = Some (h, p)"
      "two_queues h p (ch_recv_waiters (cs_inner t)) (xs @ [m]) ys" by blast
    let ?t = "set_future m (SendFuture (Some v) True)
      (t\<lparr>cs_heap := h, cs_inner := (cs_inner t)\<lparr>ch_send_waiters := p\<rparr>\<rparr>)"
    have "SendFuture_park m w (Some v) False t = Some ?t"
      using e(1) by (simp add: SendFuture_park_def enqueue_send_def set_node_waker_def)
    moreover have "cx_waiters m n ?t b"
      by (rule cx_waitersI [of _ "[m]" ys]) (use e(2) * xs assms(2) in \<open>auto simp: set_future_def\<close>)
    ultimately show ?thesis using False by (auto simp: same_slots_def)
  qed (use waker [of m] in \<open>simp add: SendFuture_park_def\<close>)
  show "\<exists>t'. RecvFuture_park n w (registered (cs_fut t n)) t = Some t'
      \<and> same_slots t t' \<and> cx_waiters m n t' True"
  proof (cases "registered (cs_fut t n)")
    case False
    then have ys: "ys = []" "n \<notin> set ys \<union> set xs" using * assms(2) by auto
    from two_queues_enqueue [OF two_queues_sym [OF q [of n w]] ys(2) some] obtain h p where
      e: "WaitQueue_enqueue n (put_node n (WaitNode_set_waker w) (cs_heap t), ch_recv_waiters (cs_inner t)) = Some (h, p)"
      "two_queues h p (ch_send_waiters (cs_inner t)) (ys @ [n]) xs" by blast
    let ?t = "set_future n (RecvFuture True)
      (t\<lparr>cs_heap := h, cs_inner := (cs_inner t)\<lparr>ch_recv_waiters := p\<rparr>\<rparr>)"
    have "RecvFuture_park n w False t = Some ?t"
      using e(1) by (simp add: RecvFuture_park_def enqueue_recv_def set_node_waker_def)
    moreover have "cx_waiters m n ?t True"
      by (rule cx_waitersI [of _ xs "[n]"])
        (use e(2) * ys assms(2) in \<open>auto simp: set_future_def dest: two_queues_sym\<close>)
    ultimately show ?thesis using False by (auto simp: same_slots_def)
  qed (use cx_waiters_mono [OF waker, of True n] in \<open>simp add: RecvFuture_park_def\<close>)
qed

text \<open>New futures, and dropped ones.\<close>

lemma cx_waiters_new:
  assumes "cx_waiters m n t b" "m \<noteq> n"
  shows "cs_fut t m = NoFuture \<Longrightarrow> cx_waiters m n (Channel_send m v t) b"
    and "cs_fut t n = NoFuture \<Longrightarrow> cx_waiters m n (Channel_recv n t) b"
proof -
  obtain xs ys where *:
    "two_queues (cs_heap t) (ch_send_waiters (cs_inner t)) (ch_recv_waiters (cs_inner t)) xs ys"
    "xs = [] \<or> xs = [m] \<and> (\<exists>v. cs_fut t m = SendFuture (Some v) True)"
    "ys = [] \<or> ys = [n] \<and> cs_fut t n = RecvFuture True \<and> (ch_len (cs_inner t) = 0 \<or> b)"
    "\<forall>r. cs_fut t m \<noteq> RecvFuture r" "\<forall>v r. cs_fut t n \<noteq> SendFuture v r" by (rule cx_waitersE [OF assms(1)])
  show "cx_waiters m n (Channel_send m v t) b" if "cs_fut t m = NoFuture"
  proof -
    have "m \<notin> set xs \<union> set ys" using * assms(2) that by auto
    note q = two_queues_new_node [OF *(1) this]
    show ?thesis
      by (rule cx_waitersI [of _ xs ys])
        (use q * that assms(2) in \<open>auto simp: Channel_send_def set_future_def\<close>)
  qed
  show "cx_waiters m n (Channel_recv n t) b" if "cs_fut t n = NoFuture"
  proof -
    have "n \<notin> set xs \<union> set ys" using * assms(2) that by auto
    note q = two_queues_new_node [OF *(1) this]
    show ?thesis
      by (rule cx_waitersI [of _ xs ys])
        (use q * that assms(2) in \<open>auto simp: Channel_recv_def set_future_def\<close>)
  qed
qed

lemma cx_waiters_drop:
  assumes "cx_waiters m n t b" "m \<noteq> n"
  shows "cx_waiters m n (Future_drop m t) b" "cx_waiters m n (Future_drop n t) b"
    "same_slots t (Future_drop m t)" "same_slots t (Future_drop n t)"
proof -
  have f: "\<forall>r. cs_fut t m \<noteq> RecvFuture r" "\<forall>v r. cs_fut t n \<noteq> SendFuture v r"
    using assms(1) by (simp_all add: cx_waiters_def)
  note leave = cx_waiters_leave [OF assms, where f = NoFuture]
  have drop: "Future_drop m t = set_future m NoFuture (if registered (cs_fut t m) then remove_send m t else t)"
    "Future_drop n t = set_future n NoFuture (if registered (cs_fut t n) then remove_recv n t else t)"
    using f by (auto simp: Future_drop_def SendFuture_drop_def RecvFuture_drop_def split: chan_future.splits)
  show "cx_waiters m n (Future_drop m t) b" "cx_waiters m n (Future_drop n t) b"
    "same_slots t (Future_drop m t)" "same_slots t (Future_drop n t)"
    unfolding drop using leave by simp_all
qed

section \<open>Every interleaving\<close>

fun waking :: "('a, 'w) snd_pc \<Rightarrow> bool" where
  "waking (SWake p) = True" | "waking _ = False"

fun rechecking :: "('a, 'w) rcv_pc \<Rightarrow> bool" where
  "rechecking RRecheck = True" | "rechecking (RUnlink b) = True" | "rechecking _ = False"

definition cx_inv :: "addr \<Rightarrow> addr \<Rightarrow> ('a, 'w) cx \<Rightarrow> bool" where
  "cx_inv m n s \<longleftrightarrow>
     slots_hold (cs_inner (cx_sys s)) (cx_snd s) (cx_rcv s) (cx_sent s) (length (cx_got s))
     \<and> take (length (cx_got s)) (cx_sent s) = cx_got s
     \<and> cx_waiters m n (cx_sys s) (waking (cx_snd s) \<or> rechecking (cx_rcv s))"

lemma cx_invD:
  assumes "cx_inv m n s"
  shows "slots_hold (cs_inner (cx_sys s)) (cx_snd s) (cx_rcv s) (cx_sent s) (length (cx_got s))"
    "take (length (cx_got s)) (cx_sent s) = cx_got s"
    "cx_waiters m n (cx_sys s) (waking (cx_snd s) \<or> rechecking (cx_rcv s))"
  using assms unfolding cx_inv_def by blast+

text \<open>A step of the producer that leaves the slots alone.\<close>

lemma snd_moves:
  assumes "cx_inv m n s" "same_slots (cx_sys s) t" "s_claimed p = s_claimed (cx_snd s)"
    "s_unpublished p = s_unpublished (cx_snd s)" "s_slot p = s_slot (cx_snd s)"
    "s_room p \<Longrightarrow> ch_len (cs_inner (cx_sys s)) < ch_capacity (cs_inner (cx_sys s))"
    "cx_waiters m n t (waking p \<or> rechecking (cx_rcv s))"
  shows "cx_inv m n (s\<lparr>cx_sys := t, cx_snd := p\<rparr>)"
  using cx_invD [OF assms(1)] slots_hold_snd [OF cx_invD(1) [OF assms(1)] assms(3-6)] assms(2,7)
  by (simp add: cx_inv_def same_slots_hold)

lemma rcv_moves:
  assumes "cx_inv m n s" "same_slots (cx_sys s) t" "r_claimed r = r_claimed (cx_rcv s)"
    "r_unreleased r = r_unreleased (cx_rcv s)" "r_slot r = r_slot (cx_rcv s)"
    "r_some r \<Longrightarrow> 0 < ch_len (cs_inner (cx_sys s))"
    "cx_waiters m n t (waking (cx_snd s) \<or> rechecking r)"
  shows "cx_inv m n (s\<lparr>cx_sys := t, cx_rcv := r\<rparr>)"
  using cx_invD [OF assms(1)] slots_hold_rcv [OF cx_invD(1) [OF assms(1)] assms(3-6)] assms(2,7)
  by (simp add: cx_inv_def same_slots_hold)

lemma snd_pc_moves:
  assumes "cx_inv m n s" "s_claimed p = s_claimed (cx_snd s)" "s_unpublished p = s_unpublished (cx_snd s)"
    "s_slot p = s_slot (cx_snd s)" "waking p = waking (cx_snd s)"
    "s_room p \<Longrightarrow> ch_len (cs_inner (cx_sys s)) < ch_capacity (cs_inner (cx_sys s))"
  shows "cx_inv m n (s\<lparr>cx_snd := p\<rparr>)"
  using snd_moves [OF assms(1) same_slots_ops(1) assms(2-4,6)] cx_invD(3) [OF assms(1)] assms(5) by simp

lemma rcv_pc_moves:
  assumes "cx_inv m n s" "r_claimed r = r_claimed (cx_rcv s)" "r_unreleased r = r_unreleased (cx_rcv s)"
    "r_slot r = r_slot (cx_rcv s)" "r_some r \<Longrightarrow> 0 < ch_len (cs_inner (cx_sys s))"
    "rechecking (cx_rcv s) \<Longrightarrow> rechecking r \<or> ch_len (cs_inner (cx_sys s)) = 0"
  shows "cx_inv m n (s\<lparr>cx_rcv := r\<rparr>)"
proof -
  have "cx_waiters m n (cx_sys s) (waking (cx_snd s) \<or> rechecking r)"
    by (rule cx_waiters_mono [OF cx_invD(3) [OF assms(1)]]) (use assms(6) in auto)
  from rcv_moves [OF assms(1) same_slots_ops(1) assms(2-5) this] show ?thesis by simp
qed

text \<open>The steps of the producer.\<close>

abbreviation rcv_good :: "addr \<Rightarrow> addr \<Rightarrow> ('a, 'w) cx \<Rightarrow> ('a, 'w) cx option \<Rightarrow> bool" where
  "rcv_good m n s f \<equiv> \<exists>s'. f = Some s' \<and> cx_inv m n s' \<and> cx_sent s' = cx_sent s
     \<and> ch_capacity (cs_inner (cx_sys s')) = ch_capacity (cs_inner (cx_sys s))"

abbreviation snd_good :: "addr \<Rightarrow> addr \<Rightarrow> ('a, 'w) cx \<Rightarrow> ('a, 'w) cx option \<Rightarrow> bool" where
  "snd_good m n s f \<equiv> \<exists>s'. f = Some s' \<and> cx_inv m n s' \<and> length (cx_sent s') \<le> length (cx_sent s) + 1
     \<and> ch_capacity (cs_inner (cx_sys s')) = ch_capacity (cs_inner (cx_sys s))"

lemma snd_claim_inv:
  assumes inv: "cx_inv m n s" and mn: "m \<noteq> n" and bound: "length (cx_sent s) + 1 < 2 ^ 64" and pc: "cx_snd s = SClaim v b"
  shows "snd_good m n s (snd_step m (SClaim v b) s)"
proof -
  note I = cx_invD [OF inv] and D = slots_holdD [OF cx_invD(1) [OF inv]]
  from claim_holds [OF I(1) [unfolded pc] bound] obtain i c' where
    c: "send_claim (cs_inner (cx_sys s)) = Some (i, c')" "c' = (cs_inner (cx_sys s))\<lparr>ch_send_pos := ch_send_pos c'\<rparr>"
    "slots_hold c' (SWrite v i b) (cx_rcv s) (cx_sent s) (length (cx_got s))" by blast
  have "cx_waiters m n ((cx_sys s)\<lparr>cs_inner := c'\<rparr>) (rechecking (cx_rcv s))"
    by (rule cx_waiters_inner [OF I(3)]; subst c(2)) (simp_all add: pc)
  moreover have "ch_capacity c' = ch_capacity (cs_inner (cx_sys s))" by (subst c(2)) simp
  ultimately show ?thesis using c(1,3) I(2) pc by (simp add: cx_inv_def)
qed

lemma snd_write_inv:
  assumes inv: "cx_inv m n s" and mn: "m \<noteq> n" and bound: "length (cx_sent s) + 1 < 2 ^ 64" and pc: "cx_snd s = SWrite v i b"
  shows "snd_good m n s (snd_step m (SWrite v i b) s)"
proof -
  note I = cx_invD [OF inv] and D = slots_holdD [OF cx_invD(1) [OF inv]]
  note w = write_holds [OF I(1) [unfolded pc]]
  have "cx_waiters m n ((cx_sys s)\<lparr>cs_inner := send_write i v (cs_inner (cx_sys s))\<rparr>) (rechecking (cx_rcv s))"
    by (rule cx_waiters_inner [OF I(3)]) (simp_all add: pc send_write_def)
  moreover have "length (cx_got s) \<le> length (cx_sent s)" using I(2) by (metis length_take min.cobounded1)
  ultimately show ?thesis using w I(2) pc by (simp add: cx_inv_def send_write_def)
qed

lemma snd_leave_inv:
  assumes inv: "cx_inv m n s" and mn: "m \<noteq> n" and bound: "length (cx_sent s) + 1 < 2 ^ 64" and pc: "cx_snd s = SLeave"
  shows "snd_good m n s (snd_step m SLeave s)"
proof -
  note I = cx_invD [OF inv] and D = slots_holdD [OF cx_invD(1) [OF inv]]
  let ?t = "cx_sys s"
  let ?t' = "set_future m (SendFuture None False) (if registered (cs_fut ?t m) then remove_send m ?t else ?t)"
  have "cx_inv m n (s\<lparr>cx_sys := ?t', cx_snd := SIdle\<rparr>)"
    by (rule snd_moves [OF inv])
      (use cx_waiters_leave(1,3) [OF I(3) mn, of "SendFuture None False"] pc in simp_all)
  with pc show ?thesis by (simp add: Let_def)
qed

lemma snd_park_inv:
  assumes inv: "cx_inv m n s" and mn: "m \<noteq> n" and bound: "length (cx_sent s) + 1 < 2 ^ 64" and pc: "cx_snd s = SPark v w"
  shows "snd_good m n s (snd_step m (SPark v w) s)"
proof -
  note I = cx_invD [OF inv] and D = slots_holdD [OF cx_invD(1) [OF inv]]
  from cx_waiters_park(1) [OF I(3) mn, of w v] obtain t' where
    t: "SendFuture_park m w (Some v) (registered (cs_fut (cx_sys s) m)) (cx_sys s) = Some t'"
    "same_slots (cx_sys s) t'" "cx_waiters m n t' (waking (cx_snd s) \<or> rechecking (cx_rcv s))" by blast
  have "cx_inv m n (s\<lparr>cx_sys := t', cx_snd := SIdle\<rparr>)"
    by (rule snd_moves [OF inv t(2)]) (use t(3) pc in simp_all)
  then show ?thesis using t(1) same_slots_capacity [OF t(2)] pc by simp
qed

lemma snd_step_inv:
  assumes inv: "cx_inv m n s" and "m \<noteq> n" and bound: "length (cx_sent s) + 1 < 2 ^ 64"
  shows "snd_good m n s (snd_step m (cx_snd s) s)"
proof -
  note I = cx_invD [OF inv] and D = slots_holdD [OF cx_invD(1) [OF inv]]
  show ?thesis
  proof (cases "cx_snd s")
    case SIdle
    with inv show ?thesis by simp
  next
    case (SLook v k)
    let ?p = "if ch_full (cs_inner (cx_sys s)) then case k of None \<Rightarrow> SIdle | Some w \<Rightarrow> SPark v w else SClaim v (k \<noteq> None)"
    have "cx_inv m n (s\<lparr>cx_snd := ?p\<rparr>)"
      by (rule snd_pc_moves [OF inv]) (auto simp: SLook ch_full_def split: option.splits if_splits)
    with SLook D(3) show ?thesis by (auto simp: Let_def)
  next
    case (SClaim v b)
    with snd_claim_inv [OF assms this] show ?thesis by simp
  next
    case (SWrite v i b)
    with snd_write_inv [OF assms this] show ?thesis by simp
  next
    case (SPublish b)
    note w = publish_holds [OF I(1) [unfolded SPublish]]
    have "cx_waiters m n ((cx_sys s)\<lparr>cs_inner := send_publish (cs_inner (cx_sys s))\<rparr>) True"
      by (rule cx_waiters_inner [OF I(3)]) (simp_all add: send_publish_def)
    with w(1) I(2) SPublish show ?thesis by (simp add: cx_inv_def send_publish_def)
  next
    case (SWake b)
    have "cx_inv m n (s\<lparr>cx_sys := wake_recv (cx_sys s), cx_snd := if b then SLeave else SIdle\<rparr>)"
      by (rule snd_moves [OF inv]) (use cx_waiters_wake(1) [OF I(3)] SWake in \<open>auto split: if_splits\<close>)
    with SWake show ?thesis by simp
  next
    case SLeave
    with snd_leave_inv [OF assms this] show ?thesis by simp
  next
    case (SPark v w)
    with snd_park_inv [OF assms this] show ?thesis by simp
  qed
qed

text \<open>The steps of the receiver.\<close>

lemma rcv_claim_inv:
  assumes inv: "cx_inv m n s" and mn: "m \<noteq> n" and bound: "length (cx_sent s) + 1 < 2 ^ 64" and pc: "cx_rcv s = RClaim b"
  shows "rcv_good m n s (rcv_step n (RClaim b) s)"
proof -
  note I = cx_invD [OF inv] and D = slots_holdD [OF cx_invD(1) [OF inv]]
  from recv_claim_holds [OF I(1) [unfolded pc] bound] obtain i c' where
    c: "recv_claim (cs_inner (cx_sys s)) = Some (i, c')" "c' = (cs_inner (cx_sys s))\<lparr>ch_recv_pos := ch_recv_pos c'\<rparr>"
    "slots_hold c' (cx_snd s) (RRead i b) (cx_sent s) (length (cx_got s))" by blast
  have "cx_waiters m n ((cx_sys s)\<lparr>cs_inner := c'\<rparr>) (waking (cx_snd s))"
    by (rule cx_waiters_inner [OF I(3)]; subst c(2)) (simp_all add: pc)
  moreover have "ch_capacity c' = ch_capacity (cs_inner (cx_sys s))" by (subst c(2)) simp
  ultimately show ?thesis using c(1,3) I(2) pc by (simp add: cx_inv_def)
qed

lemma rcv_read_inv:
  assumes inv: "cx_inv m n s" and mn: "m \<noteq> n" and bound: "length (cx_sent s) + 1 < 2 ^ 64" and pc: "cx_rcv s = RRead i b"
  shows "rcv_good m n s (rcv_step n (RRead i b) s)"
proof -
  note I = cx_invD [OF inv] and D = slots_holdD [OF cx_invD(1) [OF inv]]
  from read_holds [OF I(1) [unfolded pc]] obtain c' where
    c: "recv_read i (cs_inner (cx_sys s)) = Some (cx_sent s ! length (cx_got s), c')"
    "c' = (cs_inner (cx_sys s))\<lparr>ch_data := ch_data c', ch_occupied := ch_occupied c'\<rparr>"
    "slots_hold c' (cx_snd s) (RRelease (cx_sent s ! length (cx_got s)) b) (cx_sent s) (Suc (length (cx_got s)))"
    "length (cx_got s) < length (cx_sent s)" by blast
  have "cx_waiters m n ((cx_sys s)\<lparr>cs_inner := c'\<rparr>) (waking (cx_snd s))"
    by (rule cx_waiters_inner [OF I(3)]; subst c(2)) (simp_all add: pc)
  moreover have "ch_capacity c' = ch_capacity (cs_inner (cx_sys s))" by (subst c(2)) simp
  moreover have "take (Suc (length (cx_got s))) (cx_sent s) = cx_got s @ [cx_sent s ! length (cx_got s)]"
    using I(2) c(4) by (simp add: take_Suc_conv_app_nth)
  ultimately show ?thesis using c(1,3) pc by (simp add: cx_inv_def)
qed

lemma rcv_leave_inv:
  assumes inv: "cx_inv m n s" and mn: "m \<noteq> n" and bound: "length (cx_sent s) + 1 < 2 ^ 64" and pc: "cx_rcv s = RLeave"
  shows "rcv_good m n s (rcv_step n RLeave s)"
proof -
  note I = cx_invD [OF inv] and D = slots_holdD [OF cx_invD(1) [OF inv]]
  let ?t = "cx_sys s"
  let ?t' = "set_future n (RecvFuture False) (if registered (cs_fut ?t n) then remove_recv n ?t else ?t)"
  have "cx_inv m n (s\<lparr>cx_sys := ?t', cx_rcv := RIdle\<rparr>)"
    by (rule rcv_moves [OF inv])
      (use cx_waiters_leave(2,4) [OF I(3) mn, of "RecvFuture False"] pc in simp_all)
  with pc show ?thesis by (simp add: Let_def)
qed

lemma rcv_park_inv:
  assumes inv: "cx_inv m n s" and mn: "m \<noteq> n" and bound: "length (cx_sent s) + 1 < 2 ^ 64" and pc: "cx_rcv s = RPark w"
  shows "rcv_good m n s (rcv_step n (RPark w) s)"
proof -
  note I = cx_invD [OF inv] and D = slots_holdD [OF cx_invD(1) [OF inv]]
  from cx_waiters_park(2) [OF I(3) mn, of w] obtain t' where
    t: "RecvFuture_park n w (registered (cs_fut (cx_sys s) n)) (cx_sys s) = Some t'"
    "same_slots (cx_sys s) t'" "cx_waiters m n t' True" by blast
  have "cx_inv m n (s\<lparr>cx_sys := t', cx_rcv := RRecheck\<rparr>)"
    by (rule rcv_moves [OF inv t(2)]) (use t(3) pc in simp_all)
  then show ?thesis using t(1) same_slots_capacity [OF t(2)] pc by simp
qed

lemma rcv_unlink_inv:
  assumes inv: "cx_inv m n s" and mn: "m \<noteq> n" and bound: "length (cx_sent s) + 1 < 2 ^ 64" and pc: "cx_rcv s = RUnlink b"
  shows "rcv_good m n s (rcv_step n (RUnlink b) s)"
proof -
  note I = cx_invD [OF inv] and D = slots_holdD [OF cx_invD(1) [OF inv]]
  let ?t' = "set_future n (RecvFuture False) (remove_recv n (cx_sys s))"
  have "cx_inv m n (s\<lparr>cx_sys := ?t', cx_rcv := if b then RClaim True else RIdle\<rparr>)"
    by (rule rcv_moves [OF inv])
      (use cx_waiters_leave(2) [OF I(3) mn, of "RecvFuture False"] D(10) pc
        in \<open>auto split: if_splits\<close>)
  with pc show ?thesis by simp
qed

lemma rcv_step_inv:
  assumes inv: "cx_inv m n s" and "m \<noteq> n" and bound: "length (cx_sent s) + 1 < 2 ^ 64"
  shows "rcv_good m n s (rcv_step n (cx_rcv s) s)"
proof -
  note I = cx_invD [OF inv] and D = slots_holdD [OF cx_invD(1) [OF inv]]
  show ?thesis
  proof (cases "cx_rcv s")
    case RIdle
    with inv show ?thesis by simp
  next
    case (RLook k)
    let ?r = "if 0 < ch_len (cs_inner (cx_sys s)) then RClaim (k \<noteq> None) else case k of None \<Rightarrow> RIdle | Some w \<Rightarrow> RPark w"
    have "cx_inv m n (s\<lparr>cx_rcv := ?r\<rparr>)"
      by (rule rcv_pc_moves [OF inv]) (auto simp: RLook split: option.splits if_splits)
    with RLook D(3) show ?thesis by (auto simp: Let_def)
  next
    case (RClaim b)
    with rcv_claim_inv [OF assms this] show ?thesis by simp
  next
    case (RRead i b)
    with rcv_read_inv [OF assms this] show ?thesis by simp
  next
    case (RRelease v b)
    note w = release_holds [OF I(1) [unfolded RRelease]]
    have "cx_waiters m n ((cx_sys s)\<lparr>cs_inner := recv_release (cs_inner (cx_sys s))\<rparr>) (waking (cx_snd s))"
      by (rule cx_waiters_inner [OF I(3)]) (use w(2) RRelease in \<open>auto simp: recv_release_def\<close>)
    with w(1) I(2) RRelease show ?thesis by (simp add: cx_inv_def recv_release_def)
  next
    case (RWake b)
    have "cx_inv m n (s\<lparr>cx_sys := wake_send (cx_sys s), cx_rcv := if b then RLeave else RIdle\<rparr>)"
      by (rule rcv_moves [OF inv]) (use cx_waiters_wake(2) [OF I(3)] RWake in \<open>auto split: if_splits\<close>)
    with RWake show ?thesis by simp
  next
    case RLeave
    with rcv_leave_inv [OF assms this] show ?thesis by simp
  next
    case (RPark w)
    with rcv_park_inv [OF assms this] show ?thesis by simp
  next
    case RRecheck
    let ?r = "if 0 < ch_len (cs_inner (cx_sys s)) then RUnlink True else RIdle"
    have "cx_inv m n (s\<lparr>cx_rcv := ?r\<rparr>)"
      by (rule rcv_pc_moves [OF inv]) (auto simp: RRecheck split: if_splits)
    with RRecheck D(3) show ?thesis by (auto simp: Let_def)
  next
    case (RUnlink b)
    with rcv_unlink_inv [OF assms this] show ?thesis by simp
  qed
qed

text \<open>Any event.\<close>

lemma cx_step_inv:
  assumes inv: "cx_inv m n s" and "m \<noteq> n" and bound: "length (cx_sent s) + 1 < 2 ^ 64"
  shows "\<exists>s'. cx_step m n e s = Some s' \<and> cx_inv m n s' \<and> length (cx_sent s') \<le> length (cx_sent s) + 1
    \<and> ch_capacity (cs_inner (cx_sys s')) = ch_capacity (cs_inner (cx_sys s))"
proof -
  note I = cx_invD [OF inv]
  have snd: "cx_inv m n (s\<lparr>cx_snd := SLook v k\<rparr>)" if "snd_idle (cx_snd s)" for v k
    by (rule snd_pc_moves [OF inv]) (use that in \<open>cases "cx_snd s"; simp\<close>)+
  have rcv: "cx_inv m n (s\<lparr>cx_rcv := RLook k\<rparr>)" if "rcv_idle (cx_rcv s)" for k
    by (rule rcv_pc_moves [OF inv]) (use that in \<open>cases "cx_rcv s"; simp\<close>)+
  have sys: "cx_inv m n (s\<lparr>cx_sys := t\<rparr>)"
    if "same_slots (cx_sys s) t" "cx_waiters m n t (waking (cx_snd s) \<or> rechecking (cx_rcv s))" for t
    using that I by (simp add: cx_inv_def same_slots_hold)
  show ?thesis
  proof (cases e)
    case SndGo
    with snd_step_inv [OF assms] show ?thesis by (simp add: cx_step_def)
  next
    case RcvGo
    with rcv_step_inv [OF assms] show ?thesis by (auto simp: cx_step_def)
  next
    case (SndTry v)
    with snd inv show ?thesis by (simp add: cx_step_def)
  next
    case (SndPoll w)
    with snd inv show ?thesis
      by (cases "cs_fut (cx_sys s) m") (auto simp: cx_step_def split: option.splits)
  next
    case RcvTry
    with rcv inv show ?thesis by (simp add: cx_step_def)
  next
    case (RcvPoll w)
    with rcv inv show ?thesis
      by (cases "cs_fut (cx_sys s) n") (auto simp: cx_step_def)
  next
    case (SndNew v)
    have "same_slots (cx_sys s) (Channel_send m v (cx_sys s))" by (simp add: same_slots_def Channel_send_def)
    with SndNew sys [OF this] cx_waiters_new(1) [OF I(3) \<open>m \<noteq> n\<close>] inv show ?thesis
      by (simp add: cx_step_def Let_def Channel_send_def)
  next
    case RcvNew
    have "same_slots (cx_sys s) (Channel_recv n (cx_sys s))" by (simp add: same_slots_def Channel_recv_def)
    with RcvNew sys [OF this] cx_waiters_new(2) [OF I(3) \<open>m \<noteq> n\<close>] inv show ?thesis
      by (simp add: cx_step_def Let_def Channel_recv_def)
  next
    case SndDrop
    note d = cx_waiters_drop [OF I(3) \<open>m \<noteq> n\<close>]
    from SndDrop sys [OF d(3,1)] inv same_slots_capacity [OF d(3)] show ?thesis by (simp add: cx_step_def)
  next
    case RcvDrop
    note d = cx_waiters_drop [OF I(3) \<open>m \<noteq> n\<close>]
    from RcvDrop sys [OF d(4,2)] inv same_slots_capacity [OF d(4)] show ?thesis by (simp add: cx_step_def)
  qed
qed

interpretation cx: event_system "cx_step m n"
  "\<lambda>s. m \<noteq> n \<and> cx_inv m n s \<and> ch_capacity (cs_inner (cx_sys s)) = k" "\<lambda>s. length (cx_sent s)" "2 ^ 64 - 1" for m n k
proof
  fix s :: "('a, 'b) cx" and e
  assume s: "m \<noteq> n \<and> cx_inv m n s \<and> ch_capacity (cs_inner (cx_sys s)) = k" "length (cx_sent s) < 2 ^ 64 - 1"
  then have "length (cx_sent s) + 1 < 2 ^ 64" by simp
  from cx_step_inv [OF _ _ this, of m n e] s(1)
  show "\<exists>s'. cx_step m n e s = Some s' \<and> (m \<noteq> n \<and> cx_inv m n s' \<and> ch_capacity (cs_inner (cx_sys s')) = k)
      \<and> length (cx_sent s') \<le> Suc (length (cx_sent s))" by auto
qed

lemma cx_init_inv:
  assumes "channel kernel_alloc capacity = Some c" "capacity < 2 ^ 64"
  shows "cx_inv m n (cx_init c)" "ch_capacity c = capacity" "cx_sent (cx_init c) = []"
  using assms
  by (auto simp: cx_inv_def cx_init_def chan_init_def channel_def VecSlot_new_def slots_hold_def
      cx_waiters_def two_queues_def wf_wq_def WaitQueue_new_def WaitNode_new_def)

text \<open>A run to try this on, which the last section is about.\<close>

definition forgetful_run :: "'a \<Rightarrow> 'a \<Rightarrow> 'w \<Rightarrow> 'w \<Rightarrow> 'w \<Rightarrow> ('a, 'w) cx_event list" where
  "forgetful_run u v w1 w2 w3 =
     [RcvNew, RcvPoll w1, RcvGo, RcvGo, SndTry u, SndGo, SndGo, SndGo, SndGo,
      RcvGo, RcvGo, RcvGo, RcvGo, RcvGo, RcvGo, RcvGo, RcvDrop,
      RcvNew, RcvPoll w2, RcvGo, RcvGo, RcvGo, SndGo, RcvPoll w3, RcvGo, RcvGo, RcvGo,
      SndTry v, SndGo, SndGo, SndGo, SndGo, SndGo]"

lemmas cx_exec = chan_exec cx_step_def cx_init_def forgetful_run_def Future_drop_def
  RecvFuture_drop_def SendFuture_drop_def

text \<open>
  C8: With one producer and one receiver, however their accesses interleave, nothing panics, no
  slot that holds no value is read and the two never work on one slot at a time; the values
  received are the first of the values sent, in order, and the rest is in the buffer.
\<close>

theorem one_producer_fifo:
  fixes es :: "('a, 'w) cx_event list"
  assumes "channel kernel_alloc capacity = Some c" "capacity < 2 ^ 64" "m \<noteq> n" "length es < 2 ^ 64"
  shows "\<exists>s. cx_run m n es (cx_init c) = Some s \<and> take (length (cx_got s)) (cx_sent s) = cx_got s
    \<and> length (cx_sent s) \<le> length (cx_got s) + capacity
    \<and> (\<forall>v i p j q. cx_snd s = SWrite v i p \<longrightarrow> cx_rcv s \<noteq> RRead j q \<or> i \<noteq> j)"
proof -
  note init = cx_init_inv [OF assms(1,2)]
  from cx.run_inv [of m n "cx_init c" capacity es] init(1,2) assms(3,4) obtain s where
    s: "cx_run m n es (cx_init c) = Some s" "cx_inv m n s" "ch_capacity (cs_inner (cx_sys s)) = capacity"
    by (auto simp: cx_init_def chan_init_def)
  note I = cx_invD [OF s(2)] and D = slots_holdD [OF cx_invD(1) [OF s(2)]]
  have "length (cx_sent s) \<le> length (cx_got s) + capacity"
    using D(7,8) D(9) s(3) by (cases "cx_snd s") auto
  with s(1) I(2) slots_apart [OF I(1)] show ?thesis by auto
qed

theorem one_producer_fifo_witness:
  "\<exists>c s. channel (\<lambda>_. True) 1 = Some c
    \<and> cx_run 3 7 (forgetful_run 4 5 1 2 6) (cx_init c :: (nat, nat) cx) = Some s
    \<and> take (length (cx_got s)) (cx_sent s) = cx_got s"
proof -
  obtain c :: "nat channel_inner" where c: "channel (\<lambda>_. True) 1 = Some c"
    by (simp add: channel_def VecSlot_new_def)
  have "length (forgetful_run (4 :: nat) 5 (1 :: nat) 2 6) < 2 ^ 64" by (simp add: forgetful_run_def)
  from one_producer_fifo [OF c _ _ this, of 3 7] c show ?thesis by auto
qed

text \<open>
  C31: No wake-up is lost between the receiver's first look and its registration: when a poll of
  the receiver has returned pending and its node is in the queue, either the producer is about to
  wake it or the channel is empty; and when the producer is through, everything that was sent has
  been received.
\<close>

theorem parked_receiver_sees_empty:
  fixes es :: "('a, 'w) cx_event list"
  assumes "channel kernel_alloc capacity = Some c" "capacity < 2 ^ 64" "m \<noteq> n" "length es < 2 ^ 64"
    "cx_run m n es (cx_init c) = Some s" "cx_rcv s = RIdle" "wn_linked (cs_heap (cx_sys s) n)"
  shows "((\<exists>p. cx_snd s = SWake p) \<or> ch_len (cs_inner (cx_sys s)) = 0)
    \<and> (cx_snd s = SIdle \<longrightarrow> cx_got s = cx_sent s)"
proof -
  note init = cx_init_inv [OF assms(1,2)]
  have "cx_inv m n (cx_init c :: ('a, 'w) cx)" by (rule init(1))
  with cx.run_inv [of m n "cx_init c" "ch_capacity c" es] assms(3-5) have inv: "cx_inv m n s"
    by (simp add: cx_init_def chan_init_def)
  note I = cx_invD [OF inv] and D = slots_holdD [OF cx_invD(1) [OF inv]]
  obtain xs ys where *:
    "two_queues (cs_heap (cx_sys s)) (ch_send_waiters (cs_inner (cx_sys s)))
       (ch_recv_waiters (cs_inner (cx_sys s))) xs ys"
    "xs = [] \<or> xs = [m] \<and> (\<exists>v. cs_fut (cx_sys s) m = SendFuture (Some v) True)"
    "ys = [] \<or> ys = [n] \<and> cs_fut (cx_sys s) n = RecvFuture True
       \<and> (ch_len (cs_inner (cx_sys s)) = 0 \<or> waking (cx_snd s) \<or> rechecking (cx_rcv s))"
    by (rule cx_waitersE [OF I(3)])
  have "n \<in> set xs \<union> set ys" using *(1) assms(7) unfolding two_queues_def by blast
  with *(2) assms(3) have "n \<in> set ys" by auto
  with *(3) assms(6) have w: "ch_len (cs_inner (cx_sys s)) = 0 \<or> waking (cx_snd s)" by auto
  have "cx_got s = cx_sent s" if "cx_snd s = SIdle"
    using w that D(7) I(2) assms(6) by simp
  with w show ?thesis by (cases "cx_snd s") auto
qed

definition patient_run :: "'a \<Rightarrow> 'w \<Rightarrow> 'w \<Rightarrow> ('a, 'w) cx_event list" where
  "patient_run u w1 w2 =
     [SndTry u, SndGo, SndGo, SndGo, SndGo, SndGo, RcvNew, RcvPoll w1, RcvGo, RcvGo, RcvGo, RcvGo, RcvGo, RcvGo,
      RcvPoll w2, RcvGo, RcvGo, RcvGo]"

theorem parked_receiver_sees_empty_witness:
  "\<exists>c s. channel (\<lambda>_. True) 1 = Some c \<and> cx_run 3 7 (patient_run 4 1 2) (cx_init c :: (nat, nat) cx) = Some s
    \<and> cx_sent s = [4] \<and> wn_linked (cs_heap (cx_sys s) 7) \<and> cx_got s = cx_sent s"
proof -
  have "\<exists>c s. channel (\<lambda>_. True) 1 = Some c \<and> cx_run 3 7 (patient_run 4 1 2) (cx_init c :: (nat, nat) cx) = Some s
    \<and> cx_sent s = [4] \<and> cx_snd s = SIdle \<and> cx_rcv s = RIdle \<and> wn_linked (cs_heap (cx_sys s) 7)"
    by (simp add: cx_exec patient_run_def)
  then obtain c and s :: "(nat, nat) cx" where *: "channel (\<lambda>_. True) 1 = Some c"
    "cx_run 3 7 (patient_run 4 1 2) (cx_init c) = Some s" "cx_sent s = [4]" "cx_snd s = SIdle"
    "cx_rcv s = RIdle" "wn_linked (cs_heap (cx_sys s) 7)" by blast
  have "length (patient_run (4 :: nat) (1 :: nat) 2) < 2 ^ 64" by (simp add: patient_run_def)
  from parked_receiver_sees_empty [OF *(1) _ _ this *(2,5,6)] * show ?thesis by auto
qed

section \<open>A receiver that nobody wakes\<close>


end
