(* ===== verification/Broadcast.thy ===== *)
theory Broadcast
  imports WaitQueue
begin

text \<open>
  The broadcast channel, \<open>src/primitives/broadcast.rs\<close>: one sender, any number of receivers, a
  generation counter with the latest value, and a wait queue. The shared box is freed by its
  reference count; \<open>None\<close> is a panic or an access to the freed box. A receiver is at the address of
  its wait node. Cloning a value gives the same value.
\<close>

section \<open>State\<close>

record bc_receiver =
  br_last_seen :: u64
  br_registered :: bool

record ('a, 'w) bc_sys =
  bc_freed :: bool
  bc_refcount :: u32
  bc_generation :: u64
  bc_value :: "'a option"
  bc_waiters :: wait_queue
  bc_heap :: "'w node_heap"
  bc_sender :: bool
  bc_recv :: "addr \<Rightarrow> bc_receiver option"
  bc_wakes :: "'w waker_event list"

definition bc_receiver_new :: "u64 \<Rightarrow> bc_receiver" where
  "bc_receiver_new gen = \<lparr>br_last_seen = gen, br_registered = False\<rparr>"

definition broadcast :: "addr \<Rightarrow> ('a, 'w) bc_sys" where
  "broadcast n = \<lparr>bc_freed = False, bc_refcount = 1, bc_generation = 0, bc_value = None,
     bc_waiters = WaitQueue_new, bc_heap = (\<lambda>_. WaitNode_new), bc_sender = True,
     bc_recv = (\<lambda>_. None)(n := Some (bc_receiver_new 0)), bc_wakes = []\<rparr>"

section \<open>Operations\<close>

text \<open>The accesses of \<open>send\<close>: the value, the generation, the waiters.\<close>

definition bc_store :: "'a \<Rightarrow> ('a, 'w) bc_sys \<Rightarrow> ('a, 'w) bc_sys option" where
  "bc_store v s = do { assert_that (\<not> bc_freed s); Some (s\<lparr>bc_value := Some v\<rparr>) }"

definition bc_bump :: "('a, 'w) bc_sys \<Rightarrow> ('a, 'w) bc_sys option" where
  "bc_bump s = do { assert_that (\<not> bc_freed s); Some (s\<lparr>bc_generation := bc_generation s + 1\<rparr>) }"

definition bc_wake_all :: "('a, 'w) bc_sys \<Rightarrow> ('a, 'w) bc_sys option" where
  "bc_wake_all s = do { assert_that (\<not> bc_freed s);
     (es, h, q) \<leftarrow> WaitQueue_wake_all (bc_heap s, bc_waiters s);
     Some (s\<lparr>bc_heap := h, bc_waiters := q, bc_wakes := bc_wakes s @ es\<rparr>) }"

definition bc_send :: "'a \<Rightarrow> ('a, 'w) bc_sys \<Rightarrow> ('a, 'w) bc_sys option" where
  "bc_send v s = do { s \<leftarrow> bc_store v s; s \<leftarrow> bc_bump s; bc_wake_all s }"

text \<open>\<open>fetch_sub\<close>, and the free when the count was 1.\<close>

definition bc_release :: "('a, 'w) bc_sys \<Rightarrow> ('a, 'w) bc_sys option" where
  "bc_release s = do { assert_that (\<not> bc_freed s);
     Some (s\<lparr>bc_refcount := bc_refcount s - 1, bc_freed := bc_refcount s = 1\<rparr>) }"

definition bc_sender_drop :: "('a, 'w) bc_sys \<Rightarrow> ('a, 'w) bc_sys option" where
  "bc_sender_drop s = do { assert_that (\<not> bc_freed s);
     s \<leftarrow> bc_wake_all (s\<lparr>bc_generation := - 1\<rparr>);
     s \<leftarrow> bc_release s;
     Some (s\<lparr>bc_sender := False\<rparr>) }"

definition bc_subscribe :: "addr \<Rightarrow> ('a, 'w) bc_sys \<Rightarrow> ('a, 'w) bc_sys option" where
  "bc_subscribe n s = do { assert_that (\<not> bc_freed s);
     Some (s\<lparr>bc_refcount := bc_refcount s + 1,
       bc_recv := (bc_recv s)(n := Some (bc_receiver_new (bc_generation s))),
       bc_heap := (bc_heap s)(n := WaitNode_new)\<rparr>) }"

definition bc_receiver_drop :: "addr \<Rightarrow> ('a, 'w) bc_sys \<Rightarrow> ('a, 'w) bc_sys option" where
  "bc_receiver_drop n s = do { s \<leftarrow> bc_release s; Some (s\<lparr>bc_recv := (bc_recv s)(n := None)\<rparr>) }"

text \<open>The accesses of a poll: the generation, the value, the queue.\<close>

definition bc_load :: "('a, 'w) bc_sys \<Rightarrow> u64 option" where
  "bc_load s = do { assert_that (\<not> bc_freed s); Some (bc_generation s) }"

definition bc_set :: "addr \<Rightarrow> bc_receiver \<Rightarrow> ('a, 'w) bc_sys \<Rightarrow> ('a, 'w) bc_sys" where
  "bc_set n r s = s\<lparr>bc_recv := (bc_recv s)(n := Some r)\<rparr>"

definition bc_take :: "addr \<Rightarrow> u64 \<Rightarrow> ('a, 'w) bc_sys \<Rightarrow> ('a \<times> ('a, 'w) bc_sys) option" where
  "bc_take n gen s = do { assert_that (\<not> bc_freed s); r \<leftarrow> bc_recv s n; v \<leftarrow> bc_value s;
     Some (v, bc_set n (r\<lparr>br_last_seen := gen\<rparr>) s) }"

definition bc_unregister :: "addr \<Rightarrow> ('a, 'w) bc_sys \<Rightarrow> ('a, 'w) bc_sys option" where
  "bc_unregister n s = do { assert_that (\<not> bc_freed s); r \<leftarrow> bc_recv s n;
     let (h, q) = WaitQueue_remove n (bc_heap s, bc_waiters s);
     Some (bc_set n (r\<lparr>br_registered := False\<rparr>) (s\<lparr>bc_heap := h, bc_waiters := q\<rparr>)) }"

definition bc_park :: "addr \<Rightarrow> 'w \<Rightarrow> ('a, 'w) bc_sys \<Rightarrow> ('a, 'w) bc_sys option" where
  "bc_park n w s = do { r \<leftarrow> bc_recv s n;
     let s = s\<lparr>bc_heap := put_node n (WaitNode_set_waker w) (bc_heap s)\<rparr>;
     if br_registered r then Some s
     else do { assert_that (\<not> bc_freed s);
       (h, q) \<leftarrow> WaitQueue_enqueue n (bc_heap s, bc_waiters s);
       Some (bc_set n (r\<lparr>br_registered := True\<rparr>) (s\<lparr>bc_heap := h, bc_waiters := q\<rparr>)) } }"

datatype bc_recv_error = BcClosed

definition bc_recheck :: "addr \<Rightarrow> ('a, 'w) bc_sys \<Rightarrow> ((bc_recv_error + 'a) option \<times> ('a, 'w) bc_sys) option" where
  "bc_recheck n s = do { gen \<leftarrow> bc_load s; r \<leftarrow> bc_recv s n;
     if gen = - 1 then do { s \<leftarrow> bc_unregister n s; Some (Some (Inl BcClosed), s) }
     else if br_last_seen r < gen then do { s \<leftarrow> bc_unregister n s; (v, s) \<leftarrow> bc_take n gen s; Some (Some (Inr v), s) }
     else Some (None, s) }"

definition bc_poll :: "addr \<Rightarrow> 'w \<Rightarrow> ('a, 'w) bc_sys \<Rightarrow> ((bc_recv_error + 'a) option \<times> ('a, 'w) bc_sys) option" where
  "bc_poll n w s = do { gen \<leftarrow> bc_load s; r \<leftarrow> bc_recv s n;
     if gen = - 1 then Some (Some (Inl BcClosed), s)
     else if br_last_seen r < gen then do { (v, s) \<leftarrow> bc_take n gen s; Some (Some (Inr v), s) }
     else do { s \<leftarrow> bc_park n w s; bc_recheck n s } }"

definition bc_future_drop :: "addr \<Rightarrow> ('a, 'w) bc_sys \<Rightarrow> ('a, 'w) bc_sys option" where
  "bc_future_drop n s = do { r \<leftarrow> bc_recv s n;
     if br_registered r then bc_unregister n s else Some s }"

section \<open>Runs\<close>

text \<open>
  What the owners of the halves do, one after the other. \<open>Await\<close> is one poll of \<open>recv().await\<close>:
  when the future is ready it is dropped. A receiver that is dropped drops its future first. The
  results are what the receiver gets and the wakers that are woken.
\<close>

datatype ('a, 'w) bc_op = BcSend 'a | BcClose | BcSubscribe addr | BcAwait addr 'w | BcCancel addr | BcDrop addr

datatype ('a, 'w) bc_res = BcNothing | BcGot 'a | BcSawClosed | BcWoke "'w list"

fun woken_wakers :: "'w waker_event list \<Rightarrow> 'w list" where
  "woken_wakers [] = []"
| "woken_wakers (Wake w # es) = w # woken_wakers es"
| "woken_wakers (Drop w # es) = woken_wakers es"

definition bc_new_wakes :: "('a, 'w) bc_sys \<Rightarrow> ('a, 'w) bc_sys \<Rightarrow> 'w list" where
  "bc_new_wakes s s' = woken_wakers (drop (length (bc_wakes s)) (bc_wakes s'))"

definition bc_await :: "addr \<Rightarrow> 'w \<Rightarrow> ('a, 'w) bc_sys \<Rightarrow> (('a, 'w) bc_res \<times> ('a, 'w) bc_sys) option" where
  "bc_await n w s = do { (r, s) \<leftarrow> bc_poll n w s;
     case r of
       None \<Rightarrow> Some (BcNothing, s)
     | Some (Inl _) \<Rightarrow> do { s \<leftarrow> bc_future_drop n s; Some (BcSawClosed, s) }
     | Some (Inr v) \<Rightarrow> do { s \<leftarrow> bc_future_drop n s; Some (BcGot v, s) } }"

definition bc_step :: "('a, 'w) bc_op \<Rightarrow> ('a, 'w) bc_sys \<Rightarrow> (('a, 'w) bc_res \<times> ('a, 'w) bc_sys) option" where
  "bc_step x s = (case x of
     BcSend v \<Rightarrow> do { s' \<leftarrow> bc_send v s; Some (BcWoke (bc_new_wakes s s'), s') }
   | BcClose \<Rightarrow> do { s' \<leftarrow> bc_sender_drop s; Some (BcWoke (bc_new_wakes s s'), s') }
   | BcSubscribe n \<Rightarrow> do { s \<leftarrow> bc_subscribe n s; Some (BcNothing, s) }
   | BcAwait n w \<Rightarrow> bc_await n w s
   | BcCancel n \<Rightarrow> do { s \<leftarrow> bc_future_drop n s; Some (BcNothing, s) }
   | BcDrop n \<Rightarrow> do { s \<leftarrow> bc_future_drop n s; s \<leftarrow> bc_receiver_drop n s; Some (BcNothing, s) })"

section \<open>The abstract broadcast\<close>

text \<open>
  What was sent, how much of it each receiver has seen, and who is parked with which waker. \<open>None\<close>:
  outside the contract, which keeps two holders at least (\<open>bc_refs\<close>), the counters from wrapping,
  and the owners to what ownership allows.
\<close>

record ('a, 'w) bc_abs =
  ba_sent :: "'a list"
  ba_seen :: "addr \<Rightarrow> nat option"
  ba_parked :: "(addr \<times> 'w) list"
  ba_closed :: bool
  ba_receivers :: nat

definition bc_refs :: "('a, 'w) bc_abs \<Rightarrow> nat" where
  "bc_refs a = ba_receivers a - (if ba_closed a then 1 else 0)"

definition unpark :: "addr \<Rightarrow> (addr \<times> 'w) list \<Rightarrow> (addr \<times> 'w) list" where
  "unpark n ps = filter (\<lambda>p. fst p \<noteq> n) ps"

definition repark :: "addr \<Rightarrow> 'w \<Rightarrow> (addr \<times> 'w) list \<Rightarrow> (addr \<times> 'w) list" where
  "repark n w ps = map (\<lambda>p. if fst p = n then (n, w) else p) ps"

definition ba_await :: "addr \<Rightarrow> 'w \<Rightarrow> nat \<Rightarrow> ('a, 'w) bc_abs \<Rightarrow> ('a, 'w) bc_res \<times> ('a, 'w) bc_abs" where
  "ba_await n w k a =
     (if ba_closed a then (BcSawClosed, a)
      else if k < length (ba_sent a)
        then (BcGot (last (ba_sent a)), a\<lparr>ba_seen := (ba_seen a)(n \<mapsto> length (ba_sent a))\<rparr>)
      else (BcNothing, a\<lparr>ba_parked := (if n \<in> fst ` set (ba_parked a)
          then repark n w (ba_parked a) else ba_parked a @ [(n, w)])\<rparr>))"

definition ba_step :: "('a, 'w) bc_op \<Rightarrow> ('a, 'w) bc_abs \<Rightarrow> (('a, 'w) bc_res \<times> ('a, 'w) bc_abs) option" where
  "ba_step x a = (case x of
     BcSend v \<Rightarrow> if ba_closed a \<or> 2 ^ 64 - 2 \<le> length (ba_sent a) then None
       else Some (BcWoke (take 64 (map snd (ba_parked a))), a\<lparr>ba_sent := ba_sent a @ [v], ba_parked := []\<rparr>)
   | BcClose \<Rightarrow> if ba_closed a \<or> bc_refs a < 2 then None
       else Some (BcWoke (take 64 (map snd (ba_parked a))), a\<lparr>ba_closed := True, ba_parked := []\<rparr>)
   | BcSubscribe n \<Rightarrow> if ba_seen a n \<noteq> None \<or> 2 ^ 32 - 1 \<le> ba_receivers a then None
       else Some (BcNothing, a\<lparr>ba_seen := (ba_seen a)(n \<mapsto> length (ba_sent a)), ba_receivers := ba_receivers a + 1\<rparr>)
   | BcAwait n w \<Rightarrow> map_option (\<lambda>k. ba_await n w k a) (ba_seen a n)
   | BcCancel n \<Rightarrow> map_option (\<lambda>k. (BcNothing, a\<lparr>ba_parked := unpark n (ba_parked a)\<rparr>)) (ba_seen a n)
   | BcDrop n \<Rightarrow> if ba_seen a n = None \<or> bc_refs a < 2 then None
       else Some (BcNothing, a\<lparr>ba_parked := unpark n (ba_parked a), ba_seen := (ba_seen a)(n := None),
         ba_receivers := ba_receivers a - 1\<rparr>))"

definition ba_init :: "addr \<Rightarrow> ('a, 'w) bc_abs" where
  "ba_init n = \<lparr>ba_sent = [], ba_seen = [n \<mapsto> 0], ba_parked = [], ba_closed = False, ba_receivers = 1\<rparr>"

section \<open>The wait queue of the channel\<close>

text \<open>Only the nodes in the queue are linked, and all have the lowest priority.\<close>

definition one_queue :: "'w node_heap \<Rightarrow> wait_queue \<Rightarrow> (addr \<times> 'w) list \<Rightarrow> bool" where
  "one_queue h q ps \<longleftrightarrow> wf_wq (h, q) (map fst ps) \<and> (\<forall>x. wn_linked (h x) \<longleftrightarrow> x \<in> fst ` set ps)
     \<and> (\<forall>x. wn_priority (h x) = 0) \<and> (\<forall>p \<in> set ps. waker_of h (fst p) = snd p)"

lemma one_queueD:
  assumes "one_queue h q ps"
  shows "wf_wq (h, q) (map fst ps)" "\<And>x. wn_linked (h x) \<longleftrightarrow> x \<in> fst ` set ps" "\<And>x. wn_priority (h x) = 0"
    "\<And>p. p \<in> set ps \<Longrightarrow> waker_of h (fst p) = snd p" "distinct (map fst ps)" "map (waker_of h) (map fst ps) = map snd ps"
  using assms wf_wq_set(1) [of h q "map fst ps"] by (auto simp: one_queue_def)

lemma one_queue_new: "one_queue (\<lambda>_. WaitNode_new) WaitQueue_new []"
  by (simp add: one_queue_def WaitNode_new_def WaitQueue_new_def wf_wq_def)

lemma one_queue_wake_all:
  assumes q: "one_queue h q ps"
  shows "\<exists>h' q' es. WaitQueue_wake_all (h, q) = Some (es, h', q') \<and> one_queue h' q' []
    \<and> woken_wakers es = take 64 (map snd ps)"
proof -
  note D = one_queueD [OF q]
  have w: "woken_wakers (map Drop ds @ map Wake ws @ map Drop es) = ws" for ds ws es :: "'a list"
  proof -
    have "woken_wakers (map Drop es) = []" for es :: "'a list" by (induction es) auto
    moreover have "woken_wakers (map Wake ws @ map Drop es) = ws"
      using calculation by (induction ws) auto
    ultimately show ?thesis by (induction ds) auto
  qed
  from wake_all_wf [OF D(1), unfolded D(6)] obtain h' q' where
    "WaitQueue_wake_all (h, q) = Some (map Drop (drop 64 (map snd ps)) @ map Wake (take 64 (map snd ps))
      @ map Drop (take 64 (map snd ps)), h', q')" "wf_wq (h', q') []"
    "\<forall>x. wn_linked (h' x) = (x \<notin> set (map fst ps) \<and> wn_linked (h x))" "\<forall>x. wn_priority (h' x) = wn_priority (h x)"
    by blast
  with D(2,3) w show ?thesis by (auto simp: one_queue_def)
qed

lemma one_queue_enqueue:
  assumes q: "one_queue h q ps" and n: "n \<notin> fst ` set ps" "wn_waker (h n) = Some w"
  shows "\<exists>h' q'. WaitQueue_enqueue n (h, q) = Some (h', q') \<and> one_queue h' q' (ps @ [(n, w)])"
proof -
  note D = one_queueD [OF q]
  have "\<not> wn_linked (h n)" "wn_waker (h n) \<noteq> None" using n D(2) by simp_all
  from enqueue_last [OF D(1) this D(3)] obtain h' q' where
    e: "WaitQueue_enqueue n (h, q) = Some (h', q')" "wf_wq (h', q') (map fst ps @ [n])"
    "\<forall>x. wn_waker (h' x) = wn_waker (h x) \<and> wn_priority (h' x) = 0 \<and> wn_linked (h' x) = (x = n \<or> wn_linked (h x))"
    by blast
  have "waker_of h' x = waker_of h x" for x using e(3) by (simp add: waker_of_def)
  with e D(2,4) n(2) have "one_queue h' q' (ps @ [(n, w)])" by (auto simp: one_queue_def waker_of_def)
  with e(1) show ?thesis by blast
qed

lemma one_queue_remove:
  assumes q: "one_queue h q ps"
  shows "\<exists>h' q'. WaitQueue_remove n (h, q) = (h', q') \<and> one_queue h' q' (unpark n ps)"
proof -
  note D = one_queueD [OF q]
  have "map fst (unpark n ps) = remove1 n (map fst ps)"
    using D(5) by (simp add: unpark_def distinct_remove1_removeAll removeAll_filter_not_eq filter_map comp_def eq_commute)
  moreover from remove_any [OF D(1), of n] D(2) obtain h' q' where
    r: "WaitQueue_remove n (h, q) = (h', q')" "wf_wq (h', q') (remove1 n (map fst ps))"
    "leaves (set (map fst ps)) n False h h'" by auto
  moreover have "waker_of h' x = waker_of h x" for x using r(3) by (simp add: leaves_def waker_of_def)
  ultimately have "one_queue h' q' (unpark n ps)"
    using D(2-4) by (auto simp: one_queue_def leaves_def unpark_def)
  with r(1) show ?thesis by blast
qed

lemma repark_simps:
  "map fst (repark n w ps) = map fst ps" "fst ` set (repark n w ps) = fst ` set ps"
  "n \<notin> fst ` set ps \<Longrightarrow> repark n w ps = ps"
proof -
  show m: "map fst (repark n w ps) = map fst ps" by (simp add: repark_def)
  have "set (map fst (repark n w ps)) = set (map fst ps)" unfolding m ..
  then show "fst ` set (repark n w ps) = fst ` set ps" by simp
  show "repark n w ps = ps" if "n \<notin> fst ` set ps"
    unfolding repark_def by (rule map_idI) (use that in auto)
qed

lemma one_queue_set_waker:
  assumes q: "one_queue h q ps"
  shows "one_queue (put_node n (WaitNode_set_waker w) h) q (repark n w ps)"
proof -
  note D = one_queueD [OF q]
  have "waker_of (put_node n (WaitNode_set_waker w) h) (fst p) = snd p" if "p \<in> set (repark n w ps)" for p
    using that D(4) by (auto simp: repark_def waker_of_def split: if_splits)
  then show ?thesis
    unfolding one_queue_def repark_simps using wf_wq_set_waker [OF D(1), of n w] D(2,3) by simp
qed

lemma one_queue_new_node:
  assumes q: "one_queue h q ps" and n: "n \<notin> fst ` set ps"
  shows "one_queue (h(n := WaitNode_new)) q ps"
proof -
  note D = one_queueD [OF q]
  have "n \<notin> set (map fst ps)" using n by simp
  from wf_wq_outside(1) [OF D(1) this] show ?thesis
    using D(2-4) n by (auto simp: one_queue_def WaitNode_new_def waker_of_def)
qed

section \<open>Simulation\<close>

text \<open>A receiver of the program that has seen \<open>k\<close> of \<open>m\<close> values; \<open>parked\<close>: its node is in the queue.\<close>

definition bc_recv_rel :: "bool \<Rightarrow> nat \<Rightarrow> bool \<Rightarrow> nat option \<Rightarrow> bc_receiver option \<Rightarrow> bool" where
  "bc_recv_rel closed m parked k r \<longleftrightarrow> (case (k, r) of
     (None, None) \<Rightarrow> \<not> parked
   | (Some k, Some r) \<Rightarrow> k \<le> m \<and> (parked \<longrightarrow> k = m \<and> br_registered r)
       \<and> (\<not> closed \<longrightarrow> br_last_seen r = of_nat k \<and> (br_registered r \<and> \<not> parked \<longrightarrow> k < m))
   | _ \<Rightarrow> False)"

definition bc_rel :: "('a, 'w) bc_abs \<Rightarrow> ('a, 'w) bc_sys \<Rightarrow> bool" where
  "bc_rel a s \<longleftrightarrow> \<not> bc_freed s \<and> bc_refcount s = of_nat (bc_refs a) \<and> 1 \<le> bc_refs a \<and> ba_receivers a < 2 ^ 32
     \<and> length (ba_sent a) < 2 ^ 64 - 1
     \<and> bc_generation s = (if ba_closed a then - 1 else of_nat (length (ba_sent a)))
     \<and> (ba_sent a \<noteq> [] \<longrightarrow> bc_value s = Some (last (ba_sent a)))
     \<and> one_queue (bc_heap s) (bc_waiters s) (ba_parked a) \<and> (ba_closed a \<longrightarrow> ba_parked a = [])
     \<and> (\<forall>n. bc_recv_rel (ba_closed a) (length (ba_sent a)) (n \<in> fst ` set (ba_parked a)) (ba_seen a n) (bc_recv s n))"

lemma bc_relD:
  assumes "bc_rel a s"
  shows "\<not> bc_freed s" "bc_refcount s = of_nat (bc_refs a)" "1 \<le> bc_refs a" "ba_receivers a < 2 ^ 32"
    "length (ba_sent a) < 2 ^ 64 - 1"
    "bc_generation s = (if ba_closed a then - 1 else of_nat (length (ba_sent a)))"
    "ba_sent a \<noteq> [] \<Longrightarrow> bc_value s = Some (last (ba_sent a))"
    "one_queue (bc_heap s) (bc_waiters s) (ba_parked a)" "ba_closed a \<Longrightarrow> ba_parked a = []"
    "\<And>n. bc_recv_rel (ba_closed a) (length (ba_sent a)) (n \<in> fst ` set (ba_parked a)) (ba_seen a n) (bc_recv s n)"
  using assms by (simp_all add: bc_rel_def)

lemma bc_rel_init: "bc_rel (ba_init n) (broadcast n)"
  by (auto simp: bc_rel_def ba_init_def broadcast_def bc_refs_def bc_recv_rel_def bc_receiver_new_def one_queue_new)

lemma gen_small:
  "m < 2 ^ 64 - 1 \<Longrightarrow> (of_nat m :: u64) \<noteq> - 1" "m < 2 ^ 64 - 1 \<Longrightarrow> k \<le> m \<Longrightarrow> (of_nat k < (of_nat m :: u64)) = (k < m)"
proof -
  assume m: "m < 2 ^ 64 - 1"
  have "unat (of_nat m :: u64) = m" "unat (- 1 :: u64) = 2 ^ 64 - 1"
    using m by (simp_all add: unat_of_nat unsigned_minus_1_eq_mask mask_eq_exp_minus_1)
  then show "(of_nat m :: u64) \<noteq> - 1" using m by (metis less_irrefl)
  show "(of_nat k < (of_nat m :: u64)) = (k < m)" if "k \<le> m"
    using m that by (simp add: word_less_nat_alt unat_of_nat)
qed

lemma bc_wake_all_queue:
  assumes "\<not> bc_freed s" "one_queue (bc_heap s) (bc_waiters s) ps"
  shows "\<exists>h q es. bc_wake_all s = Some (s\<lparr>bc_heap := h, bc_waiters := q, bc_wakes := bc_wakes s @ es\<rparr>)
    \<and> one_queue h q [] \<and> woken_wakers es = take 64 (map snd ps)"
proof -
  from one_queue_wake_all [OF assms(2)] obtain h q es where
    "WaitQueue_wake_all (bc_heap s, bc_waiters s) = Some (es, h, q)" "one_queue h q []"
    "woken_wakers es = take 64 (map snd ps)" by blast
  with assms(1) show ?thesis
    by (intro exI [of _ h] exI [of _ q] exI [of _ es]) (simp add: bc_wake_all_def)
qed

lemma send_rel:
  assumes rel: "bc_rel a s" and ok: "\<not> ba_closed a" "length (ba_sent a) < 2 ^ 64 - 2"
  shows "\<exists>s'. bc_step (BcSend v) s = Some (BcWoke (take 64 (map snd (ba_parked a))), s')
    \<and> bc_rel (a\<lparr>ba_sent := ba_sent a @ [v], ba_parked := []\<rparr>) s'"
proof -
  note D = bc_relD [OF rel]
  let ?s = "s\<lparr>bc_value := Some v, bc_generation := bc_generation s + 1\<rparr>"
  from bc_wake_all_queue [of ?s "ba_parked a"] D(1,8) obtain h q es where
    w: "bc_wake_all ?s = Some (?s\<lparr>bc_heap := h, bc_waiters := q, bc_wakes := bc_wakes s @ es\<rparr>)"
    "one_queue h q []" "woken_wakers es = take 64 (map snd (ba_parked a))" by auto
  let ?s' = "?s\<lparr>bc_heap := h, bc_waiters := q, bc_wakes := bc_wakes s @ es\<rparr>"
  have "bc_step (BcSend v) s = Some (BcWoke (take 64 (map snd (ba_parked a))), ?s')"
    using D(1) w by (simp add: bc_step_def bc_send_def bc_store_def bc_bump_def bc_new_wakes_def)
  moreover have "bc_recv_rel False (Suc (length (ba_sent a))) False (ba_seen a n) (bc_recv s n)" for n
    using D(10) [of n] ok(1) by (auto simp: bc_recv_rel_def split: option.splits)
  then have "bc_rel (a\<lparr>ba_sent := ba_sent a @ [v], ba_parked := []\<rparr>) ?s'"
    using D(1-6) w(2) ok by (simp add: bc_rel_def bc_refs_def)
  ultimately show ?thesis by blast
qed

lemma close_rel:
  assumes rel: "bc_rel a s" and ok: "\<not> ba_closed a" "2 \<le> bc_refs a"
  shows "\<exists>s'. bc_step BcClose s = Some (BcWoke (take 64 (map snd (ba_parked a))), s')
    \<and> bc_rel (a\<lparr>ba_closed := True, ba_parked := []\<rparr>) s'"
proof -
  note D = bc_relD [OF rel]
  let ?s = "s\<lparr>bc_generation := - 1\<rparr>"
  from bc_wake_all_queue [of ?s "ba_parked a"] D(1,8) obtain h q es where
    w: "bc_wake_all ?s = Some (?s\<lparr>bc_heap := h, bc_waiters := q, bc_wakes := bc_wakes s @ es\<rparr>)"
    "one_queue h q []" "woken_wakers es = take 64 (map snd (ba_parked a))" by auto
  have r: "bc_refcount s = of_nat (ba_receivers a)" "unat (bc_refcount s) = ba_receivers a" "2 \<le> ba_receivers a"
    using D(2,4) ok by (simp_all add: bc_refs_def unat_of_nat)
  then have "bc_refcount s \<noteq> 1" by auto
  moreover have "bc_refcount s - 1 = of_nat (ba_receivers a - 1)" using r by (simp add: of_nat_diff)
  ultimately have "bc_step BcClose s = Some (BcWoke (take 64 (map snd (ba_parked a))), 
      ?s\<lparr>bc_heap := h, bc_waiters := q, bc_wakes := bc_wakes s @ es,
        bc_refcount := of_nat (ba_receivers a - 1), bc_freed := False, bc_sender := False\<rparr>)"
    using D(1) w by (simp add: bc_step_def bc_sender_drop_def bc_release_def bc_new_wakes_def)
  moreover have "bc_recv_rel True (length (ba_sent a)) False (ba_seen a n) (bc_recv s n)" for n
    using D(10) [of n] by (auto simp: bc_recv_rel_def split: option.splits)
  then have "bc_rel (a\<lparr>ba_closed := True, ba_parked := []\<rparr>) 
      (?s\<lparr>bc_heap := h, bc_waiters := q, bc_wakes := bc_wakes s @ es,
        bc_refcount := of_nat (ba_receivers a - 1), bc_freed := False, bc_sender := False\<rparr>)"
    using D(4,5,7) w(2) r(3) by (simp add: bc_rel_def bc_refs_def)
  ultimately show ?thesis by blast
qed

lemma subscribe_rel:
  assumes rel: "bc_rel a s" and ok: "ba_seen a n = None" "ba_receivers a < 2 ^ 32 - 1"
  shows "\<exists>s'. bc_step (BcSubscribe n) s = Some (BcNothing, s')
    \<and> bc_rel (a\<lparr>ba_seen := (ba_seen a)(n \<mapsto> length (ba_sent a)), ba_receivers := ba_receivers a + 1\<rparr>) s'"
proof -
  note D = bc_relD [OF rel]
  have n: "n \<notin> fst ` set (ba_parked a)"
    using D(10) [of n] ok(1) by (auto simp: bc_recv_rel_def split: option.splits)
  have "1 \<le> ba_receivers a" "ba_closed a \<Longrightarrow> 2 \<le> ba_receivers a" using D(3) by (auto simp: bc_refs_def)
  then have "bc_refs (a\<lparr>ba_seen := X, ba_receivers := ba_receivers a + 1\<rparr>) = bc_refs a + 1" for X
    by (auto simp: bc_refs_def)
  moreover have "bc_recv_rel (ba_closed a) (length (ba_sent a)) False (Some (length (ba_sent a)))
      (Some (bc_receiver_new (bc_generation s)))"
    using D(6) by (simp add: bc_recv_rel_def bc_receiver_new_def)
  then have "bc_recv_rel (ba_closed a) (length (ba_sent a)) (m \<in> fst ` set (ba_parked a))
      (((ba_seen a)(n \<mapsto> length (ba_sent a))) m)
      (((bc_recv s)(n := Some (bc_receiver_new (bc_generation s)))) m)" for m
    using D(10) [of m] n by (cases "m = n") simp_all
  ultimately have "bc_rel (a\<lparr>ba_seen := (ba_seen a)(n \<mapsto> length (ba_sent a)), ba_receivers := ba_receivers a + 1\<rparr>)
      (s\<lparr>bc_refcount := bc_refcount s + 1, bc_recv := (bc_recv s)(n := Some (bc_receiver_new (bc_generation s))),
       bc_heap := (bc_heap s)(n := WaitNode_new)\<rparr>)"
    using D(1-7,9) ok(2) one_queue_new_node [OF D(8) n] by (simp add: bc_rel_def)
  then show ?thesis using D(1) by (simp add: bc_step_def bc_subscribe_def)
qed

lemma unpark_outside: "n \<notin> fst ` set ps \<Longrightarrow> unpark n ps = ps"
  by (auto simp: unpark_def filter_id_conv)

lemma future_drop_eq:
  assumes "\<not> bc_freed s" "bc_recv s n = Some r" "one_queue (bc_heap s) (bc_waiters s) ps"
    "\<not> br_registered r \<Longrightarrow> n \<notin> fst ` set ps"
  shows "\<exists>h q. bc_future_drop n s = Some (bc_set n (r\<lparr>br_registered := False\<rparr>) (s\<lparr>bc_heap := h, bc_waiters := q\<rparr>))
    \<and> one_queue h q (unpark n ps)"
proof (cases "br_registered r")
  case True
  from one_queue_remove [OF assms(3), of n] obtain h q where
    "WaitQueue_remove n (bc_heap s, bc_waiters s) = (h, q)" "one_queue h q (unpark n ps)" by blast
  with True assms(1,2) show ?thesis
    by (intro exI [of _ h] exI [of _ q]) (simp add: bc_future_drop_def bc_unregister_def)
next
  case False
  have "r\<lparr>br_registered := False\<rparr> = r" using False by simp
  moreover have "(bc_recv s)(n := Some r) = bc_recv s" using assms(2) by auto
  ultimately have "bc_set n (r\<lparr>br_registered := False\<rparr>) (s\<lparr>bc_heap := bc_heap s, bc_waiters := bc_waiters s\<rparr>) = s"
    by (simp add: bc_set_def)
  with False assms unpark_outside [of n ps] show ?thesis
    by (intro exI [of _ "bc_heap s"] exI [of _ "bc_waiters s"]) (simp add: bc_future_drop_def)
qed

text \<open>A receiver without a future that has seen \<open>k\<close> values.\<close>

lemma finish_rel:
  assumes rel: "bc_rel a s" and q: "one_queue h q (unpark n (ba_parked a))"
    and r: "\<not> br_registered r" "k \<le> length (ba_sent a)" "\<not> ba_closed a \<Longrightarrow> br_last_seen r = of_nat k"
  shows "bc_rel (a\<lparr>ba_parked := unpark n (ba_parked a), ba_seen := (ba_seen a)(n \<mapsto> k)\<rparr>)
    (bc_set n r (s\<lparr>bc_heap := h, bc_waiters := q\<rparr>))"
proof -
  note D = bc_relD [OF rel]
  have "bc_recv_rel (ba_closed a) (length (ba_sent a)) (m \<in> fst ` set (unpark n (ba_parked a)))
      (((ba_seen a)(n \<mapsto> k)) m) (((bc_recv s)(n := Some r)) m)" for m
  proof (cases "m = n")
    case True
    then show ?thesis using r by (auto simp: bc_recv_rel_def unpark_def)
  next
    case False
    then have "m \<in> fst ` set (unpark n (ba_parked a)) \<longleftrightarrow> m \<in> fst ` set (ba_parked a)"
      by (auto simp: unpark_def)
    then show ?thesis using D(10) [of m] False by simp
  qed
  moreover have "ba_closed a \<Longrightarrow> unpark n (ba_parked a) = []" using D(9) by (simp add: unpark_def)
  ultimately show ?thesis using D(1-7) q by (simp add: bc_rel_def bc_set_def bc_refs_def)
qed

lemma seen_receiver:
  assumes "bc_rel a s" "ba_seen a n = Some k"
  obtains r where "bc_recv s n = Some r" "k \<le> length (ba_sent a)"
    "n \<in> fst ` set (ba_parked a) \<Longrightarrow> k = length (ba_sent a) \<and> br_registered r"
    "\<not> ba_closed a \<Longrightarrow> br_last_seen r = of_nat k"
    "\<not> ba_closed a \<Longrightarrow> br_registered r \<Longrightarrow> n \<notin> fst ` set (ba_parked a) \<Longrightarrow> k < length (ba_sent a)"
  using bc_relD(10) [OF assms(1), of n] assms(2) by (auto simp: bc_recv_rel_def split: option.splits)

lemma cancel_rel:
  assumes rel: "bc_rel a s" and k: "ba_seen a n = Some k"
  shows "\<exists>s' r. bc_future_drop n s = Some s' \<and> bc_recv s' n = Some r \<and> \<not> br_registered r
    \<and> bc_rel (a\<lparr>ba_parked := unpark n (ba_parked a)\<rparr>) s'"
proof -
  note D = bc_relD [OF rel]
  from seen_receiver [OF rel k] obtain r where r: "bc_recv s n = Some r" "k \<le> length (ba_sent a)"
    "n \<in> fst ` set (ba_parked a) \<Longrightarrow> br_registered r" "\<not> ba_closed a \<Longrightarrow> br_last_seen r = of_nat k" by metis
  from future_drop_eq [OF D(1) r(1) D(8)] r(3) obtain h q where
    f: "bc_future_drop n s = Some (bc_set n (r\<lparr>br_registered := False\<rparr>) (s\<lparr>bc_heap := h, bc_waiters := q\<rparr>))"
    "one_queue h q (unpark n (ba_parked a))" by blast
  have "(ba_seen a)(n \<mapsto> k) = ba_seen a" using k by auto
  with finish_rel [OF rel f(2), of "r\<lparr>br_registered := False\<rparr>" k] r(2,4)
  have "bc_rel (a\<lparr>ba_parked := unpark n (ba_parked a)\<rparr>)
    (bc_set n (r\<lparr>br_registered := False\<rparr>) (s\<lparr>bc_heap := h, bc_waiters := q\<rparr>))" by simp
  with f(1) show ?thesis by (auto simp: bc_set_def)
qed

lemma drop_rel:
  assumes rel: "bc_rel a s" and k: "ba_seen a n = Some k" and refs: "2 \<le> bc_refs a"
  shows "\<exists>s'. bc_step (BcDrop n) s = Some (BcNothing, s')
    \<and> bc_rel (a\<lparr>ba_parked := unpark n (ba_parked a), ba_seen := (ba_seen a)(n := None), ba_receivers := ba_receivers a - 1\<rparr>) s'"
proof -
  from cancel_rel [OF rel k] obtain s1 r where s1: "bc_future_drop n s = Some s1" "bc_recv s1 n = Some r" "\<not> br_registered r"
    "bc_rel (a\<lparr>ba_parked := unpark n (ba_parked a)\<rparr>) s1" by blast
  let ?a = "a\<lparr>ba_parked := unpark n (ba_parked a)\<rparr>"
  note D = bc_relD [OF s1(4)]
  have c: "bc_refcount s1 = of_nat (bc_refs a)" using D(2) by (simp add: bc_refs_def)
  have less: "bc_refs a < 2 ^ 32" using D(4) by (auto simp: bc_refs_def)
  have "unat (bc_refcount s1) = bc_refs a" using less by (simp add: c unat_of_nat)
  then have "bc_refcount s1 \<noteq> 1" using refs by auto
  moreover have "bc_refcount s1 - 1 = of_nat (bc_refs a - 1)" using c refs by (simp add: of_nat_diff)
  ultimately have step: "bc_step (BcDrop n) s = Some (BcNothing, s1\<lparr>bc_refcount := of_nat (bc_refs a - 1),
      bc_freed := False, bc_recv := (bc_recv s1)(n := None)\<rparr>)"
    using D(1) s1(1) by (simp add: bc_step_def bc_receiver_drop_def bc_release_def)
  have n: "n \<notin> fst ` set (unpark n (ba_parked a))" by (auto simp: unpark_def)
  then have "bc_recv_rel (ba_closed a) (length (ba_sent a)) (m \<in> fst ` set (unpark n (ba_parked a)))
      (((ba_seen a)(n := None)) m) (((bc_recv s1)(n := None)) m)" for m
    using D(10) [of m] by (cases "m = n") (simp_all add: bc_recv_rel_def)
  moreover have "bc_refs (a\<lparr>ba_parked := X, ba_seen := Y, ba_receivers := ba_receivers a - 1\<rparr>) = bc_refs a - 1" for X Y
    by (simp add: bc_refs_def)
  moreover have "1 \<le> bc_refs a - 1" "ba_receivers a - 1 < 2 ^ 32" using refs D(4) by simp_all
  ultimately show ?thesis using step D(5-9) by (simp add: bc_rel_def)
qed

text \<open>A wait for a value: on a closed channel, with a value to take, and with none, where the receiver parks.\<close>

abbreviation await_good :: "addr \<Rightarrow> 'w \<Rightarrow> nat \<Rightarrow> ('a, 'w) bc_abs \<Rightarrow> ('a, 'w) bc_sys \<Rightarrow> bool" where
  "await_good n w k a s \<equiv> \<exists>s'. bc_step (BcAwait n w) s = Some (fst (ba_await n w k a), s')
     \<and> bc_rel (snd (ba_await n w k a)) s'"

lemma await_generation:
  assumes rel: "bc_rel a s" and k: "ba_seen a n = Some k" and open_bc: "\<not> ba_closed a"
  shows "bc_generation s = of_nat (length (ba_sent a))" "of_nat (length (ba_sent a)) \<noteq> (- 1 :: u64)"
    "(of_nat k < (of_nat (length (ba_sent a)) :: u64)) = (k < length (ba_sent a))"
proof -
  note D = bc_relD [OF rel]
  have "k \<le> length (ba_sent a)" using seen_receiver [OF rel k] by metis
  then show "bc_generation s = of_nat (length (ba_sent a))" "of_nat (length (ba_sent a)) \<noteq> (- 1 :: u64)"
    "(of_nat k < (of_nat (length (ba_sent a)) :: u64)) = (k < length (ba_sent a))"
    using D(6) open_bc gen_small [OF D(5)] by simp_all
qed

lemma await_closed:
  assumes rel: "bc_rel a s" and k: "ba_seen a n = Some k" and closed: "ba_closed a"
  shows "await_good n w k a s"
proof -
  note D = bc_relD [OF rel]
  obtain r where r: "bc_recv s n = Some r" using seen_receiver [OF rel k] by metis
  from cancel_rel [OF rel k] obtain s' where "bc_future_drop n s = Some s'"
    "bc_rel (a\<lparr>ba_parked := unpark n (ba_parked a)\<rparr>) s'" by blast
  moreover have "a\<lparr>ba_parked := unpark n (ba_parked a)\<rparr> = a" using D(9) [OF closed] by (simp add: unpark_def)
  ultimately show ?thesis
    using closed D(1,6) r by (simp add: bc_step_def bc_await_def bc_poll_def bc_load_def ba_await_def)
qed

lemma await_takes:
  assumes rel: "bc_rel a s" and k: "ba_seen a n = Some k" and open_bc: "\<not> ba_closed a"
    and new: "k < length (ba_sent a)"
  shows "await_good n w k a s"
proof -
  let ?m = "length (ba_sent a)"
  note D = bc_relD [OF rel] and gen = await_generation [OF rel k open_bc]
  from seen_receiver [OF rel k] obtain r where r: "bc_recv s n = Some r"
    "n \<in> fst ` set (ba_parked a) \<Longrightarrow> k = ?m" "br_last_seen r = of_nat k" using open_bc by metis
  then have n: "n \<notin> fst ` set (ba_parked a)" using new by auto
  let ?r = "r\<lparr>br_last_seen := of_nat ?m\<rparr>"
  have v: "bc_value s = Some (last (ba_sent a))" by (rule D(7)) (use new in auto)
  have "bc_recv (bc_set n ?r s) n = Some ?r" by (simp add: bc_set_def)
  from future_drop_eq [OF _ this, of "ba_parked a"] D(1,8) n obtain h q where
    f: "bc_future_drop n (bc_set n ?r s) = Some (bc_set n (?r\<lparr>br_registered := False\<rparr>)
        ((bc_set n ?r s)\<lparr>bc_heap := h, bc_waiters := q\<rparr>))" "one_queue h q (unpark n (ba_parked a))"
    by (auto simp: bc_set_def)
  have "bc_step (BcAwait n w) s = Some (BcGot (last (ba_sent a)), bc_set n (?r\<lparr>br_registered := False\<rparr>)
        (s\<lparr>bc_heap := h, bc_waiters := q\<rparr>))"
    using gen new D(1) r(1,3) v f(1)
    by (simp add: bc_step_def bc_await_def bc_poll_def bc_load_def bc_take_def bc_set_def)
  moreover have "bc_rel (a\<lparr>ba_parked := unpark n (ba_parked a), ba_seen := (ba_seen a)(n \<mapsto> ?m)\<rparr>)
      (bc_set n (?r\<lparr>br_registered := False\<rparr>) (s\<lparr>bc_heap := h, bc_waiters := q\<rparr>))"
    by (rule finish_rel [OF rel f(2)]) simp_all
  ultimately show ?thesis using new open_bc unpark_outside [OF n] by (simp add: ba_await_def)
qed

lemma await_parks:
  assumes rel: "bc_rel a s" and k: "ba_seen a n = Some k" and open_bc: "\<not> ba_closed a"
    and km: "k = length (ba_sent a)"
  shows "await_good n w k a s"
proof -
  let ?m = "length (ba_sent a)" and ?h = "put_node n (WaitNode_set_waker w) (bc_heap s)"
  note D = bc_relD [OF rel] and gen = await_generation [OF rel k open_bc]
  from seen_receiver [OF rel k] obtain r where r: "bc_recv s n = Some r"
    "n \<in> fst ` set (ba_parked a) \<Longrightarrow> br_registered r" "br_last_seen r = of_nat k"
    "br_registered r \<Longrightarrow> n \<notin> fst ` set (ba_parked a) \<Longrightarrow> k < ?m" using open_bc by metis
  from one_queue_set_waker [OF D(8), of n w] have q: "one_queue ?h (bc_waiters s) (repark n w (ba_parked a))" .
  have poll: "bc_poll n w s = bc_park n w s \<bind> bc_recheck n"
    using gen D(1) r(1,3) km by (simp add: bc_poll_def bc_load_def)
  have again: "bc_recheck n s' = Some (None, s')"
    if "\<not> bc_freed s'" "bc_generation s' = of_nat ?m" "bc_recv s' n = Some r'" "br_last_seen r' = of_nat k" for s' r'
    using that gen km by (simp add: bc_recheck_def bc_load_def)
  show ?thesis
  proof (cases "n \<in> fst ` set (ba_parked a)")
    case True
    let ?s = "s\<lparr>bc_heap := ?h\<rparr>"
    have "bc_park n w s = Some ?s" using r(1,2) True by (simp add: bc_park_def)
    moreover have "bc_recheck n ?s = Some (None, ?s)"
      by (rule again) (use D(1) gen(1) r(1,3) in simp_all)
    moreover have "bc_rel (a\<lparr>ba_parked := repark n w (ba_parked a)\<rparr>) ?s"
      using D(1-7,9,10) q open_bc by (simp add: bc_rel_def repark_simps(2) bc_refs_def)
    ultimately show ?thesis
      using poll True km open_bc by (simp add: bc_step_def bc_await_def ba_await_def)
  next
    case out: False
    have nr: "\<not> br_registered r" using r(4) [OF _ out] km by auto
    have "wn_waker (?h n) = Some w" by (simp add: WaitNode_set_waker_def)
    from one_queue_enqueue [OF q [unfolded repark_simps(3) [OF out]] out this] obtain h q' where
      e: "WaitQueue_enqueue n (?h, bc_waiters s) = Some (h, q')" "one_queue h q' (ba_parked a @ [(n, w)])" by blast
    let ?s = "bc_set n (r\<lparr>br_registered := True\<rparr>) (s\<lparr>bc_heap := h, bc_waiters := q'\<rparr>)"
    have "bc_park n w s = Some ?s" using r(1) nr D(1) e(1) by (simp add: bc_park_def bc_set_def)
    moreover have "bc_recheck n ?s = Some (None, ?s)"
      using again [of ?s] D(1) gen(1) r(3) by (simp add: bc_set_def)
    moreover have "bc_recv_rel False ?m (m \<in> fst ` set (ba_parked a @ [(n, w)])) (ba_seen a m)
        (((bc_recv s)(n := Some (r\<lparr>br_registered := True\<rparr>))) m)" for m
      using D(10) [of m] open_bc k km r(3) by (cases "m = n") (simp_all add: bc_recv_rel_def)
    then have "bc_rel (a\<lparr>ba_parked := ba_parked a @ [(n, w)]\<rparr>) ?s"
      using D(1-7) e(2) open_bc by (simp add: bc_rel_def bc_set_def bc_refs_def)
    ultimately show ?thesis
      using poll out km open_bc by (simp add: bc_step_def bc_await_def ba_await_def)
  qed
qed

lemma await_rel:
  assumes rel: "bc_rel a s" and k: "ba_seen a n = Some k"
  shows "await_good n w k a s"
proof -
  have "k \<le> length (ba_sent a)" using seen_receiver [OF rel k] by metis
  then show ?thesis
    using await_closed [OF assms] await_takes [OF assms] await_parks [OF assms] by (meson le_neq_implies_less)
qed

lemma bc_step_refines:
  assumes rel: "bc_rel a s" and x: "ba_step x a = Some (r, a')"
  shows "\<exists>s'. bc_step x s = Some (r, s') \<and> bc_rel a' s'"
proof (cases x)
  case (BcSend v)
  with x send_rel [OF rel, of v] show ?thesis by (auto simp: ba_step_def not_le split: if_splits)
next
  case BcClose
  with x close_rel [OF rel] show ?thesis by (auto simp: ba_step_def not_less split: if_splits)
next
  case (BcSubscribe n)
  with x subscribe_rel [OF rel, of n] show ?thesis by (auto simp: ba_step_def not_le split: if_splits)
next
  case (BcAwait n w)
  with x obtain k where "ba_seen a n = Some k" "ba_await n w k a = (r, a')" by (auto simp: ba_step_def)
  with await_rel [OF rel this(1), of w] BcAwait show ?thesis by simp
next
  case (BcCancel n)
  with x obtain k where k: "ba_seen a n = Some k" "r = BcNothing" "a' = a\<lparr>ba_parked := unpark n (ba_parked a)\<rparr>"
    by (auto simp: ba_step_def)
  from cancel_rel [OF rel k(1)] obtain s' where "bc_future_drop n s = Some s'" "bc_rel a' s'" using k(3) by blast
  with BcCancel k(2) show ?thesis by (simp add: bc_step_def)
next
  case (BcDrop n)
  with x drop_rel [OF rel, of n] show ?thesis by (auto simp: ba_step_def not_less split: if_splits)
qed

text \<open>
  C18: As long as two halves stay alive, operations that do not overlap implement the abstract
  broadcast: a receiver that awaits gets the latest value if anything was sent since it last got
  one, an older value is skipped; otherwise it is parked. A send, and closing, wakes exactly the
  parked receivers, but only the first 64 of them. After closing every receiver sees only that,
  even one that has not got the last value yet. Nothing panics and the shared box is never
  touched after its end.
\<close>

theorem broadcast_refines:
  assumes "run_ops ba_step xs (ba_init n) = Some (rs, a)"
  shows "\<exists>s. run_ops bc_step xs (broadcast n) = Some (rs, s) \<and> bc_rel a s"
  using run_ops_refines [where rel = "\<lambda>s a. bc_rel a s" and step = bc_step, OF assms bc_rel_init] bc_step_refines
  by blast

text \<open>
  C38: The box is freed too early. The count starts at 1 for two halves, so whichever half goes first
  frees the box; the other half then works on freed memory, whatever it does.
\<close>

theorem broadcast_freed_early:
  "\<exists>s1 s2. bc_sender_drop (broadcast n) = Some s1 \<and> bc_freed s1 \<and> bc_recv s1 n \<noteq> None
    \<and> bc_poll n w s1 = None \<and> bc_receiver_drop n s1 = None \<and> bc_subscribe m s1 = None
    \<and> bc_receiver_drop n (broadcast n) = Some s2 \<and> bc_freed s2 \<and> bc_sender s2
    \<and> bc_send v s2 = None \<and> bc_sender_drop s2 = None"
proof -
  let ?s = "(broadcast n :: ('a, 'b) bc_sys)\<lparr>bc_generation := - 1\<rparr>"
  have "one_queue (bc_heap ?s) (bc_waiters ?s) []" by (simp add: broadcast_def one_queue_new)
  from bc_wake_all_queue [OF _ this] obtain h q es where
    "bc_wake_all ?s = Some (?s\<lparr>bc_heap := h, bc_waiters := q, bc_wakes := bc_wakes ?s @ es\<rparr>)"
    by (auto simp: broadcast_def)
  then show ?thesis
    by (simp add: bc_sender_drop_def bc_release_def bc_receiver_drop_def broadcast_def bc_poll_def bc_load_def
        bc_subscribe_def bc_send_def bc_store_def)
qed

text \<open>
  The value is not read together with its generation. When a send comes between the two, the
  receiver gets the new value under the old generation, and gets it once more at the next poll,
  while the value it was about to read is gone.
\<close>

theorem broadcast_duplicates:
  assumes rel: "bc_rel a s" and k: "ba_seen a n = Some k" "k < length (ba_sent a)"
    and ok: "\<not> ba_closed a" "length (ba_sent a) < 2 ^ 64 - 2"
  shows "\<exists>gen s1 s2 s3. bc_load s = Some gen \<and> bc_send v s = Some s1 \<and> bc_take n gen s1 = Some (v, s2)
    \<and> bc_poll n w s2 = Some (Some (Inr v), s3)"
proof -
  from send_rel [OF rel ok, of v] obtain s1 where s1: "bc_send v s = Some s1"
    "bc_rel (a\<lparr>ba_sent := ba_sent a @ [v], ba_parked := []\<rparr>) s1"
    by (auto simp: bc_step_def split: option.splits simp: bind_eq_Some_conv)
  note D = bc_relD [OF rel] and D1 = bc_relD [OF s1(2)]
  let ?m = "length (ba_sent a)"
  have load: "bc_load s = Some (of_nat ?m)" using D(1,6) ok(1) by (simp add: bc_load_def)
  have v: "bc_value s1 = Some v" using D1(7) by simp
  obtain r where r: "bc_recv s1 n = Some r"
    using seen_receiver [OF s1(2), of n k] k(1) by (metis bc_abs.select_convs(2) bc_abs.update_convs(1,3) bc_abs.surjective)
  have gen: "bc_generation s1 = of_nat (Suc ?m)" "of_nat (Suc ?m) \<noteq> (- 1 :: u64)" "(of_nat ?m :: u64) < of_nat (Suc ?m)"
    using D1(6) ok gen_small [of "Suc ?m"] by simp_all
  show ?thesis
    using load s1(1) v r gen D1(1) by (simp add: bc_take_def bc_poll_def bc_load_def bc_set_def)
qed

section \<open>Concrete runs\<close>

lemmas ba_exec = ba_step_def ba_init_def ba_await_def bc_refs_def repark_def unpark_def

theorem broadcast_refines_witness:
  "\<exists>s. run_ops bc_step [BcAwait 3 11, BcSubscribe 5, BcSend 7, BcAwait 3 13, BcClose, BcAwait 5 17]
      (broadcast 3 :: (nat, nat) bc_sys)
    = Some ([BcNothing, BcNothing, BcWoke [11], BcGot 7, BcWoke [], BcSawClosed], s)"
proof -
  obtain a where "run_ops ba_step [BcAwait 3 11, BcSubscribe 5, BcSend 7, BcAwait 3 13, BcClose, BcAwait 5 17]
      (ba_init 3 :: (nat, nat) bc_abs)
    = Some ([BcNothing, BcNothing, BcWoke [11], BcGot 7, BcWoke [], BcSawClosed], a)"
    by (simp add: ba_exec)
  from broadcast_refines [OF this] show ?thesis by blast
qed

theorem broadcast_duplicates_witness:
  "\<exists>(s :: (nat, nat) bc_sys) s1 s2 s3. bc_value s = Some 7 \<and> bc_load s = Some 1 \<and> bc_send 9 s = Some s1
    \<and> bc_take 3 1 s1 = Some (9, s2) \<and> bc_poll 3 11 s2 = Some (Some (Inr 9), s3)"
proof -
  obtain a where a: "ba_step (BcSend 7) (ba_init 3 :: (nat, nat) bc_abs) = Some (BcWoke [], a)"
    "ba_sent a = [7]" "ba_seen a 3 = Some 0" "\<not> ba_closed a"
    by (simp add: ba_exec)
  from bc_step_refines [OF bc_rel_init a(1)] obtain s where s: "bc_rel a s" by blast
  have "bc_load s = Some 1" "bc_value s = Some 7"
    using bc_relD(1,6,7) [OF s] a(2,4) by (simp_all add: bc_load_def)
  with broadcast_duplicates [OF s a(3), of 9 11] a(2,4) show ?thesis by auto
qed

end
