(* ===== verification/BroadcastRuns.thy ===== *)
theory BroadcastRuns
  imports Broadcast
begin

text \<open>
  The broadcast channel, \<open>src/primitives/broadcast.rs\<close>, with the sender and any number of receivers on
  different cores: each access to the generation, the value and the wait queue is a step of its own.
  The halves stay alive: the reference count is the subject of \<open>Broadcast\<close>. Storing the value and
  cloning it are one step each here; that nothing keeps them apart is shown at the end.
\<close>

section \<open>The accesses\<close>

datatype 'a bs_pc = BSIdle | BSStore 'a | BSBump | BSWake | BSClose | BSCloseWake | BSClosed

text \<open>
  A receiver between and inside the polls of \<open>recv().await\<close>: \<open>BRDrop\<close> drops the future, which is
  ready or cancelled; \<open>BRUnlink\<close> leaves the queue, for the value of a generation or since the channel
  is closed.
\<close>

datatype 'w br_pc = BRIdle | BRLook 'w | BRTake u64 | BRPark 'w | BRRecheck | BRUnlink "u64 option" | BRDrop

text \<open>The values are logged when they are stored, and with their number when a receiver clones them.\<close>

record ('a, 'w) bx =
  bx_sys :: "('a, 'w) bc_sys"
  bx_snd :: "'a bs_pc"
  bx_rcv :: "addr \<Rightarrow> 'w br_pc"
  bx_sent :: "'a list"
  bx_got :: "addr \<Rightarrow> (nat \<times> 'a) list"

definition bx_goto :: "addr \<Rightarrow> 'w br_pc \<Rightarrow> ('a, 'w) bx \<Rightarrow> ('a, 'w) bx" where
  "bx_goto n pc s = s\<lparr>bx_rcv := (bx_rcv s)(n := pc)\<rparr>"

text \<open>\<open>Sender::send\<close> and, up to the reference count, \<open>Sender::drop\<close>.\<close>

fun bs_step :: "'a bs_pc \<Rightarrow> ('a, 'w) bx \<Rightarrow> ('a, 'w) bx option" where
  "bs_step BSIdle s = Some s"
| "bs_step (BSStore v) s = do { t \<leftarrow> bc_store v (bx_sys s);
     Some (s\<lparr>bx_sys := t, bx_snd := BSBump, bx_sent := bx_sent s @ [v]\<rparr>) }"
| "bs_step BSBump s = do { t \<leftarrow> bc_bump (bx_sys s); Some (s\<lparr>bx_sys := t, bx_snd := BSWake\<rparr>) }"
| "bs_step BSWake s = do { t \<leftarrow> bc_wake_all (bx_sys s); Some (s\<lparr>bx_sys := t, bx_snd := BSIdle\<rparr>) }"
| "bs_step BSClose s = Some (s\<lparr>bx_sys := (bx_sys s)\<lparr>bc_generation := - 1\<rparr>, bx_snd := BSCloseWake\<rparr>)"
| "bs_step BSCloseWake s = do { t \<leftarrow> bc_wake_all (bx_sys s); Some (s\<lparr>bx_sys := t, bx_snd := BSClosed\<rparr>) }"
| "bs_step BSClosed s = Some s"

text \<open>\<open>BroadcastRecvFuture::poll\<close> and its drop, of the receiver at \<open>n\<close>.\<close>

fun br_step :: "addr \<Rightarrow> 'w br_pc \<Rightarrow> ('a, 'w) bx \<Rightarrow> ('a, 'w) bx option" where
  "br_step n BRIdle s = Some s"
| "br_step n (BRLook w) s = do { gen \<leftarrow> bc_load (bx_sys s); r \<leftarrow> bc_recv (bx_sys s) n;
     Some (bx_goto n (if gen = - 1 then BRDrop else if br_last_seen r < gen then BRTake gen else BRPark w) s) }"
| "br_step n (BRTake gen) s = do { (v, t) \<leftarrow> bc_take n gen (bx_sys s);
     Some (bx_goto n BRDrop (s\<lparr>bx_sys := t,
       bx_got := (bx_got s)(n := bx_got s n @ [(length (bx_sent s) - 1, v)])\<rparr>)) }"
| "br_step n (BRPark w) s = do { t \<leftarrow> bc_park n w (bx_sys s); Some (bx_goto n BRRecheck (s\<lparr>bx_sys := t\<rparr>)) }"
| "br_step n BRRecheck s = do { gen \<leftarrow> bc_load (bx_sys s); r \<leftarrow> bc_recv (bx_sys s) n;
     Some (bx_goto n (if gen = - 1 then BRUnlink None
       else if br_last_seen r < gen then BRUnlink (Some gen) else BRIdle) s) }"
| "br_step n (BRUnlink gen) s = do { t \<leftarrow> bc_unregister n (bx_sys s);
     Some (bx_goto n (case gen of None \<Rightarrow> BRDrop | Some g \<Rightarrow> BRTake g) (s\<lparr>bx_sys := t\<rparr>)) }"
| "br_step n BRDrop s = do { t \<leftarrow> bc_future_drop n (bx_sys s); Some (bx_goto n BRIdle (s\<lparr>bx_sys := t\<rparr>)) }"

text \<open>
  What the owners start, and the steps. An event that ownership rules out has no effect: a send
  during a send or after the sender is gone, a poll during a poll or of a receiver that does not
  exist, a second receiver at an address.
\<close>

datatype ('a, 'w) bx_event =
  BxSend 'a | BxClose | BxSender | BxSubscribe addr | BxPoll addr 'w | BxCancel addr | BxReceiver addr

fun bs_idle :: "'a bs_pc \<Rightarrow> bool" where
  "bs_idle BSIdle = True" | "bs_idle _ = False"

fun br_idle :: "'w br_pc \<Rightarrow> bool" where
  "br_idle BRIdle = True" | "br_idle _ = False"

definition bx_ready :: "addr \<Rightarrow> ('a, 'w) bx \<Rightarrow> bool" where
  "bx_ready n s \<longleftrightarrow> br_idle (bx_rcv s n) \<and> bc_recv (bx_sys s) n \<noteq> None"

definition bx_step :: "('a, 'w) bx_event \<Rightarrow> ('a, 'w) bx \<Rightarrow> ('a, 'w) bx option" where
  "bx_step e s = (case e of
     BxSend v \<Rightarrow> Some (if bs_idle (bx_snd s) then s\<lparr>bx_snd := BSStore v\<rparr> else s)
   | BxClose \<Rightarrow> Some (if bs_idle (bx_snd s) then s\<lparr>bx_snd := BSClose\<rparr> else s)
   | BxSender \<Rightarrow> bs_step (bx_snd s) s
   | BxSubscribe n \<Rightarrow> if bc_recv (bx_sys s) n = None
       then do { t \<leftarrow> bc_subscribe n (bx_sys s); Some (s\<lparr>bx_sys := t\<rparr>) } else Some s
   | BxPoll n w \<Rightarrow> Some (if bx_ready n s then bx_goto n (BRLook w) s else s)
   | BxCancel n \<Rightarrow> Some (if bx_ready n s then bx_goto n BRDrop s else s)
   | BxReceiver n \<Rightarrow> br_step n (bx_rcv s n) s)"

abbreviation bx_run :: "('a, 'w) bx_event list \<Rightarrow> ('a, 'w) bx \<Rightarrow> ('a, 'w) bx option" where
  "bx_run \<equiv> event_run bx_step"

definition bx_init :: "addr \<Rightarrow> ('a, 'w) bx" where
  "bx_init n = \<lparr>bx_sys = broadcast n, bx_snd = BSIdle, bx_rcv = (\<lambda>_. BRIdle), bx_sent = [], bx_got = (\<lambda>_. [])\<rparr>"

section \<open>The invariant\<close>

text \<open>
  The generation counts the values that are stored and announced, until it is closed. A receiver
  lags behind it. One that is about to take a value of a generation has not seen it, and there is a
  value. A queued receiver is registered and has seen the generation, unless the sender is about to
  wake it or it has yet to look again or to leave.
\<close>

fun bs_ahead :: "'a bs_pc \<Rightarrow> nat" where
  "bs_ahead BSBump = 1" | "bs_ahead _ = 0"

fun bs_over :: "'a bs_pc \<Rightarrow> bool" where
  "bs_over BSCloseWake = True" | "bs_over BSClosed = True" | "bs_over _ = False"

fun bs_waking :: "'a bs_pc \<Rightarrow> bool" where
  "bs_waking BSWake = True" | "bs_waking BSCloseWake = True" | "bs_waking _ = False"

fun br_takes :: "'w br_pc \<Rightarrow> u64 option" where
  "br_takes (BRTake g) = Some g" | "br_takes (BRUnlink g) = g" | "br_takes _ = None"

fun br_waits :: "'w br_pc \<Rightarrow> bool" where
  "br_waits BRIdle = True" | "br_waits (BRLook w) = True" | "br_waits (BRPark w) = True" | "br_waits _ = False"

definition bx_values :: "('a, 'w) bc_sys \<Rightarrow> 'a bs_pc \<Rightarrow> 'a list \<Rightarrow> bool" where
  "bx_values t p sent \<longleftrightarrow> \<not> bc_freed t
     \<and> (\<not> bs_over p \<longrightarrow> bc_generation t = of_nat (length sent - bs_ahead p)) \<and> (bs_over p \<longrightarrow> bc_generation t = - 1)
     \<and> bs_ahead p \<le> length sent \<and> (sent \<noteq> [] \<longrightarrow> bc_value t = Some (last sent))"

definition bx_receiver :: "u64 \<Rightarrow> bool \<Rightarrow> 'a list \<Rightarrow> bool \<Rightarrow> 'w br_pc \<Rightarrow> bc_receiver option \<Rightarrow> bool" where
  "bx_receiver gen waking sent queued pc r \<longleftrightarrow> (case r of
     None \<Rightarrow> \<not> queued \<and> pc = BRIdle
   | Some r \<Rightarrow> br_last_seen r \<le> gen
       \<and> (\<forall>g. br_takes pc = Some g \<longrightarrow> g \<le> gen \<and> sent \<noteq> [])
       \<and> (queued \<longrightarrow> br_registered r \<and> (br_waits pc \<longrightarrow> br_last_seen r = gen \<or> waking)))"

definition bx_inv :: "('a, 'w) bx \<Rightarrow> (addr \<times> 'w) list \<Rightarrow> bool" where
  "bx_inv s ps \<longleftrightarrow> bx_values (bx_sys s) (bx_snd s) (bx_sent s)
     \<and> one_queue (bc_heap (bx_sys s)) (bc_waiters (bx_sys s)) ps
     \<and> (\<forall>n. bx_receiver (bc_generation (bx_sys s)) (bs_waking (bx_snd s)) (bx_sent s) (n \<in> fst ` set ps) (bx_rcv s n) (bc_recv (bx_sys s) n))
     \<and> (\<forall>n. (\<forall>p \<in> set (bx_got s n). fst p < length (bx_sent s) \<and> snd p = bx_sent s ! fst p)
          \<and> sorted (map fst (bx_got s n)))"

lemma bx_invD:
  assumes "bx_inv s ps"
  shows "bx_values (bx_sys s) (bx_snd s) (bx_sent s)"
    "one_queue (bc_heap (bx_sys s)) (bc_waiters (bx_sys s)) ps"
    "\<And>n. bx_receiver (bc_generation (bx_sys s)) (bs_waking (bx_snd s)) (bx_sent s) (n \<in> fst ` set ps) (bx_rcv s n) (bc_recv (bx_sys s) n)"
    "\<And>n p. p \<in> set (bx_got s n) \<Longrightarrow> fst p < length (bx_sent s) \<and> snd p = bx_sent s ! fst p"
    "\<And>n. sorted (map fst (bx_got s n))"
  using assms unfolding bx_inv_def by blast+


text \<open>A receiver moves on.\<close>

lemma bx_goto_inv:
  assumes "bx_inv s ps" and "\<And>r. bc_recv (bx_sys s) n = Some r \<Longrightarrow>
      bx_receiver (bc_generation (bx_sys s)) (bs_waking (bx_snd s)) (bx_sent s) (n \<in> fst ` set ps) pc (Some r)"
    and "bc_recv (bx_sys s) n \<noteq> None"
  shows "bx_inv (bx_goto n pc s) ps"
  using assms unfolding bx_inv_def bx_goto_def by auto

text \<open>The state of one receiver and the queue change.\<close>

lemma bx_sys_inv:
  assumes inv: "bx_inv s ps" and t: "t = (bx_sys s)\<lparr>bc_heap := h, bc_waiters := q, bc_recv := (bc_recv (bx_sys s))(n := Some r)\<rparr>"
    and q: "one_queue h q ps'" and others: "\<And>m. m \<noteq> n \<Longrightarrow> m \<in> fst ` set ps' \<longleftrightarrow> m \<in> fst ` set ps"
    and r: "bx_receiver (bc_generation (bx_sys s)) (bs_waking (bx_snd s)) (bx_sent s) (n \<in> fst ` set ps') pc (Some r)"
  shows "bx_inv (bx_goto n pc (s\<lparr>bx_sys := t\<rparr>)) ps'"
proof -
  have "bx_values t p sent = bx_values (bx_sys s) p sent" for p sent by (simp add: t bx_values_def)
  then show ?thesis
    using inv q r others unfolding bx_inv_def bx_goto_def by (auto simp: t)
qed

text \<open>The accesses of the sender.\<close>

lemma bs_step_inv:
  assumes inv: "bx_inv s ps" and bound: "length (bx_sent s) + 1 < 2 ^ 64 - 1"
  shows "\<exists>s' ps'. bs_step (bx_snd s) s = Some s' \<and> bx_inv s' ps' \<and> length (bx_sent s') \<le> length (bx_sent s) + 1"
proof -
  note I = bx_invD [OF inv]
  have freed: "\<not> bc_freed (bx_sys s)" using I(1) by (simp add: bx_values_def)
  have wake: "\<exists>t. bc_wake_all (bx_sys s) = Some t \<and> bx_inv (s\<lparr>bx_sys := t, bx_snd := p\<rparr>) []"
    if p: "bs_ahead p = bs_ahead (bx_snd s)" "bs_over p = bs_over (bx_snd s)" for p
  proof -
    from bc_wake_all_queue [OF freed I(2)] obtain h q es where
      w: "bc_wake_all (bx_sys s) = Some ((bx_sys s)\<lparr>bc_heap := h, bc_waiters := q, bc_wakes := bc_wakes (bx_sys s) @ es\<rparr>)"
      "one_queue h q []" by blast
    have "bx_receiver (bc_generation (bx_sys s)) w (bx_sent s) False (bx_rcv s n) (bc_recv (bx_sys s) n)" for n w
      using I(3) [of n] by (auto simp: bx_receiver_def split: option.splits)
    then show ?thesis
      using w I(1,4,5) p by (simp add: bx_inv_def bx_values_def)
  qed
  show ?thesis
  proof (cases "bx_snd s")
    case (BSStore v)
    let ?t = "(bx_sys s)\<lparr>bc_value := Some v\<rparr>"
    let ?s = "s\<lparr>bx_sys := ?t, bx_snd := BSBump, bx_sent := bx_sent s @ [v]\<rparr>"
    have "bx_receiver (bc_generation ?t) False (bx_sent s @ [v]) (n \<in> fst ` set ps) (bx_rcv s n) (bc_recv (bx_sys s) n)" for n
      using I(3) [of n] BSStore by (auto simp: bx_receiver_def split: option.splits)
    moreover have "bx_values ?t BSBump (bx_sent s @ [v])" using I(1) BSStore by (simp add: bx_values_def)
    ultimately have "bx_inv ?s ps"
      using I(2) I(5) less_SucI [OF conjunct1 [OF I(4)]] conjunct2 [OF I(4)] conjunct1 [OF I(4)]
      by (auto simp: bx_inv_def nth_append)
    with BSStore freed show ?thesis by (auto simp: bc_store_def)
  next
    case BSBump
    let ?m = "length (bx_sent s)"
    let ?t = "(bx_sys s)\<lparr>bc_generation := bc_generation (bx_sys s) + 1\<rparr>"
    have len: "0 < ?m" "bc_generation (bx_sys s) = of_nat (?m - 1)"
      using I(1) BSBump by (auto simp: bx_values_def)
    then have gen: "bc_generation ?t = of_nat ?m"
      by (cases ?m) simp_all
    have "?m - 1 < ?m" "?m - 1 \<le> ?m" "?m < 2 ^ 64 - 1" using bound len(1) by simp_all
    then have less: "bc_generation (bx_sys s) < bc_generation ?t"
      using gen len(2) gen_small(2) [of ?m "?m - 1"] by metis
    have "bx_receiver (bc_generation ?t) True (bx_sent s) (n \<in> fst ` set ps) (bx_rcv s n) (bc_recv (bx_sys s) n)" for n
      using I(3) [of n] less by (fastforce simp: bx_receiver_def split: option.splits)
    moreover have "bx_values ?t BSWake (bx_sent s)" using I(1) gen by (simp add: bx_values_def)
    ultimately have "bx_inv (s\<lparr>bx_sys := ?t, bx_snd := BSWake\<rparr>) ps" using I(2,4,5) by (simp add: bx_inv_def)
    with BSBump freed show ?thesis by (auto simp: bc_bump_def)
  next
    case BSClose
    let ?t = "(bx_sys s)\<lparr>bc_generation := - 1\<rparr>"
    have "bx_receiver (bc_generation ?t) True (bx_sent s) (n \<in> fst ` set ps) (bx_rcv s n) (bc_recv (bx_sys s) n)" for n
      using I(3) [of n] by (auto simp: bx_receiver_def split: option.splits)
    moreover have "bx_values ?t BSCloseWake (bx_sent s)" using I(1) by (simp add: bx_values_def)
    ultimately have "bx_inv (s\<lparr>bx_sys := ?t, bx_snd := BSCloseWake\<rparr>) ps" using I(2,4,5) by (simp add: bx_inv_def)
    with BSClose show ?thesis by auto
  qed (use inv wake [of BSIdle] wake [of BSClosed] in auto)
qed

text \<open>The accesses of a receiver.\<close>

abbreviation br_good :: "('a, 'w) bx \<Rightarrow> ('a, 'w) bx option \<Rightarrow> bool" where
  "br_good s f \<equiv> \<exists>s' ps'. f = Some s' \<and> bx_inv s' ps' \<and> bx_sent s' = bx_sent s"

lemma br_receiverD:
  assumes "bx_inv s ps" "bc_recv (bx_sys s) n = Some r"
  shows "\<not> bc_freed (bx_sys s)" "br_last_seen r \<le> bc_generation (bx_sys s)"
    "br_takes (bx_rcv s n) = Some g \<Longrightarrow> g \<le> bc_generation (bx_sys s) \<and> bx_sent s \<noteq> []"
    "n \<in> fst ` set ps \<Longrightarrow> br_registered r"
    "n \<in> fst ` set ps \<Longrightarrow> br_waits (bx_rcv s n) \<Longrightarrow> br_last_seen r = bc_generation (bx_sys s) \<or> bs_waking (bx_snd s)"
  using bx_invD(1) [OF assms(1)] bx_invD(3) [OF assms(1), of n] assms(2)
  by (auto simp: bx_values_def bx_receiver_def)

lemma br_lags_sent:
  assumes "bx_inv s ps" "br_last_seen (r :: bc_receiver) < bc_generation (bx_sys s)" "bc_generation (bx_sys s) \<noteq> - 1"
  shows "bx_sent s \<noteq> []"
proof
  assume "bx_sent s = []"
  with bx_invD(1) [OF assms(1)] assms(3) have "bc_generation (bx_sys s) = 0" by (auto simp: bx_values_def)
  with assms(2) show False by simp
qed

text \<open>A step that only moves on, and one that leaves the queue.\<close>

lemma br_moves:
  assumes "bx_inv s ps" "bc_recv (bx_sys s) n = Some r" "f = Some (bx_goto n pc s)"
    "bx_receiver (bc_generation (bx_sys s)) (bs_waking (bx_snd s)) (bx_sent s) (n \<in> fst ` set ps) pc (Some r)"
  shows "br_good s f"
  using bx_goto_inv [OF assms(1), of n pc] assms(2-4) by (auto simp: bx_goto_def)

lemma br_leaves:
  assumes inv: "bx_inv s ps" and r: "bc_recv (bx_sys s) n = Some r"
    and pc: "\<And>g. br_takes pc = Some g \<Longrightarrow> g \<le> bc_generation (bx_sys s) \<and> bx_sent s \<noteq> []"
  shows "\<exists>u. bc_unregister n (bx_sys s) = Some u \<and> (\<exists>ps'. bx_inv (bx_goto n pc (s\<lparr>bx_sys := u\<rparr>)) ps')"
proof -
  let ?t = "bx_sys s"
  from one_queue_remove [OF bx_invD(2) [OF inv], of n] obtain h q where
    q: "WaitQueue_remove n (bc_heap ?t, bc_waiters ?t) = (h, q)" "one_queue h q (unpark n ps)" by blast
  let ?u = "?t\<lparr>bc_heap := h, bc_waiters := q, bc_recv := (bc_recv ?t)(n := Some (r\<lparr>br_registered := False\<rparr>))\<rparr>"
  have out: "m \<in> fst ` set (unpark n ps) \<longleftrightarrow> m \<noteq> n \<and> m \<in> fst ` set ps" for m
    by (force simp: unpark_def)
  have "bc_unregister n ?t = Some ?u"
    using br_receiverD(1) [OF inv r] r q(1) by (simp add: bc_unregister_def bc_set_def)
  moreover have "bx_inv (bx_goto n pc (s\<lparr>bx_sys := ?u\<rparr>)) (unpark n ps)"
    by (rule bx_sys_inv [OF inv refl q(2)])
      (use out br_receiverD(2) [OF inv r] pc in \<open>auto simp: bx_receiver_def\<close>)
  ultimately show ?thesis by blast
qed

lemma br_take_inv:
  assumes inv: "bx_inv s ps" and r: "bc_recv (bx_sys s) n = Some r" and pc: "bx_rcv s n = BRTake g"
  shows "br_good s (br_step n (BRTake g) s)"
proof -
  let ?t = "bx_sys s"
  note I = bx_invD [OF inv] and R = br_receiverD [OF inv r]
  have some: "bc_value ?t = Some (last (bx_sent s))" "bx_sent s \<noteq> []" "g \<le> bc_generation ?t"
    using R(3) [of g] pc I(1) by (auto simp: bx_values_def)
  let ?u = "bc_set n (r\<lparr>br_last_seen := g\<rparr>) ?t" and ?i = "length (bx_sent s) - 1"
  have u: "?u = ?t\<lparr>bc_heap := bc_heap ?t, bc_waiters := bc_waiters ?t,
      bc_recv := (bc_recv ?t)(n := Some (r\<lparr>br_last_seen := g\<rparr>))\<rparr>"
    by (simp add: bc_set_def)
  have "bx_inv (bx_goto n BRDrop (s\<lparr>bx_sys := ?u\<rparr>)) ps"
    by (rule bx_sys_inv [OF inv u I(2)]) (use R(4) some(3) in \<open>simp_all add: bx_receiver_def\<close>)
  moreover have "\<forall>i \<in> set (map fst (bx_got s n)). i \<le> ?i"
    using I(4) [of _ n] by fastforce
  ultimately have "bx_inv (bx_goto n BRDrop (s\<lparr>bx_sys := ?u,
      bx_got := (bx_got s)(n := bx_got s n @ [(?i, last (bx_sent s))])\<rparr>)) ps"
    using some(2) by (auto simp: bx_inv_def bx_goto_def sorted_append last_conv_nth)
  with R(1) r some(1) show ?thesis by (auto simp: bc_take_def bx_goto_def)
qed

lemma br_park_inv:
  assumes inv: "bx_inv s ps" and r: "bc_recv (bx_sys s) n = Some r"
  shows "br_good s (br_step n (BRPark w) s)"
proof -
  let ?t = "bx_sys s" and ?h = "put_node n (WaitNode_set_waker w) (bc_heap (bx_sys s))"
  note R = br_receiverD [OF inv r] and q = one_queue_set_waker [OF bx_invD(2) [OF inv], of n w]
  show ?thesis
  proof (cases "br_registered r")
    case True
    have u: "?t\<lparr>bc_heap := ?h\<rparr> = ?t\<lparr>bc_heap := ?h, bc_waiters := bc_waiters ?t, bc_recv := (bc_recv ?t)(n := Some r)\<rparr>"
      using r by (simp add: fun_upd_idem)
    have "bx_inv (bx_goto n BRRecheck (s\<lparr>bx_sys := ?t\<lparr>bc_heap := ?h\<rparr>\<rparr>)) (repark n w ps)"
      by (rule bx_sys_inv [OF inv u q]) (use R(2) True in \<open>auto simp: bx_receiver_def repark_simps\<close>)
    with r True show ?thesis by (auto simp: bc_park_def Let_def bx_goto_def)
  next
    case False
    then have out: "n \<notin> fst ` set ps" using R(4) by blast
    have "wn_waker (?h n) = Some w" by (simp add: put_node_def WaitNode_set_waker_def)
    from one_queue_enqueue [OF q [unfolded repark_simps(3) [OF out]] out this] obtain h q where
      e: "WaitQueue_enqueue n (?h, bc_waiters ?t) = Some (h, q)" "one_queue h q (ps @ [(n, w)])" by blast
    let ?u = "?t\<lparr>bc_heap := h, bc_waiters := q, bc_recv := (bc_recv ?t)(n := Some (r\<lparr>br_registered := True\<rparr>))\<rparr>"
    have "bc_park n w ?t = Some ?u"
      using r False R(1) e(1) by (simp add: bc_park_def bc_set_def Let_def)
    moreover have "bx_inv (bx_goto n BRRecheck (s\<lparr>bx_sys := ?u\<rparr>)) (ps @ [(n, w)])"
      by (rule bx_sys_inv [OF inv refl e(2)]) (use R(2) in \<open>auto simp: bx_receiver_def\<close>)
    ultimately show ?thesis by (auto simp: bx_goto_def)
  qed
qed

lemma br_step_inv:
  assumes inv: "bx_inv s ps"
  shows "br_good s (br_step n (bx_rcv s n) s)"
proof (cases "bc_recv (bx_sys s) n")
  case None
  with bx_invD(3) [OF inv, of n] inv show ?thesis by (auto simp: bx_receiver_def)
next
  case (Some r)
  let ?gen = "bc_generation (bx_sys s)"
  note R = br_receiverD [OF inv Some] and moves = br_moves [OF inv Some]
  note new = br_lags_sent [OF inv, of r]
  show ?thesis
  proof (cases "bx_rcv s n")
    case (BRLook w)
    then show ?thesis
      by (intro moves [of _ "if ?gen = - 1 then BRDrop else if br_last_seen r < ?gen then BRTake ?gen else BRPark w"])
        (use R Some new in \<open>auto simp: bc_load_def bx_receiver_def\<close>)
  next
    case BRRecheck
    then show ?thesis
      by (intro moves [of _ "if ?gen = - 1 then BRUnlink None
          else if br_last_seen r < ?gen then BRUnlink (Some ?gen) else BRIdle"])
        (use R Some new in \<open>auto simp: bc_load_def bx_receiver_def\<close>)
  next
    case (BRTake g)
    with br_take_inv [OF inv Some this] show ?thesis by simp
  next
    case (BRPark w)
    with br_park_inv [OF inv Some, of w] show ?thesis by simp
  next
    case (BRUnlink g)
    with br_leaves [OF inv Some, of "case g of None \<Rightarrow> BRDrop | Some g \<Rightarrow> BRTake g"] R(3) show ?thesis
      by (fastforce simp: bx_goto_def split: option.splits)
  next
    case BRDrop
    show ?thesis
    proof (cases "br_registered r")
      case True
      with br_leaves [OF inv Some, of BRIdle] BRDrop Some show ?thesis
        by (fastforce simp: bx_goto_def bc_future_drop_def)
    next
      case False
      then have "n \<notin> fst ` set ps" using R(4) by blast
      then show ?thesis
        by (intro moves [of _ BRIdle]) (use BRDrop Some False R(2) in \<open>auto simp: bc_future_drop_def bx_receiver_def\<close>)
    qed
  qed (use inv in auto)
qed

section \<open>Every interleaving\<close>

lemma bx_step_inv:
  assumes inv: "bx_inv s ps" and bound: "length (bx_sent s) + 1 < 2 ^ 64 - 1"
  shows "\<exists>s' ps'. bx_step e s = Some s' \<and> bx_inv s' ps' \<and> length (bx_sent s') \<le> length (bx_sent s) + 1"
proof -
  note I = bx_invD [OF inv]
  have snd: "bx_inv (s\<lparr>bx_snd := p\<rparr>) ps"
    if "bs_idle (bx_snd s)" "bs_ahead p = 0" "\<not> bs_over p" for p
  proof -
    have idle: "bx_snd s = BSIdle" using that(1) by (cases "bx_snd s") auto
    have "bx_receiver (bc_generation (bx_sys s)) w (bx_sent s) (n \<in> fst ` set ps) (bx_rcv s n) (bc_recv (bx_sys s) n)" for n w
      using I(3) [of n] idle unfolding bx_receiver_def by (cases "bc_recv (bx_sys s) n") simp_all
    then show ?thesis using I(1,2,4,5) idle that(2,3) by (simp add: bx_inv_def bx_values_def)
  qed
  have rcv: "bx_inv (bx_goto n pc s) ps" if "bx_ready n s" "br_takes pc = None" for n pc
  proof (rule bx_goto_inv [OF inv])
    show "bc_recv (bx_sys s) n \<noteq> None" using that(1) by (simp add: bx_ready_def)
    fix r assume r: "bc_recv (bx_sys s) n = Some r"
    have "bx_rcv s n = BRIdle" using that(1) by (cases "bx_rcv s n") (auto simp: bx_ready_def)
    with I(3) [of n] r that(2)
    show "bx_receiver (bc_generation (bx_sys s)) (bs_waking (bx_snd s)) (bx_sent s) (n \<in> fst ` set ps) pc (Some r)"
      by (simp add: bx_receiver_def)
  qed
  show ?thesis
  proof (cases e)
    case BxSender
    with bs_step_inv [OF assms] show ?thesis by (simp add: bx_step_def)
  next
    case (BxReceiver n)
    with br_step_inv [OF inv, of n] show ?thesis by (auto simp: bx_step_def)
  next
    case (BxSend v)
    with snd [of "BSStore v"] inv show ?thesis by (auto simp: bx_step_def)
  next
    case BxClose
    with snd [of BSClose] inv show ?thesis by (auto simp: bx_step_def)
  next
    case (BxPoll n w)
    with rcv [of n "BRLook w"] inv show ?thesis by (auto simp: bx_step_def bx_goto_def)
  next
    case (BxCancel n)
    with rcv [of n BRDrop] inv show ?thesis by (auto simp: bx_step_def bx_goto_def)
  next
    case (BxSubscribe n)
    show ?thesis
    proof (cases "bc_recv (bx_sys s) n")
      case None
      let ?t = "(bx_sys s)\<lparr>bc_refcount := bc_refcount (bx_sys s) + 1,
        bc_recv := (bc_recv (bx_sys s))(n := Some (bc_receiver_new (bc_generation (bx_sys s)))),
        bc_heap := (bc_heap (bx_sys s))(n := WaitNode_new)\<rparr>"
      from I(3) [of n] None have out: "n \<notin> fst ` set ps" "bx_rcv s n = BRIdle" by (simp_all add: bx_receiver_def)
      from one_queue_new_node [OF I(2) out(1)] have "bx_inv (s\<lparr>bx_sys := ?t\<rparr>) ps"
        using I(1,3,4,5) out by (simp add: bx_inv_def bx_values_def bx_receiver_def bc_receiver_new_def)
      with BxSubscribe None I(1) show ?thesis
        by (auto simp: bx_step_def bc_subscribe_def bx_values_def)
    qed (use BxSubscribe inv in \<open>auto simp: bx_step_def\<close>)
  qed
qed

interpretation bx: event_system bx_step "\<lambda>s. \<exists>ps. bx_inv s ps" "\<lambda>s. length (bx_sent s)" "2 ^ 64 - 2"
proof
  fix s :: "('a, 'b) bx" and e
  assume s: "\<exists>ps. bx_inv s ps" "length (bx_sent s) < 2 ^ 64 - 2"
  then have "length (bx_sent s) + 1 < 2 ^ 64 - 1" by simp
  with s(1) bx_step_inv [of s _ e]
  show "\<exists>s'. bx_step e s = Some s' \<and> (\<exists>ps. bx_inv s' ps) \<and> length (bx_sent s') \<le> Suc (length (bx_sent s))"
    by fastforce
qed


section \<open>A receiver that nobody wakes\<close>

text \<open>The run, and what evaluates it.\<close>

definition late_wake :: "addr \<Rightarrow> 'a \<Rightarrow> 'a \<Rightarrow> 'w \<Rightarrow> 'w \<Rightarrow> 'w \<Rightarrow> ('a, 'w) bx_event list" where
  "late_wake n u v w1 w2 w3 =
     [BxPoll n w1, BxReceiver n, BxReceiver n, BxSend u, BxSender, BxSender,
      BxReceiver n, BxReceiver n, BxReceiver n, BxReceiver n,
      BxPoll n w2, BxReceiver n, BxReceiver n, BxReceiver n, BxSender,
      BxPoll n w3, BxReceiver n, BxReceiver n, BxReceiver n, BxSend v, BxSender, BxSender, BxSender]"

lemma wake_all_loop_empty: "wq_head q = None \<Longrightarrow> wake_all_loop (h, q) ws es = Some (ws, es, h, q)"
  by (subst wake_all_loop.simps) simp

lemma wake_all_loop_head:
  "wq_head q = Some n \<Longrightarrow> wake_all_loop (h, q) ws es = (let (waker, s') = pop_head n (h, q) in
     case waker of
       None \<Rightarrow> wake_all_loop s' ws es
     | Some w \<Rightarrow> (case heapless_push 64 w ws of
         (Inr _, ws') \<Rightarrow> wake_all_loop s' ws' es
       | (Inl v, ws') \<Rightarrow> wake_all_loop s' ws' (es @ [Drop v])))"
  by (subst wake_all_loop.simps) simp

lemmas bx_exec = bx_step_def bx_init_def bx_goto_def bx_ready_def broadcast_def bc_receiver_new_def
  bc_store_def bc_bump_def bc_wake_all_def bc_load_def bc_take_def bc_set_def bc_park_def bc_unregister_def
  bc_future_drop_def late_wake_def WaitQueue_new_def WaitNode_new_def WaitNode_set_waker_def put_node_def
  WaitQueue_enqueue_def WaitQueue_remove_def WaitQueue_wake_all_def IntoIter_wake_def heapless_new_def
  heapless_push_def pop_head_def wake_all_loop_empty wake_all_loop_head Let_def



section \<open>Storing and cloning at the same time\<close>

text \<open>
  Nothing keeps the sender from storing the next value while a receiver that has loaded the old
  generation clones the value: after these steps both do it next.
\<close>

theorem store_races_clone:
  "\<exists>s. bx_run [BxSend u, BxSender, BxSender, BxSender, BxPoll n w, BxReceiver n, BxSend v] (bx_init n) = Some s
    \<and> bx_snd s = BSStore v \<and> bx_rcv s n = BRTake 1"
  by (simp add: bx_exec)

end
