(* ===== verification/IdleStates.thy ===== *)
theory IdleStates
  imports Bits Time
begin

text \<open>
  Idle states, \<open>src/variables/idle_states.rs\<close> and the wrappers of \<open>src/arch/x86_64/idt_state.rs\<close>:
  the table of C-states of the hardware, and the manager that picks the state to enter. An index
  out of range, an overflow and a failed \<open>expect\<close> are \<open>None\<close>.
\<close>

section \<open>The configuration\<close>

definition X86_MAX_CSTATES :: nat where "X86_MAX_CSTATES = 12"
definition X86_CSTATE_C1_NAME :: string where "X86_CSTATE_C1_NAME = ''C1''"
definition X86_CSTATE_C1_MWAIT_HINT :: u32 where "X86_CSTATE_C1_MWAIT_HINT = 0"
definition K_X86_IDLE_STATE_MASK_C1_ONLY :: u32 where "K_X86_IDLE_STATE_MASK_C1_ONLY = 1"

record x86_idle_state_raw =
  ir_name :: string
  ir_mwait_hint :: u32
  ir_exit_latency :: u32
  ir_flushes_tlb :: bool

definition c1 :: "u32 \<Rightarrow> x86_idle_state_raw" where
  "c1 exit_latency_us = \<lparr>ir_name = X86_CSTATE_C1_NAME, ir_mwait_hint = X86_CSTATE_C1_MWAIT_HINT,
     ir_exit_latency = exit_latency_us, ir_flushes_tlb = False\<rparr>"

text \<open>The array has \<open>X86_MAX_CSTATES\<close> elements.\<close>

record x86_idle_states_config =
  ic_states :: "x86_idle_state_raw list"
  ic_default_state_mask :: u32

definition X86IdleStatesConfig_default :: x86_idle_states_config where
  "X86IdleStatesConfig_default = \<lparr>
     ic_states = replicate X86_MAX_CSTATES \<lparr>ir_name = '''', ir_mwait_hint = 0, ir_exit_latency = 0, ir_flushes_tlb = False\<rparr>,
     ic_default_state_mask = 0\<rparr>"

definition x86_is_base_idle_state :: "x86_idle_state_raw \<Rightarrow> bool" where
  "x86_is_base_idle_state st \<longleftrightarrow> ir_mwait_hint st = X86_CSTATE_C1_MWAIT_HINT"

fun num_idle_loop :: "x86_idle_states_config \<Rightarrow> nat list \<Rightarrow> nat option option" where
  "num_idle_loop states [] = Some None"
| "num_idle_loop states (num # nums) = do { st \<leftarrow> idx (ic_states states) num;
     if x86_is_base_idle_state st then Some (Some (num + 1)) else num_idle_loop states nums }"

definition x86_num_idle_states :: "x86_idle_states_config \<Rightarrow> nat option option" where
  "x86_num_idle_states states = num_idle_loop states [0..<X86_MAX_CSTATES]"

section \<open>A state with its counters\<close>

record x86_idle_state =
  is_state :: x86_idle_state_raw
  is_times_entered :: u64
  is_total_duration :: i64

definition X86IdleState_new :: "x86_idle_state_raw \<Rightarrow> x86_idle_state" where
  "X86IdleState_new st = \<lparr>is_state = st, is_times_entered = 0, is_total_duration = 0\<rparr>"

definition X86IdleState_mwait_hint :: "x86_idle_state \<Rightarrow> u32" where
  "X86IdleState_mwait_hint st = ir_mwait_hint (is_state st)"

definition X86IdleState_exit_latency :: "x86_idle_state \<Rightarrow> i64" where
  "X86IdleState_exit_latency st = zx_duration_from_usec (ucast (ir_exit_latency (is_state st)))"

definition X86IdleState_is_base_state :: "x86_idle_state \<Rightarrow> bool" where
  "X86IdleState_is_base_state st = x86_is_base_idle_state (is_state st)"

definition X86IdleState_flushes_tlb :: "x86_idle_state \<Rightarrow> bool" where
  "X86IdleState_flushes_tlb st = ir_flushes_tlb (is_state st)"

definition X86IdleState_reset_counters :: "x86_idle_state \<Rightarrow> x86_idle_state" where
  "X86IdleState_reset_counters st = st\<lparr>is_times_entered := 0, is_total_duration := 0\<rparr>"

definition X86IdleState_count_entry :: "x86_idle_state \<Rightarrow> x86_idle_state option" where
  "X86IdleState_count_entry st = do { n \<leftarrow> add_chk (is_times_entered st) 1; Some (st\<lparr>is_times_entered := n\<rparr>) }"

definition X86IdleState_record_duration :: "i64 \<Rightarrow> x86_idle_state \<Rightarrow> x86_idle_state" where
  "X86IdleState_record_duration duration st =
     st\<lparr>is_total_duration := zx_duration_add_duration (is_total_duration st) duration\<rparr>"

section \<open>The manager\<close>

definition IDLE_DURATION_FACTOR :: u32 where "IDLE_DURATION_FACTOR = 3"

definition state_number_from_mwait_hint :: "u32 \<Rightarrow> u32 option" where
  "state_number_from_mwait_hint hint = do { n \<leftarrow> bits_shift hint 8 4; add_chk n 1 }"

record x86_idle_states =
  xs_states :: "x86_idle_state option list"
  xs_num_states :: nat
  xs_last_idle_duration :: i64
  xs_state_mask :: u32

fun fill_states :: "x86_idle_states_config \<Rightarrow> nat list \<Rightarrow> x86_idle_state option list \<Rightarrow> x86_idle_state option list option" where
  "fill_states config [] states = Some states"
| "fill_states config (i # is) states = do { st \<leftarrow> idx (ic_states config) i;
     states \<leftarrow> upd states i (Some (X86IdleState_new st)); fill_states config is states }"

definition X86IdleStates_new :: "x86_idle_states_config \<Rightarrow> x86_idle_states option" where
  "X86IdleStates_new config = do {
     n \<leftarrow> x86_num_idle_states config; num_states \<leftarrow> n;
     states \<leftarrow> fill_states config [0..<num_states] (replicate X86_MAX_CSTATES None);
     Some \<lparr>xs_states = states, xs_num_states = num_states, xs_last_idle_duration = 0,
       xs_state_mask = ic_default_state_mask config OR 1\<rparr> }"

text \<open>\<open>self.states[i].as_mut()\<close>: the slot and what it holds.\<close>

definition states_as_mut :: "nat \<Rightarrow> x86_idle_states \<Rightarrow> (nat \<times> x86_idle_state) option option" where
  "states_as_mut i s = map_option (map_option (Pair i)) (idx (xs_states s) i)"

text \<open>\<open>IDLE_DURATION_FACTOR * last_idle_duration\<close> overflows where the product is no \<open>i64\<close>.\<close>

definition idle_budget :: "i64 \<Rightarrow> i64 option" where
  "idle_budget d = (let p = sint (ucast IDLE_DURATION_FACTOR :: i64) * sint d in
     if - (2 ^ 63) \<le> p \<and> p < 2 ^ 63 then Some (ucast IDLE_DURATION_FACTOR * d) else None)"

fun pick_loop :: "u32 \<Rightarrow> nat list \<Rightarrow> x86_idle_states \<Rightarrow> (nat \<times> x86_idle_state) option option" where
  "pick_loop valid_state_mask [] s = do { assert_that (0 < xs_num_states s); states_as_mut (xs_num_states s - 1) s }"
| "pick_loop valid_state_mask (i # is) s = do { slot \<leftarrow> idx (xs_states s) i;
     case slot of None \<Rightarrow> pick_loop valid_state_mask is s
     | Some st \<Rightarrow> do {
         state_num \<leftarrow> state_number_from_mwait_hint (X86IdleState_mwait_hint st);
         k \<leftarrow> sub_chk state_num 1; b \<leftarrow> shl_chk 1 (unat k);
         if valid_state_mask AND b = 0 then pick_loop valid_state_mask is s
         else do {
           budget \<leftarrow> idle_budget (xs_last_idle_duration s);
           if X86IdleState_exit_latency st <s budget then states_as_mut i s
           else pick_loop valid_state_mask is s } } }"

definition pick_idle_state :: "x86_idle_states \<Rightarrow> (nat \<times> x86_idle_state) option option" where
  "pick_idle_state s = (if xs_last_idle_duration s = 0
     then do { assert_that (0 < xs_num_states s); states_as_mut (xs_num_states s - 1) s }
     else pick_loop (xs_state_mask s) [0..<xs_num_states s] s)"

definition X86IdleStates_record_duration :: "i64 \<Rightarrow> x86_idle_states \<Rightarrow> x86_idle_states" where
  "X86IdleStates_record_duration duration s = s\<lparr>xs_last_idle_duration := duration\<rparr>"

definition set_state_mask :: "u32 \<Rightarrow> x86_idle_states \<Rightarrow> x86_idle_states" where
  "set_state_mask m s = s\<lparr>xs_state_mask := m OR 1\<rparr>"

text \<open>What the owner does with the state picked: an update of its slot.\<close>

definition put_idle_state :: "nat \<Rightarrow> x86_idle_state \<Rightarrow> x86_idle_states \<Rightarrow> x86_idle_states option" where
  "put_idle_state i st s = do { states \<leftarrow> upd (xs_states s) i (Some st); Some (s\<lparr>xs_states := states\<rparr>) }"

text \<open>The wrappers; the configuration of the microarchitecture is a parameter.\<close>

definition x86_num_idle_states_from_config :: "x86_idle_states_config \<Rightarrow> nat option option" where
  "x86_num_idle_states_from_config states = x86_num_idle_states states"

definition x86_idle_states_new :: "x86_idle_states_config \<Rightarrow> x86_idle_states option" where
  "x86_idle_states_new config = X86IdleStates_new config"

section \<open>Construction\<close>

text \<open>The number of the C-state of a hint, from 0.\<close>

definition cstate_of :: "u32 \<Rightarrow> nat" where
  "cstate_of hint = unat (drop_bit 4 hint AND mask 5)"

definition wf_idle :: "x86_idle_states \<Rightarrow> bool" where
  "wf_idle s \<longleftrightarrow> 0 < xs_num_states s \<and> xs_num_states s \<le> X86_MAX_CSTATES \<and> length (xs_states s) = X86_MAX_CSTATES
     \<and> (\<forall>i < xs_num_states s. \<exists>st. xs_states s ! i = Some st \<and> (X86IdleState_is_base_state st \<longleftrightarrow> i = xs_num_states s - 1))
     \<and> bit (xs_state_mask s) 0"

lemma num_idle_loop_eq:
  assumes "\<And>i. i \<in> set is \<Longrightarrow> i < length (ic_states config)"
  shows "num_idle_loop config is
    = Some (map_option Suc (find (\<lambda>i. x86_is_base_idle_state (ic_states config ! i)) is))"
  using assms by (induction "is") auto

lemma fill_states_eq:
  assumes "n \<le> length (ic_states config)" "n \<le> length states" "m \<le> n"
  shows "fill_states config [m..<n] states = Some (take m states
    @ map (\<lambda>i. Some (X86IdleState_new (ic_states config ! i))) [m..<n] @ drop n states)"
  using assms
proof (induction "n - m" arbitrary: m states)
  case 0
  then show ?case by simp
next
  case (Suc k)
  then have m: "m < n" by simp
  with Suc have "fill_states config [Suc m..<n] (states[m := Some (X86IdleState_new (ic_states config ! m))])
    = Some (take (Suc m) (states[m := Some (X86IdleState_new (ic_states config ! m))])
      @ map (\<lambda>i. Some (X86IdleState_new (ic_states config ! i))) [Suc m..<n]
      @ drop n (states[m := Some (X86IdleState_new (ic_states config ! m))]))" by simp
  with m Suc.prems show ?case by (simp add: upt_conv_Cons upd_def take_Suc_conv_app_nth)
qed

lemma mask_bit0: "bit (m OR 1 :: u32) 0"
  by (simp add: bit_simps)

definition built :: "x86_idle_states_config \<Rightarrow> nat \<Rightarrow> x86_idle_states" where
  "built config n = \<lparr>
     xs_states = map (\<lambda>i. Some (X86IdleState_new (ic_states config ! i))) [0..<Suc n]
       @ replicate (X86_MAX_CSTATES - Suc n) None,
     xs_num_states = Suc n, xs_last_idle_duration = 0, xs_state_mask = ic_default_state_mask config OR 1\<rparr>"

lemma new_built:
  assumes len: "length (ic_states config) = X86_MAX_CSTATES"
    and f: "find (\<lambda>i. x86_is_base_idle_state (ic_states config ! i)) [0..<X86_MAX_CSTATES] = Some n"
  shows "X86IdleStates_new config = Some (built config n)" "wf_idle (built config n)" "n < X86_MAX_CSTATES"
proof -
  let ?base = "\<lambda>i. x86_is_base_idle_state (ic_states config ! i)"
  from f show n: "n < X86_MAX_CSTATES" by (auto simp: find_Some_iff)
  from f have b: "?base n" "\<And>i. i < n \<Longrightarrow> \<not> ?base i" by (auto simp: find_Some_iff)
  have "x86_num_idle_states config = Some (Some (Suc n))"
    unfolding x86_num_idle_states_def using num_idle_loop_eq [of "[0..<X86_MAX_CSTATES]" config] len f by simp
  then show "X86IdleStates_new config = Some (built config n)"
    using n fill_states_eq [of "Suc n" config "replicate X86_MAX_CSTATES None" 0] len
    by (simp add: X86IdleStates_new_def built_def del: upt_Suc)
  show "wf_idle (built config n)"
    using n b mask_bit0 by (auto simp: built_def wf_idle_def nth_append X86IdleState_is_base_state_def
        X86IdleState_new_def less_Suc_eq simp del: upt_Suc)
qed

text \<open>
  The manager can be built exactly from a configuration that names C1. It then holds the states up
  to the first C1, in their order and with cleared counters, so that C1 is the last of them and the
  only base state; C1 is allowed whatever the mask of the configuration is.
\<close>

theorem idle_states_built:
  assumes len: "length (ic_states config) = X86_MAX_CSTATES"
  shows "case find x86_is_base_idle_state (ic_states config) of
      None \<Rightarrow> X86IdleStates_new config = None
    | Some _ \<Rightarrow> \<exists>s n. X86IdleStates_new config = Some s \<and> wf_idle s \<and> xs_num_states s = Suc n
        \<and> take (Suc n) (xs_states s) = map (Some \<circ> X86IdleState_new) (take (Suc n) (ic_states config))
        \<and> x86_is_base_idle_state (ic_states config ! n)"
proof -
  let ?base = "\<lambda>i. x86_is_base_idle_state (ic_states config ! i)"
  show ?thesis
  proof (cases "find x86_is_base_idle_state (ic_states config)")
    case None
    then have "find ?base [0..<X86_MAX_CSTATES] = None" by (auto simp: find_None_iff in_set_conv_nth len)
    moreover have "x86_num_idle_states config = Some (map_option Suc (find ?base [0..<X86_MAX_CSTATES]))"
      unfolding x86_num_idle_states_def by (rule num_idle_loop_eq) (simp add: len)
    ultimately show ?thesis using None by (simp add: X86IdleStates_new_def)
  next
    case (Some b)
    then have "\<exists>i < X86_MAX_CSTATES. ?base i" by (auto simp: find_Some_iff len)
    then obtain n where f: "find ?base [0..<X86_MAX_CSTATES] = Some n"
      by (cases "find ?base [0..<X86_MAX_CSTATES]") (auto simp: find_None_iff)
    note new = new_built [OF len f]
    have "take (Suc n) (xs_states (built config n)) = map (Some \<circ> X86IdleState_new) (take (Suc n) (ic_states config))"
      by (rule nth_equalityI) (use new(3) len in \<open>auto simp: built_def nth_append simp del: upt_Suc\<close>)
    moreover have "?base n" using f by (auto simp: find_Some_iff)
    moreover have "xs_num_states (built config n) = Suc n" by (simp add: built_def)
    ultimately show ?thesis using Some new(1,2) by auto
  qed
qed

text \<open>What the other operations keep.\<close>

lemma wf_idle_ops:
  "wf_idle s \<Longrightarrow> wf_idle (X86IdleStates_record_duration d s)" "wf_idle s \<Longrightarrow> wf_idle (set_state_mask m s)"
  using mask_bit0 by (simp_all add: wf_idle_def X86IdleStates_record_duration_def set_state_mask_def)

lemma wf_idle_put:
  assumes "wf_idle s" "xs_states s ! i = Some st" "is_state st' = is_state st" "i < xs_num_states s"
    "put_idle_state i st' s = Some s'"
  shows "wf_idle s'"
proof -
  have "X86IdleState_is_base_state st \<longleftrightarrow> i = xs_num_states s - 1"
    using assms(1,2,4) by (auto simp: wf_idle_def)
  with assms show ?thesis
    by (auto simp: wf_idle_def put_idle_state_def upd_def nth_list_update X86IdleState_is_base_state_def
        split: if_splits)
qed

section \<open>Picking a state\<close>

text \<open>
  The mask allows the state, and its exit latency, in nanoseconds, is below three times the last
  idle duration.
\<close>

definition idle_allowed :: "x86_idle_states \<Rightarrow> nat \<Rightarrow> bool" where
  "idle_allowed s i \<longleftrightarrow> bit (xs_state_mask s) (cstate_of (X86IdleState_mwait_hint (the (xs_states s ! i))))"

definition idle_fast :: "x86_idle_states \<Rightarrow> nat \<Rightarrow> bool" where
  "idle_fast s i \<longleftrightarrow> 1000 * int (unat (ir_exit_latency (is_state (the (xs_states s ! i)))))
     < 3 * sint (xs_last_idle_duration s)"

definition idle_choice :: "x86_idle_states \<Rightarrow> nat" where
  "idle_choice s = (case find (\<lambda>i. idle_allowed s i \<and> idle_fast s i) [0..<xs_num_states s] of
     Some i \<Rightarrow> i | None \<Rightarrow> xs_num_states s - 1)"

definition idle_fits :: "i64 \<Rightarrow> bool" where
  "idle_fits d \<longleftrightarrow> - (2 ^ 63) \<le> 3 * sint d \<and> 3 * sint d < 2 ^ 63"

lemma cstate_of_less: "cstate_of hint < 32"
  using and_mask_less' [of 5 "drop_bit 4 hint"] by (simp add: cstate_of_def word_less_nat_alt)

lemma state_number:
  "\<exists>n k. state_number_from_mwait_hint hint = Some n \<and> sub_chk n 1 = Some k \<and> unat k = cstate_of hint"
proof -
  let ?c = "drop_bit 4 hint AND mask 5"
  have c: "unat ?c < 32" using cstate_of_less [of hint] by (simp add: cstate_of_def)
  have "bits_shift hint 8 4 = Some ?c" by (simp add: bits_shift_def bits_shift_in_eq)
  then have "state_number_from_mwait_hint hint = Some (?c + 1)"
    using c by (simp add: state_number_from_mwait_hint_def add_chk_def)
  moreover have "unat (?c + 1) = unat ?c + 1" using c by (simp add: unat_plus_one)
  then have "sub_chk (?c + 1) 1 = Some ?c" by (simp add: sub_chk_def word_le_nat_alt)
  ultimately show ?thesis by (simp add: cstate_of_def)
qed

lemma shl_test:
  assumes "k < 32"
  shows "\<exists>b. shl_chk (1 :: u32) k = Some b \<and> (\<forall>m. m AND b = 0 \<longleftrightarrow> \<not> bit m k)"
proof -
  have "m AND push_bit k 1 \<noteq> 0 \<longleftrightarrow> bit m k" for m :: u32
    using assms by (fastforce simp: bit_eq_iff [where ?'a = u32] bit_simps)
  then show ?thesis using assms by (auto simp: shl_chk_def)
qed

lemma sint_ucast_32: "sint (ucast (x :: u32) :: i64) = int (unat x)"
proof -
  have "uint x < 2 ^ 32" using unsigned_less [of x] by simp
  then have "uint (ucast x :: i64) = uint x" by (simp add: unsigned_ucast_eq take_bit_int_eq_self)
  moreover have low: "- (2 ^ 63) \<le> uint x" by (rule order_trans [of _ 0]) simp_all
  have "uint x < 2 ^ 63" using \<open>uint x < 2 ^ 32\<close> by simp
  with low have "signed_take_bit 63 (uint x) = uint x" by (rule signed_take_bit_int_eq_self)
  ultimately show ?thesis by (simp add: sint_uint)
qed

lemma clamp_nonneg: "0 \<le> x \<Longrightarrow> x < 2 ^ 63 \<Longrightarrow> clamp x = x"
  by (rule clamp_in) (simp add: in_i64_def i64_MIN_def i64_MAX_def)

lemma exit_latency_int:
  "sint (X86IdleState_exit_latency st) = 1000 * int (unat (ir_exit_latency (is_state st)))"
proof -
  have "uint (ir_exit_latency (is_state st)) < 2 ^ 32" using unsigned_less [of "ir_exit_latency (is_state st)"] by simp
  then have "clamp (1000 * uint (ir_exit_latency (is_state st))) = 1000 * uint (ir_exit_latency (is_state st))"
    by (intro clamp_nonneg) simp_all
  then show ?thesis
    by (simp add: X86IdleState_exit_latency_def zx_duration_from_usec_def mul_const sint_ucast_32)
qed

lemma idle_budget_eq: "idle_budget d = (if idle_fits d then Some (3 * d) else None)" "idle_fits d \<Longrightarrow> sint (3 * d) = 3 * sint d"
  by (simp_all add: Let_def idle_budget_def idle_fits_def IDLE_DURATION_FACTOR_def sint_word_ariths signed_take_bit_int_eq_self)

lemma pick_loop_Cons:
  assumes "i < length (xs_states s)" "xs_states s ! i = Some st"
  shows "pick_loop (xs_state_mask s) (i # is) s = (if idle_allowed s i
    then idle_budget (xs_last_idle_duration s) \<bind> (\<lambda>budget. if X86IdleState_exit_latency st <s budget
      then states_as_mut i s else pick_loop (xs_state_mask s) is s)
    else pick_loop (xs_state_mask s) is s)"
proof -
  let ?c = "cstate_of (X86IdleState_mwait_hint st)"
  obtain n k where n: "state_number_from_mwait_hint (X86IdleState_mwait_hint st) = Some n" "sub_chk n 1 = Some k"
    "unat k = ?c" using state_number by blast
  obtain b where b: "shl_chk (1 :: u32) ?c = Some b" "xs_state_mask s AND b = 0 \<longleftrightarrow> \<not> bit (xs_state_mask s) ?c"
    using shl_test [OF cstate_of_less] by blast
  have "idle_allowed s i \<longleftrightarrow> bit (xs_state_mask s) ?c" by (simp add: idle_allowed_def assms)
  then show ?thesis using assms n b by simp
qed

lemma pick_loop_eq:
  assumes "\<And>i. i \<in> set is \<Longrightarrow> i < length (xs_states s) \<and> xs_states s ! i \<noteq> None"
    "idle_fits (xs_last_idle_duration s)"
  shows "pick_loop (xs_state_mask s) is s = (case find (\<lambda>i. idle_allowed s i \<and> idle_fast s i) is of
      Some i \<Rightarrow> states_as_mut i s | None \<Rightarrow> pick_loop (xs_state_mask s) [] s)"
  using assms(1)
proof (induction "is")
  case (Cons i "is")
  then obtain st where st: "i < length (xs_states s)" "xs_states s ! i = Some st" by fastforce
  have fast: "idle_fast s i \<longleftrightarrow> X86IdleState_exit_latency st <s 3 * xs_last_idle_duration s"
    by (simp add: idle_fast_def st word_sless_alt exit_latency_int idle_budget_eq(2) [OF assms(2)])
  show ?case
    using Cons.IH Cons.prems fast assms(2) by (simp add: pick_loop_Cons [OF st] idle_budget_eq(1) del: pick_loop.simps(2))
qed simp

lemma pick_loop_overflow:
  assumes "\<And>i. i \<in> set is \<Longrightarrow> i < length (xs_states s) \<and> xs_states s ! i \<noteq> None"
    "\<not> idle_fits (xs_last_idle_duration s)" "\<exists>i \<in> set is. idle_allowed s i"
  shows "pick_loop (xs_state_mask s) is s = None"
  using assms(1,3)
proof (induction "is")
  case (Cons i "is")
  then obtain st where st: "i < length (xs_states s)" "xs_states s ! i = Some st" by fastforce
  show ?case
    using Cons assms(2) by (auto simp: pick_loop_Cons [OF st] idle_budget_eq(1) simp del: pick_loop.simps(2))
qed simp

lemma wf_idleD:
  assumes "wf_idle s"
  shows "0 < xs_num_states s" "xs_num_states s \<le> length (xs_states s)"
    "i \<in> set [0..<xs_num_states s] \<Longrightarrow> i < length (xs_states s) \<and> xs_states s ! i \<noteq> None"
    "idle_allowed s (xs_num_states s - 1)"
proof -
  let ?n = "xs_num_states s"
  show n: "0 < ?n" "?n \<le> length (xs_states s)" using assms by (auto simp: wf_idle_def)
  have slot: "\<exists>st. xs_states s ! i = Some st \<and> (X86IdleState_is_base_state st \<longleftrightarrow> i = ?n - 1)" if "i < ?n" for i
    using assms that by (auto simp: wf_idle_def)
  show "i < length (xs_states s) \<and> xs_states s ! i \<noteq> None" if "i \<in> set [0..<?n]"
    using slot [of i] that n by auto
  obtain st where "xs_states s ! (?n - 1) = Some st" "X86IdleState_is_base_state st"
    using slot [of "?n - 1"] n(1) by auto
  moreover have "bit (xs_state_mask s) 0" using assms by (simp add: wf_idle_def)
  ultimately show "idle_allowed s (?n - 1)"
    by (simp add: idle_allowed_def cstate_of_def X86IdleState_is_base_state_def x86_is_base_idle_state_def
        X86_CSTATE_C1_MWAIT_HINT_def X86IdleState_mwait_hint_def)
qed

text \<open>
  C24: Picking is the reference choice: the first, that is the deepest, state that the mask allows and
  that is fast enough, and C1 if there is none. It never fails as long as three times the last idle
  duration is in the range.
\<close>

theorem pick_idle_state_eq:
  assumes wf: "wf_idle s" and d: "idle_fits (xs_last_idle_duration s)"
  shows "pick_idle_state s = Some (map_option (Pair (idle_choice s)) (xs_states s ! idle_choice s))
    \<and> idle_choice s < xs_num_states s \<and> idle_allowed s (idle_choice s)"
proof -
  let ?P = "\<lambda>i. idle_allowed s i \<and> idle_fast s i" and ?n = "xs_num_states s"
  note n = wf_idleD(1,2) [OF wf] and slots = wf_idleD(3) [OF wf] and last = wf_idleD(4) [OF wf]
  have choice: "idle_choice s < ?n \<and> idle_allowed s (idle_choice s)"
    using n(1) last by (auto simp: idle_choice_def find_Some_iff split: option.split)
  have "pick_loop (xs_state_mask s) [0..<?n] s = states_as_mut (idle_choice s) s"
    by (subst pick_loop_eq [OF slots d]) (use n in \<open>simp_all add: idle_choice_def split: option.splits\<close>)
  moreover have "states_as_mut (?n - 1) s = states_as_mut (idle_choice s) s" if "xs_last_idle_duration s = 0"
  proof -
    have "find ?P [0..<?n] = None" using that by (simp add: find_None_iff idle_fast_def)
    then show ?thesis by (simp add: idle_choice_def)
  qed
  ultimately have "pick_idle_state s = states_as_mut (idle_choice s) s"
    using n by (simp add: pick_idle_state_def)
  then show ?thesis using choice n by (simp add: states_as_mut_def)
qed

text \<open>
  A longer idle time panics: once a duration of more than a third of the range, about 97 years, in
  either direction has been recorded, every pick fails.
\<close>

theorem pick_idle_state_overflows:
  assumes wf: "wf_idle s" and d: "\<not> idle_fits d"
  shows "pick_idle_state (X86IdleStates_record_duration d s) = None"
proof -
  let ?s = "X86IdleStates_record_duration d s"
  have wf': "wf_idle ?s" using wf_idle_ops(1) [OF wf] .
  have "xs_num_states ?s - 1 \<in> set [0..<xs_num_states ?s]" using wf_idleD(1) [OF wf'] by simp
  then have "\<exists>i \<in> set [0..<xs_num_states ?s]. idle_allowed ?s i" using wf_idleD(4) [OF wf'] by blast
  moreover have "xs_last_idle_duration ?s = d" by (simp add: X86IdleStates_record_duration_def)
  moreover have "d \<noteq> 0" using d by (auto simp: idle_fits_def)
  ultimately show ?thesis
    using pick_loop_overflow [of "[0..<xs_num_states ?s]" ?s] wf_idleD(3) [OF wf'] d
    by (simp add: pick_idle_state_def)
qed

section \<open>A machine with C6 and C1\<close>

definition demo_config :: x86_idle_states_config where
  "demo_config = \<lparr>ic_states = [\<lparr>ir_name = ''C6'', ir_mwait_hint = 32, ir_exit_latency = 100, ir_flushes_tlb = True\<rparr>]
       @ replicate 11 (c1 1), ic_default_state_mask = 6\<rparr>"

lemma demo_config_length: "length (ic_states demo_config) = X86_MAX_CSTATES"
  by (simp add: demo_config_def X86_MAX_CSTATES_def)

lemma demo_manager:
  "X86IdleStates_new demo_config = Some (built demo_config 1)" "wf_idle (built demo_config 1)"
proof -
  have "find (\<lambda>i. x86_is_base_idle_state (ic_states demo_config ! i)) [0..<X86_MAX_CSTATES] = Some 1" by code_simp
  from new_built [OF demo_config_length this] show
    "X86IdleStates_new demo_config = Some (built demo_config 1)" "wf_idle (built demo_config 1)" by simp_all
qed

theorem idle_states_built_witness:
  "\<exists>s. X86IdleStates_new demo_config = Some s \<and> wf_idle s"
proof -
  have "find x86_is_base_idle_state (ic_states demo_config) \<noteq> None" by code_simp
  with idle_states_built [OF demo_config_length] show ?thesis by (auto split: option.splits)
qed

text \<open>After a long idle time C6 is picked, after a short one C1.\<close>

theorem pick_idle_state_eq_witness:
  "\<exists>s. idle_choice s = 0 \<and> xs_states s ! 0 \<noteq> None \<and> pick_idle_state s = Some (map_option (Pair 0) (xs_states s ! 0))"
proof -
  let ?s = "X86IdleStates_record_duration 1000000 (built demo_config 1)"
  have "wf_idle ?s" using wf_idle_ops(1) [OF demo_manager(2)] .
  moreover have "idle_fits (xs_last_idle_duration ?s)"
    by (simp add: idle_fits_def X86IdleStates_record_duration_def)
  moreover have "idle_choice ?s = 0" "xs_states ?s ! 0 \<noteq> None" by code_simp+
  ultimately show ?thesis using pick_idle_state_eq [of ?s] by (intro exI [of _ ?s]) simp
qed

theorem pick_idle_state_overflows_witness:
  "pick_idle_state (X86IdleStates_record_duration (2 ^ 62) (built demo_config 1)) = None"
  by (rule pick_idle_state_overflows [OF demo_manager(2)]) (simp add: idle_fits_def)

end
