(* ===== verification/Features.thy ===== *)
theory Features
  imports IdleStates
begin

text \<open>
  CPU features, \<open>src/variables/features.rs\<close>: the CPUID leaves, the test of a feature bit, and the
  flags computed at boot. The CPUID tables and their maxima are filled by foreign code; they are a
  parameter.
\<close>

section \<open>Data\<close>

definition MAX_SUPPORTED_CPUID :: u32 where "MAX_SUPPORTED_CPUID = 0x17"
definition MAX_SUPPORTED_CPUID_HYP :: u32 where "MAX_SUPPORTED_CPUID_HYP = 0x40000001"
definition MAX_SUPPORTED_CPUID_EXT :: u32 where "MAX_SUPPORTED_CPUID_EXT = 0x80000021"

record cpuid_leaf =
  cl_a :: u32
  cl_b :: u32
  cl_c :: u32
  cl_d :: u32

datatype x86_cpuid_leaf_num = LeafBase | LeafModelFeatures | LeafCacheV1 | LeafCacheV2 | LeafMon | LeafThermalAndPower | LeafExtendedFeatureFlags | LeafPerformanceMonitoring | LeafTopology
  | LeafXsave | LeafPt | LeafTsc | LeafHypBase | LeafHypVendor | LeafKvmFeatures | LeafExtBase | LeafBrand | LeafAmdTopology

text \<open>\<open>leaf as u32\<close>. Two leaves share a number, which Rust does not accept.\<close>

fun leaf_as_u32 :: "x86_cpuid_leaf_num \<Rightarrow> u32" where
  "leaf_as_u32 LeafBase = 0x0"
| "leaf_as_u32 LeafModelFeatures = 0x1"
| "leaf_as_u32 LeafCacheV1 = 0x2"
| "leaf_as_u32 LeafCacheV2 = 0x4"
| "leaf_as_u32 LeafMon = 0x5"
| "leaf_as_u32 LeafThermalAndPower = 0x6"
| "leaf_as_u32 LeafExtendedFeatureFlags = 0x7"
| "leaf_as_u32 LeafPerformanceMonitoring = 0xa"
| "leaf_as_u32 LeafTopology = 0xb"
| "leaf_as_u32 LeafXsave = 0xd"
| "leaf_as_u32 LeafPt = 0x14"
| "leaf_as_u32 LeafTsc = 0x15"
| "leaf_as_u32 LeafHypBase = 0x40000000"
| "leaf_as_u32 LeafHypVendor = 0x40000000"
| "leaf_as_u32 LeafKvmFeatures = 0x40000001"
| "leaf_as_u32 LeafExtBase = 0x80000000"
| "leaf_as_u32 LeafBrand = 0x80000002"
| "leaf_as_u32 LeafAmdTopology = 0x8000001e"

record x86_cpuid_bit =
  cb_leaf :: x86_cpuid_leaf_num
  cb_word :: u8
  cb_bit :: u8

definition cpuid_bit :: "x86_cpuid_leaf_num \<Rightarrow> u8 \<Rightarrow> u8 \<Rightarrow> x86_cpuid_bit" where
  "cpuid_bit leaf word b = \<lparr>cb_leaf = leaf, cb_word = word, cb_bit = b\<rparr>"

datatype x86_vendor = VendorUnknown | VendorIntel | VendorAmd
datatype x86_microarch = ArchUnknown | ArchIntelNehalem | ArchIntelWestmere | ArchIntelSandyBridge | ArchIntelIvyBridge | ArchIntelBroadwell | ArchIntelHaswell | ArchIntelSkylake
  | ArchIntelCannonlake | ArchIntelIcelake | ArchIntelTigerlake | ArchIntelAlderlake | ArchIntelSilvermont | ArchIntelGoldmont | ArchIntelGoldmontPlus | ArchAmdBulldozer | ArchAmdJaguar | ArchAmdZen
datatype x86_hypervisor = HypervisorUnknown | HypervisorNone | HypervisorKvm

record x86_model_info =
  mi_processor_type :: u8
  mi_family :: u8
  mi_model :: u8
  mi_stepping :: u8
  mi_display_family :: u32
  mi_display_model :: u32
  mi_patch_level :: u32

text \<open>The configuration of a microarchitecture; its function pointers are of the opaque type \<open>'fn\<close>.\<close>

record 'fn x86_microarch_config =
  mc_microarch :: x86_microarch
  mc_get_apic_freq :: 'fn
  mc_get_tsc_freq :: 'fn
  mc_reboot_system :: 'fn
  mc_reboot_reason :: 'fn
  mc_disable_c1e :: bool
  mc_idle_prefer_hlt :: bool
  mc_idle_states :: x86_idle_states_config

text \<open>\<open>x86_get_idle_states\<close> of \<open>src/arch/x86_64/idt_state.rs\<close>, and the manager for this machine.\<close>

definition x86_get_idle_states :: "'fn x86_microarch_config \<Rightarrow> x86_idle_states_config" where
  "x86_get_idle_states config = mc_idle_states config"

text \<open>The flags, as they are before boot code computes them.\<close>

record x86_flags =
  g_x86_feature_fsgsbase :: bool
  g_x86_feature_invpcid :: bool
  g_x86_feature_pcid_enabled :: bool
  g_x86_feature_has_smap :: bool
  g_x86_vendor :: x86_vendor
  g_x86_hypervisor :: x86_hypervisor
  g_hypervisor_has_pv_clock :: bool
  g_hypervisor_has_pv_eoi :: bool
  g_hypervisor_has_pv_ipi :: bool
  g_has_ibpb :: bool
  g_ras_fill_on_ctxt_switch :: bool
  g_cpu_vulnerable_to_rsb_underflow :: bool
  g_cpu_vulnerable_to_rsb_cross_thread :: bool
  g_should_ibpb_on_ctxt_switch :: bool
  g_ssb_mitigated :: bool
  g_l1d_flush_on_vmentry :: bool
  g_md_clear_on_user_return :: bool
  g_has_enhanced_ibrs :: bool
  g_has_meltdown :: bool

definition x86_flags_init :: x86_flags where
  "x86_flags_init = \<lparr>
     g_x86_feature_fsgsbase = False,
     g_x86_feature_invpcid = False,
     g_x86_feature_pcid_enabled = False,
     g_x86_feature_has_smap = False,
     g_x86_vendor = VendorUnknown,
     g_x86_hypervisor = HypervisorUnknown,
     g_hypervisor_has_pv_clock = False,
     g_hypervisor_has_pv_eoi = False,
     g_hypervisor_has_pv_ipi = False,
     g_has_ibpb = False,
     g_ras_fill_on_ctxt_switch = False,
     g_cpu_vulnerable_to_rsb_underflow = False,
     g_cpu_vulnerable_to_rsb_cross_thread = False,
     g_should_ibpb_on_ctxt_switch = False,
     g_ssb_mitigated = False,
     g_l1d_flush_on_vmentry = False,
     g_md_clear_on_user_return = False,
     g_has_enhanced_ibrs = False,
     g_has_meltdown = False\<rparr>"

definition x86_hypervisor_has_pv_clock :: "x86_flags \<Rightarrow> bool" where
  "x86_hypervisor_has_pv_clock s \<longleftrightarrow> g_hypervisor_has_pv_clock s"

definition x86_hypervisor_has_pv_eoi :: "x86_flags \<Rightarrow> bool" where
  "x86_hypervisor_has_pv_eoi s \<longleftrightarrow> g_hypervisor_has_pv_eoi s"

definition x86_hypervisor_has_pv_ipi :: "x86_flags \<Rightarrow> bool" where
  "x86_hypervisor_has_pv_ipi s \<longleftrightarrow> g_hypervisor_has_pv_ipi s"

definition x86_has_hypervisor :: "x86_flags \<Rightarrow> bool" where
  "x86_has_hypervisor s \<longleftrightarrow> g_x86_hypervisor s \<noteq> HypervisorNone"

definition x86_cpu_has_ibpb :: "x86_flags \<Rightarrow> bool" where
  "x86_cpu_has_ibpb s \<longleftrightarrow> g_has_ibpb s"

definition x86_cpu_should_ras_fill_on_ctxt_switch :: "x86_flags \<Rightarrow> bool" where
  "x86_cpu_should_ras_fill_on_ctxt_switch s \<longleftrightarrow> g_ras_fill_on_ctxt_switch s"

definition x86_cpu_vulnerable_to_rsb_cross_thread :: "x86_flags \<Rightarrow> bool" where
  "x86_cpu_vulnerable_to_rsb_cross_thread s \<longleftrightarrow> g_cpu_vulnerable_to_rsb_cross_thread s"

definition x86_cpu_vulnerable_to_rsb_underflow :: "x86_flags \<Rightarrow> bool" where
  "x86_cpu_vulnerable_to_rsb_underflow s \<longleftrightarrow> g_cpu_vulnerable_to_rsb_underflow s"

definition x86_cpu_should_ibpb_on_ctxt_switch :: "x86_flags \<Rightarrow> bool" where
  "x86_cpu_should_ibpb_on_ctxt_switch s \<longleftrightarrow> g_should_ibpb_on_ctxt_switch s"

definition x86_cpu_should_mitigate_ssb :: "x86_flags \<Rightarrow> bool" where
  "x86_cpu_should_mitigate_ssb s \<longleftrightarrow> g_ssb_mitigated s"

definition x86_cpu_should_l1d_flush_on_vmentry :: "x86_flags \<Rightarrow> bool" where
  "x86_cpu_should_l1d_flush_on_vmentry s \<longleftrightarrow> g_l1d_flush_on_vmentry s"

definition x86_cpu_should_md_clear_on_user_return :: "x86_flags \<Rightarrow> bool" where
  "x86_cpu_should_md_clear_on_user_return s \<longleftrightarrow> g_md_clear_on_user_return s"

definition x86_cpu_has_enhanced_ibrs :: "x86_flags \<Rightarrow> bool" where
  "x86_cpu_has_enhanced_ibrs s \<longleftrightarrow> g_has_enhanced_ibrs s"

definition x86_cpu_has_meltdown :: "x86_flags \<Rightarrow> bool" where
  "x86_cpu_has_meltdown s \<longleftrightarrow> g_has_meltdown s"

section \<open>Leaves and feature bits\<close>

text \<open>The tables with the lengths they are declared with, and the highest leaf of each range.\<close>

record cpuid_tables =
  ct_cpuid :: "cpuid_leaf list"
  ct_cpuid_hyp :: "cpuid_leaf list"
  ct_cpuid_ext :: "cpuid_leaf list"
  ct_max_cpuid :: u32
  ct_max_hyp_cpuid :: u32
  ct_max_ext_cpuid :: u32

definition cpuid_tables_ok :: "cpuid_tables \<Rightarrow> bool" where
  "cpuid_tables_ok t \<longleftrightarrow> length (ct_cpuid t) = unat (MAX_SUPPORTED_CPUID + 1)
     \<and> length (ct_cpuid_hyp t) = unat (MAX_SUPPORTED_CPUID_HYP - leaf_as_u32 LeafHypBase + 1)
     \<and> length (ct_cpuid_ext t) = unat (MAX_SUPPORTED_CPUID_EXT - leaf_as_u32 LeafExtBase + 1)"

definition x86_get_cpuid_leaf :: "cpuid_tables \<Rightarrow> x86_cpuid_leaf_num \<Rightarrow> cpuid_leaf option option" where
  "x86_get_cpuid_leaf t leaf = (let leaf_val = leaf_as_u32 leaf in
     if leaf_val < leaf_as_u32 LeafHypBase then
       (if ct_max_cpuid t < leaf_val then Some None else map_option Some (idx (ct_cpuid t) (unat leaf_val)))
     else if leaf_val < leaf_as_u32 LeafExtBase then
       (if ct_max_hyp_cpuid t < leaf_val then Some None
        else do { i \<leftarrow> sub_chk leaf_val (leaf_as_u32 LeafHypBase); map_option Some (idx (ct_cpuid_hyp t) (unat i)) })
     else
       (if ct_max_ext_cpuid t < leaf_val then Some None
        else do { i \<leftarrow> sub_chk leaf_val (leaf_as_u32 LeafExtBase); map_option Some (idx (ct_cpuid_ext t) (unat i)) }))"

text \<open>\<open>debug\<close>: whether \<open>debug_assert!\<close> is compiled in.\<close>

definition x86_feature_test :: "bool \<Rightarrow> cpuid_tables \<Rightarrow> x86_cpuid_bit \<Rightarrow> bool option" where
  "x86_feature_test debug t b = do {
     assert_that (debug \<longrightarrow> cb_word b \<le> 3 \<and> cb_bit b \<le> 31);
     if 3 < cb_word b \<or> 31 < cb_bit b then Some False
     else do {
       l \<leftarrow> x86_get_cpuid_leaf t (cb_leaf b);
       case l of None \<Rightarrow> Some False
       | Some leaf \<Rightarrow>
           if cb_word b \<in> {0, 1, 2, 3} then do {
             let reg = (if cb_word b = 0 then cl_a leaf else if cb_word b = 1 then cl_b leaf
               else if cb_word b = 2 then cl_c leaf else cl_d leaf);
             m \<leftarrow> shl_chk 1 (unat (cb_bit b));
             Some (m AND reg \<noteq> 0) }
           else Some False } }"

text \<open>The constants, with their names.\<close>

definition x86_features :: "(string \<times> x86_cpuid_bit) list" where
  "x86_features = [
     (''SSE3'', cpuid_bit LeafModelFeatures 2 0),
     (''MON'', cpuid_bit LeafModelFeatures 2 3),
     (''VMX'', cpuid_bit LeafModelFeatures 2 5),
     (''TM2'', cpuid_bit LeafModelFeatures 2 8),
     (''SSSE3'', cpuid_bit LeafModelFeatures 2 9),
     (''PDCM'', cpuid_bit LeafModelFeatures 2 15),
     (''PCID'', cpuid_bit LeafModelFeatures 2 17),
     (''SSE4_1'', cpuid_bit LeafModelFeatures 2 19),
     (''SSE4_2'', cpuid_bit LeafModelFeatures 2 20),
     (''X2APIC'', cpuid_bit LeafModelFeatures 2 21),
     (''TSC_DEADLINE'', cpuid_bit LeafModelFeatures 2 24),
     (''AESNI'', cpuid_bit LeafModelFeatures 2 25),
     (''XSAVE'', cpuid_bit LeafModelFeatures 2 26),
     (''AVX'', cpuid_bit LeafModelFeatures 2 28),
     (''RDRAND'', cpuid_bit LeafModelFeatures 2 30),
     (''HYPERVISOR'', cpuid_bit LeafModelFeatures 2 31),
     (''FPU'', cpuid_bit LeafModelFeatures 3 0),
     (''SEP'', cpuid_bit LeafModelFeatures 3 11),
     (''CLFLUSH'', cpuid_bit LeafModelFeatures 3 19),
     (''ACPI'', cpuid_bit LeafModelFeatures 3 22),
     (''MMX'', cpuid_bit LeafModelFeatures 3 23),
     (''FXSR'', cpuid_bit LeafModelFeatures 3 24),
     (''SSE'', cpuid_bit LeafModelFeatures 3 25),
     (''SSE2'', cpuid_bit LeafModelFeatures 3 26),
     (''TM'', cpuid_bit LeafModelFeatures 3 29),
     (''DTS'', cpuid_bit LeafThermalAndPower 0 0),
     (''TURBO'', cpuid_bit LeafThermalAndPower 0 1),
     (''PLN'', cpuid_bit LeafThermalAndPower 0 4),
     (''PTM'', cpuid_bit LeafThermalAndPower 0 6),
     (''HWP'', cpuid_bit LeafThermalAndPower 0 7),
     (''HWP_NOT'', cpuid_bit LeafThermalAndPower 0 8),
     (''HWP_ACT'', cpuid_bit LeafThermalAndPower 0 9),
     (''HWP_PREF'', cpuid_bit LeafThermalAndPower 0 10),
     (''TURBO_MAX'', cpuid_bit LeafThermalAndPower 0 14),
     (''HW_FEEDBACK'', cpuid_bit LeafThermalAndPower 2 0),
     (''PERF_BIAS'', cpuid_bit LeafThermalAndPower 2 3),
     (''FSGSBASE'', cpuid_bit LeafExtendedFeatureFlags 1 0),
     (''TSC_ADJUST'', cpuid_bit LeafExtendedFeatureFlags 1 1),
     (''AVX2'', cpuid_bit LeafExtendedFeatureFlags 1 5),
     (''SMEP'', cpuid_bit LeafExtendedFeatureFlags 1 7),
     (''ERMS'', cpuid_bit LeafExtendedFeatureFlags 1 9),
     (''INVPCID'', cpuid_bit LeafExtendedFeatureFlags 1 10),
     (''AVX512F'', cpuid_bit LeafExtendedFeatureFlags 1 16),
     (''AVX512DQ'', cpuid_bit LeafExtendedFeatureFlags 1 17),
     (''RDSEED'', cpuid_bit LeafExtendedFeatureFlags 1 18),
     (''SMAP'', cpuid_bit LeafExtendedFeatureFlags 1 20),
     (''AVX512IFMA'', cpuid_bit LeafExtendedFeatureFlags 1 21),
     (''CLFLUSHOPT'', cpuid_bit LeafExtendedFeatureFlags 1 23),
     (''CLWB'', cpuid_bit LeafExtendedFeatureFlags 1 24),
     (''PT'', cpuid_bit LeafExtendedFeatureFlags 1 25),
     (''AVX512PF'', cpuid_bit LeafExtendedFeatureFlags 1 26),
     (''AVX512ER'', cpuid_bit LeafExtendedFeatureFlags 1 27),
     (''AVX512CD'', cpuid_bit LeafExtendedFeatureFlags 1 28),
     (''AVX512BW'', cpuid_bit LeafExtendedFeatureFlags 1 30),
     (''AVX512VL'', cpuid_bit LeafExtendedFeatureFlags 1 31),
     (''AVX512VBMI'', cpuid_bit LeafExtendedFeatureFlags 2 1),
     (''UMIP'', cpuid_bit LeafExtendedFeatureFlags 2 2),
     (''PKU'', cpuid_bit LeafExtendedFeatureFlags 2 3),
     (''AVX512VBMI2'', cpuid_bit LeafExtendedFeatureFlags 2 6),
     (''AVX512VNNI'', cpuid_bit LeafExtendedFeatureFlags 2 11),
     (''AVX512BITALG'', cpuid_bit LeafExtendedFeatureFlags 2 12),
     (''AVX512VPDQ'', cpuid_bit LeafExtendedFeatureFlags 2 14),
     (''AVX512QVNNIW'', cpuid_bit LeafExtendedFeatureFlags 3 2),
     (''AVX512QFMA'', cpuid_bit LeafExtendedFeatureFlags 3 3),
     (''MD_CLEAR'', cpuid_bit LeafExtendedFeatureFlags 3 10),
     (''IBRS_IBPB'', cpuid_bit LeafExtendedFeatureFlags 3 26),
     (''STIBP'', cpuid_bit LeafExtendedFeatureFlags 3 27),
     (''L1D_FLUSH'', cpuid_bit LeafExtendedFeatureFlags 3 28),
     (''ARCH_CAPABILITIES'', cpuid_bit LeafExtendedFeatureFlags 3 29),
     (''SSBD'', cpuid_bit LeafExtendedFeatureFlags 3 31),
     (''TOPOLOGY_SHIFT'', cpuid_bit LeafTopology 0 0),
     (''TOPOLOGY_SINGLE_PROCESSOR'', cpuid_bit LeafTopology 0 1),
     (''TOPOLOGY_LOGICAL_PROCESSOR'', cpuid_bit LeafTopology 0 8),
     (''TOPOLOGY_CORE'', cpuid_bit LeafTopology 0 9),
     (''KVM_PV_CLOCK'', cpuid_bit LeafKvmFeatures 0 3),
     (''KVM_PV_EOI'', cpuid_bit LeafKvmFeatures 0 6),
     (''KVM_PV_IPI'', cpuid_bit LeafKvmFeatures 0 11),
     (''KVM_PV_CLOCK_STABLE'', cpuid_bit LeafKvmFeatures 0 24),
     (''AMD_TOPO'', cpuid_bit LeafExtBase 2 22),
     (''SYSCALL'', cpuid_bit LeafExtBase 3 11),
     (''NX'', cpuid_bit LeafExtBase 3 20),
     (''HUGE_PAGE'', cpuid_bit LeafExtBase 3 26),
     (''RDTSCP'', cpuid_bit LeafExtBase 3 27),
     (''INVAR_TSC'', cpuid_bit LeafExtBase 3 8),
     (''INVLPGB'', cpuid_bit LeafExtBase 1 3)]"

section \<open>No access out of bounds\<close>

definition leaf_max :: "cpuid_tables \<Rightarrow> x86_cpuid_leaf_num \<Rightarrow> u32" where
  "leaf_max t leaf = (if leaf_as_u32 leaf < 0x40000000 then ct_max_cpuid t
     else if leaf_as_u32 leaf < 0x80000000 then ct_max_hyp_cpuid t else ct_max_ext_cpuid t)"

text \<open>The entry of a leaf in its table.\<close>

definition leaf_entry :: "cpuid_tables \<Rightarrow> x86_cpuid_leaf_num \<Rightarrow> cpuid_leaf" where
  "leaf_entry t leaf = (if leaf_as_u32 leaf < 0x40000000 then ct_cpuid t ! unat (leaf_as_u32 leaf)
     else if leaf_as_u32 leaf < 0x80000000 then ct_cpuid_hyp t ! (unat (leaf_as_u32 leaf) - 0x40000000)
     else ct_cpuid_ext t ! (unat (leaf_as_u32 leaf) - 0x80000000))"

lemma cpuid_leaf_eq:
  assumes "cpuid_tables_ok t"
  shows "x86_get_cpuid_leaf t leaf
    = Some (if leaf_max t leaf < leaf_as_u32 leaf then None else Some (leaf_entry t leaf))"
  using assms unfolding cpuid_tables_ok_def MAX_SUPPORTED_CPUID_def MAX_SUPPORTED_CPUID_HYP_def MAX_SUPPORTED_CPUID_EXT_def
  by (cases leaf) (simp_all add: x86_get_cpuid_leaf_def leaf_max_def leaf_entry_def sub_chk_def)

lemma word_le3: "(w :: u8) \<le> 3 \<longleftrightarrow> w \<in> {0, 1, 2, 3}"
proof
  assume "w \<le> 3"
  then have "unat w \<in> {0, 1, 2, 3}" by (auto simp: word_le_nat_alt)
  then have "w = of_nat (unat w)" "unat w = 0 \<or> unat w = 1 \<or> unat w = 2 \<or> unat w = 3" by auto
  then show "w \<in> {0, 1, 2, 3}" by (elim disjE) auto
qed auto

definition leaf_register :: "cpuid_leaf \<Rightarrow> u8 \<Rightarrow> u32" where
  "leaf_register l w = [cl_a l, cl_b l, cl_c l, cl_d l] ! unat w"

text \<open>
  C34: Whatever the tables hold and the maxima say, looking up any leaf stays inside the tables: it gives
  the entry of the leaf, or nothing if the leaf is above the maximum of its range. A feature test so
  never panics for a bit that exists, and is then exactly that bit of the entry; for a bit that does
  not exist it panics in a debug build and says no in a release build.
\<close>

theorem feature_test_reads_bit:
  assumes "cpuid_tables_ok t"
  shows "x86_get_cpuid_leaf t leaf
      = Some (if leaf_max t leaf < leaf_as_u32 leaf then None else Some (leaf_entry t leaf))
    \<and> x86_feature_test debug t b = (if cb_word b \<le> 3 \<and> cb_bit b \<le> 31
        then Some (leaf_as_u32 (cb_leaf b) \<le> leaf_max t (cb_leaf b)
          \<and> bit (leaf_register (leaf_entry t (cb_leaf b)) (cb_word b)) (unat (cb_bit b)))
        else if debug then None else Some False)"
proof (rule conjI)
  show "x86_get_cpuid_leaf t leaf
    = Some (if leaf_max t leaf < leaf_as_u32 leaf then None else Some (leaf_entry t leaf))"
    by (rule cpuid_leaf_eq [OF assms])
  show "x86_feature_test debug t b = (if cb_word b \<le> 3 \<and> cb_bit b \<le> 31
        then Some (leaf_as_u32 (cb_leaf b) \<le> leaf_max t (cb_leaf b)
          \<and> bit (leaf_register (leaf_entry t (cb_leaf b)) (cb_word b)) (unat (cb_bit b)))
        else if debug then None else Some False)"
  proof (cases "cb_word b \<le> 3 \<and> cb_bit b \<le> 31")
    case True
    then have "unat (cb_bit b) < 32" by (simp add: word_le_nat_alt)
    from shl_test [OF this] obtain m where
      m: "shl_chk (1 :: u32) (unat (cb_bit b)) = Some m" "\<forall>r. r AND m = 0 \<longleftrightarrow> \<not> bit r (unat (cb_bit b))"
      by blast
    have m': "(m AND r = 0) = (\<not> bit r (unat (cb_bit b)))" for r using m(2) unfolding and.commute [of m r] by simp
    from True have "cb_word b \<in> {0, 1, 2, 3}" by (simp add: word_le3)
    then show ?thesis
      unfolding x86_feature_test_def cpuid_leaf_eq [OF assms] using True m(1)
      by (elim insertE emptyE) (simp_all add: m' leaf_register_def not_less not_le [symmetric])
  next
    case False
    then show ?thesis by (auto simp: x86_feature_test_def assert_that_def not_le)
  qed
qed

text \<open>The constants name 85 different bits that exist.\<close>

lemma features_exist:
  "length x86_features = 85" "distinct (map snd x86_features)" "distinct (map fst x86_features)"
  "list_all (\<lambda>(_, b). cb_word b \<le> 3 \<and> cb_bit b \<le> 31) x86_features"
  by code_simp+

definition demo_tables :: cpuid_tables where
  "demo_tables = \<lparr>ct_cpuid = replicate 24 \<lparr>cl_a = 0, cl_b = 0x80, cl_c = 0, cl_d = 0\<rparr>,
     ct_cpuid_hyp = replicate 2 \<lparr>cl_a = 0, cl_b = 0, cl_c = 0, cl_d = 0\<rparr>,
     ct_cpuid_ext = replicate 34 \<lparr>cl_a = 0, cl_b = 0, cl_c = 0, cl_d = 0\<rparr>,
     ct_max_cpuid = 7, ct_max_hyp_cpuid = 0, ct_max_ext_cpuid = 0\<rparr>"

text \<open>SMEP is bit 7 of \<open>ebx\<close> of leaf 7.\<close>

theorem feature_test_reads_bit_witness:
  "x86_feature_test True demo_tables (cpuid_bit LeafExtendedFeatureFlags 1 7) = Some True"
proof -
  have "cpuid_tables_ok demo_tables" by code_simp
  from feature_test_reads_bit [OF this, of LeafBase True "cpuid_bit LeafExtendedFeatureFlags 1 7"]
  show ?thesis by (simp add: cpuid_bit_def leaf_max_def leaf_entry_def leaf_register_def demo_tables_def bit_simps)
qed

text \<open>Before anything is detected the kernel believes to run on a hypervisor.\<close>

lemma has_hypervisor_init: "x86_has_hypervisor x86_flags_init" "\<not> x86_hypervisor_has_pv_clock x86_flags_init"
  by (simp_all add: x86_has_hypervisor_def x86_flags_init_def x86_hypervisor_has_pv_clock_def)

end
