(* ===== verification/Platform.thy ===== *)
theory Platform
  imports Prelude
begin

text \<open>
  The platform types, \<open>src/variables/platform.rs\<close>, and the assertion macros,
  \<open>src/variables/assert_macro.rs\<close>. The functions of the platform itself are foreign.
\<close>

section \<open>Types\<close>

definition BOOT_CPU_ID :: u32 where "BOOT_CPU_ID = 0"

datatype halt_action = Halt | Reboot | RebootBootloader | RebootRecovery | Shutdown

fun HaltAction_as_u32 :: "halt_action \<Rightarrow> u32" where
  "HaltAction_as_u32 Halt = 0"
| "HaltAction_as_u32 Reboot = 1"
| "HaltAction_as_u32 RebootBootloader = 2"
| "HaltAction_as_u32 RebootRecovery = 3"
| "HaltAction_as_u32 Shutdown = 4"

datatype platform_allow_domain_power_down = PowerDownNo | PowerDownYes

datatype panic_start_halt_other_cpus = HaltOthersNo | HaltOthersYes

definition PanicStartHaltOtherCpus_default :: panic_start_halt_other_cpus where
  "PanicStartHaltOtherCpus_default = HaltOthersYes"

datatype zx_status = Ok | ErrNotSupported | ErrNoResources | ErrNoMemory | ErrInternal
  | ErrInvalidArgs | ErrBadState | ErrTimedOut | ErrShouldWait | ErrCanceled | ErrPeerClosed
  | ErrNotFound | ErrAlreadyExists | ErrAlreadyBound | ErrAccessDenied

fun ZxStatus_as_i32 :: "zx_status \<Rightarrow> i32" where
  "ZxStatus_as_i32 Ok = 0"
| "ZxStatus_as_i32 ErrNotSupported = - 2"
| "ZxStatus_as_i32 ErrNoResources = - 3"
| "ZxStatus_as_i32 ErrNoMemory = - 4"
| "ZxStatus_as_i32 ErrInternal = - 11"
| "ZxStatus_as_i32 ErrInvalidArgs = - 10"
| "ZxStatus_as_i32 ErrBadState = - 20"
| "ZxStatus_as_i32 ErrTimedOut = - 21"
| "ZxStatus_as_i32 ErrShouldWait = - 22"
| "ZxStatus_as_i32 ErrCanceled = - 23"
| "ZxStatus_as_i32 ErrPeerClosed = - 24"
| "ZxStatus_as_i32 ErrNotFound = - 25"
| "ZxStatus_as_i32 ErrAlreadyExists = - 26"
| "ZxStatus_as_i32 ErrAlreadyBound = - 27"
| "ZxStatus_as_i32 ErrAccessDenied = - 30"

datatype power_cpu_state = Online | Offline | Suspending

text \<open>The numbers tell the values apart, and only success is not negative.\<close>

lemma HaltAction_inj: "HaltAction_as_u32 a = HaltAction_as_u32 b \<longleftrightarrow> a = b"
  by (cases a; cases b) simp_all

lemma ZxStatus_inj: "ZxStatus_as_i32 a = ZxStatus_as_i32 b \<longleftrightarrow> a = b"
  by (cases a; cases b) simp_all

lemma ZxStatus_negative: "ZxStatus_as_i32 a <s 0 \<longleftrightarrow> a \<noteq> Ok"
  by (cases a) (simp_all add: word_sless_alt)

section \<open>Assertions\<close>

text \<open>
  A panic carries its message. A condition is the outcome of evaluating it, which may itself panic;
  the arguments of a macro that is compiled out are not evaluated. \<open>debug\<close> is
  \<open>cfg(debug_assertions)\<close>.
\<close>

datatype panic = Panic string

fun show_nat :: "nat \<Rightarrow> string" where
  "show_nat n = (if n < 10 then [char_of (48 + n)] else show_nat (n div 10) @ [char_of (48 + n mod 10)])"

definition assert_fail :: "string \<Rightarrow> u32 \<Rightarrow> string \<Rightarrow> panic" where
  "assert_fail file line expression =
     Panic (''assertion failed at '' @ file @ '':'' @ show_nat (unat line) @ '': '' @ expression)"

definition assert_fail_msg :: "string \<Rightarrow> u32 \<Rightarrow> string \<Rightarrow> string \<Rightarrow> panic" where
  "assert_fail_msg file line expression msg =
     Panic (''assertion failed at '' @ file @ '':'' @ show_nat (unat line) @ '': '' @ expression @ [CHR 0x0A] @ msg)"

type_synonym site = "string \<times> u32 \<times> string"

definition zydon_assert :: "site \<Rightarrow> panic + bool \<Rightarrow> panic + unit" where
  "zydon_assert at cond = (case at of (file, line, expression) \<Rightarrow> (case cond of
     Inl p \<Rightarrow> Inl p
   | Inr b \<Rightarrow> if \<not> b then Inl (assert_fail file line expression) else Inr ()))"

definition zydon_assert_msg :: "site \<Rightarrow> panic + bool \<Rightarrow> panic + string \<Rightarrow> panic + unit" where
  "zydon_assert_msg at cond msg = (case at of (file, line, expression) \<Rightarrow> (case cond of
     Inl p \<Rightarrow> Inl p
   | Inr b \<Rightarrow> if \<not> b then (case msg of Inl p \<Rightarrow> Inl p | Inr m \<Rightarrow> Inl (assert_fail_msg file line expression m))
       else Inr ()))"

definition zydon_debug_assert :: "bool \<Rightarrow> site \<Rightarrow> panic + bool \<Rightarrow> panic + unit" where
  "zydon_debug_assert debug at cond = (if debug then zydon_assert at cond else Inr ())"

definition zydon_debug_assert_msg :: "bool \<Rightarrow> site \<Rightarrow> panic + bool \<Rightarrow> panic + string \<Rightarrow> panic + unit" where
  "zydon_debug_assert_msg debug at cond msg = (if debug then zydon_assert_msg at cond msg else Inr ())"

definition zydon_panic :: "panic + string \<Rightarrow> panic + unit" where
  "zydon_panic msg = (case msg of Inl p \<Rightarrow> Inl p | Inr m \<Rightarrow> Inl (Panic m))"

definition zydon_debug_assert_cond :: "bool \<Rightarrow> site \<Rightarrow> panic + bool \<Rightarrow> panic + unit" where
  "zydon_debug_assert_cond debug at cond = (if debug then zydon_debug_assert debug at cond else Inr ())"

definition zydon_debug_assert_msg_cond :: "bool \<Rightarrow> site \<Rightarrow> panic + bool \<Rightarrow> panic + string \<Rightarrow> panic + unit" where
  "zydon_debug_assert_msg_cond debug at cond msg = (if debug then zydon_debug_assert_msg debug at cond msg else Inr ())"

text \<open>
  The assertions pass exactly when the condition holds, the message is looked at only on a failure,
  and the conditional variants are the plain debug ones.
\<close>

lemma asserts_pass:
  "zydon_assert at cond = Inr () \<longleftrightarrow> cond = Inr True"
  "zydon_assert_msg at cond msg = Inr () \<longleftrightarrow> cond = Inr True"
  by (auto simp: zydon_assert_def zydon_assert_msg_def split: prod.splits sum.splits)

lemma debug_asserts:
  "zydon_debug_assert debug at cond = Inr () \<longleftrightarrow> (debug \<longrightarrow> cond = Inr True)"
  "zydon_debug_assert_cond = zydon_debug_assert" "zydon_debug_assert_msg_cond = zydon_debug_assert_msg"
  by (auto simp: zydon_debug_assert_def asserts_pass zydon_debug_assert_cond_def zydon_debug_assert_msg_def
      zydon_debug_assert_msg_cond_def fun_eq_iff)

end
