(* ===== verification/Spec2Isabelle.thy ===== *)
theory Spec2Isabelle
  imports TableLocks Spinlock Bits Time TaskId TaskState Ipc WaitQueue Futex Tcb
    RunQueue Stealer ChaseLev Cores Oneshot AsyncMutex ChannelRuns BroadcastRuns IdleStates Features Platform
begin

text \<open>
  A verification library for the core of the Zydon kernel, a capability microkernel in Rust whose
  scheduler polls futures. Paths below are under \<open>src/\<close>. The theories follow the source files;
  definitions carry the names of the functions they model.

  \<^bold>\<open>The program and its parts.\<close> A process owns objects through handles: \<open>object/rights.rs\<close> has the
  rights, \<open>object/kernel_object.rs\<close> the counted objects, \<open>object/handle.rs\<close> the tables. Processes
  exchange messages (\<open>ipc/message.rs\<close>) over a ring (\<open>ipc/ring_buffer.rs\<close>). Each core runs an executor
  (\<open>task/executor.rs\<close>) that drains its run queue (\<open>task/run_queue.rs\<close>) into a work-stealing deque
  (\<open>task/stealer.rs\<close>), polls task control blocks (\<open>task/task_control_block.rs\<close>) through their state
  machine (\<open>task/task_state.rs\<close>, \<open>task/task_id.rs\<close>), and steals from other cores. Tasks wait on
  primitives (\<open>primitives/\<close>: spinlock, wait queue, futex, oneshot, async mutex, channel, broadcast),
  which wake the wakers in a priority wait queue; a waker leads back to the task's control block.
  \<open>variables/\<close> has bit, time and assertion helpers, CPU features and idle states.

  \<^bold>\<open>Theories.\<close>
  \<^item> \<open>Prelude\<close>: machine types, Rust's checked arithmetic and indexing (\<open>None\<close> is a panic), word lemmas.
  \<^item> \<open>Interfaces\<close>: the contracts, as locales, and runs of operations (\<open>run_ops\<close>) with their invariant
    and refinement rules.
  \<^item> \<open>Rights\<close>, \<open>KernelObject\<close>, \<open>Handles\<close> (operations), \<open>HandleTables\<close> (the free list as invariant, the
    table as a finite map), \<open>Capabilities\<close> (all tables of the system over one object store), \<open>TableSafety\<close>
    (their invariant with the store), \<open>TableLocks\<close> (threads that take the locks of the tables one by
    one and run the operations under them).
  \<^item> \<open>Message\<close>, \<open>Heapless\<close>, \<open>RingBuffer\<close> (operations, and producer and consumer interleaved),
    \<open>Ipc\<close> (a session: messages over the ring).
  \<^item> \<open>TaskId\<close>, \<open>TaskState\<close>, \<open>Tcb\<close>, \<open>RunQueue\<close> (intrusive lists in the heap of tasks), \<open>Stealer\<close> (the deque
    one operation at a time, and batch steals in pieces), \<open>ChaseLev\<close> (the deque with owner and thieves
    interleaved), \<open>Executor\<close> (the loop and one turn of it), \<open>ExecutorRuns\<close> (runs of turns), \<open>Cores\<close>
    (several executors that steal from each other).
  \<^item> \<open>Spinlock\<close>, \<open>WaitQueue\<close> (doubly linked list in the heap of nodes), \<open>Futex\<close>, \<open>Oneshot\<close>, \<open>AsyncMutex\<close>,
    \<open>Channel\<close> (operations that do not overlap), \<open>ChannelRuns\<close> (one producer and one receiver, access by
    access), \<open>Broadcast\<close> and \<open>BroadcastRuns\<close> (likewise, one sender and any number of receivers).
  \<^item> \<open>Bits\<close>, \<open>Time\<close>, \<open>Features\<close>, \<open>IdleStates\<close> (with \<open>arch/x86_64/idt_state.rs\<close>), \<open>Platform\<close> (with the
    assertion macros).

  \<^bold>\<open>How state and operations correspond.\<close> A struct is a record with one field for each of its fields,
  an enum a datatype, a \<open>u32\<close> or \<open>u64\<close> a word; \<open>usize\<close> counters that only index are natural numbers
  with the overflow check written out, the \<open>isize\<close> indices of the deque integers with theirs. A
  function of the code is a definition that takes and returns the state; a panic, an overflow in a
  checked build, an \<open>unreachable!\<close> and an undefined access (freed box, unwritten slot) are \<open>None\<close>, an
  error value is \<open>Inl\<close>. Raw pointers are addresses into a heap (of tasks, wait nodes, objects), the
  null pointer is \<open>None\<close>. Where the code races, the operations are also given one shared access at
  a time, as program counters with a step function, and interleaved by event lists (\<open>RingBuffer\<close>,
  \<open>ChannelRuns\<close>, \<open>BroadcastRuns\<close>, \<open>Oneshot\<close>, \<open>AsyncMutex\<close>, \<open>Spinlock\<close>) or an inductive relation (\<open>ChaseLev\<close>).

  \<^bold>\<open>Interfaces.\<close> \<open>generational_id\<close> (an identifier is an index and a generation) is interpreted by handles
  and task ids; \<open>ref_counted\<close> by \<open>KoRef\<close> and by the oneshot box; \<open>authority\<close> (no step adds authority)
  by the handle tables; \<open>bounded_fifo\<close> by the ring and by the channel's buffer; \<open>waiter_queue\<close> by the
  wait queue; \<open>work_deque\<close> (a stack for its owner) by the deque, for the executor; \<open>event_system\<close> and
  \<open>unbounded_events\<close> (accesses in any order keep an invariant) by each interleaved component. \<open>rights\<close> are a
  lattice, task ids are linearly ordered.

  \<^bold>\<open>What the lemmas show.\<close>
  \<^item> Safety of capabilities: rights only shrink, entries are exactly the counted references, a closed
    handle stays dead, each table operation is the one on maps, and callers that own the references
    they give away make none panic and no object die under a handle.
  \<^item> Refinement: run queue to a stable priority queue, deque to a list, broadcast to the latest value
    for each receiver, cell of a task state to the state machine.
  \<^item> Interleavings: the ring is first in, first out; the oneshot delivers once and frees once; the mutex
    excludes; the channel with one producer is first in, first out and a queued receiver sleeps only
    over an empty channel; broadcast receivers get values in order; the deque is linearizable for single
    steals; the spinlock excludes while no ticket is drawn during a release; table
    operations of several threads linearize, and their lock order excludes deadlock.
  \<^item> Scheduling: a visit to a task is bounded; all tasks that can finish do; no core loses or duplicates
    a task; task states stay valid and the dead stay dead.
  \<^item> Round trips and bounds: messages over the ring and what the receiver decodes, bit ranges, feature bits, idle
    states, durations.
  \<^item> What the code does not do: theorems with a concrete run for lost wake-ups (mutex, oneshot, channel),
    tasks that are woken but never queued, starvation, batch steals that duplicate a task, freed
    memory that a thief or a receiver reads, a transfer from a table to itself, futex wakes of foreign
    words, wrong saturation of times.

  \<^bold>\<open>Bounds and fuel.\<close> No definition uses fuel: loops that may not end are \<open>partial_function (option)\<close> and
  their results are shown to exist. Counters: fewer than \<open>2 ^ 62\<close> pushes of a deque, so that neither
  an \<open>isize\<close> index nor the doubling of the buffer overflows; fewer than \<open>2 ^ 63\<close> polls and completions,
  \<open>2 ^ 32\<close> references and quantum expiries of one task; 65535 acquisitions of a spinlock, after which
  the ticket carries into the other half (shown). Each bound is a hypothesis of the theorem.

  \<^bold>\<open>Parameters.\<close> What is not in the sources is an argument: polling a future, translating an address
  (\<open>virt_to_phys\<close>), the result of \<open>kernel_alloc\<close>, the CPUID tables and flags. The hypotheses on futures
  (\<open>steady\<close>, \<open>local_poll\<close>, \<open>finishing\<close>, \<open>typed_poll\<close>) are met by concrete futures in the witnesses.

  \<^bold>\<open>Not modelled.\<close> Memory is sequentially consistent: orderings weaker than that are read as
  \<open>SeqCst\<close>. A critical section of a spinlock is one step. The x86-64 assembly (\<open>arch/x86_64/*.s\<close>) and the
  context switch; \<open>mod\<close> declarations; the texts of \<open>Debug\<close> where they are derived; the foreign functions
  of the platform and the halt of \<open>shutdown\<close>; the trait \<open>KernelObject\<close> with its downcasts, which has no
  implementation in the sources; allocation of the rings and buffers is assumed to succeed except in
  the channel. The private vector of \<open>wait_queue.rs\<close> repeats that of \<open>message.rs\<close> and is modelled once.
\<close>

end
